(* ===== verification/Exchange_Prelude.thy ===== *)
theory Exchange_Prelude
  imports Main "HOL-Library.Sublist"
begin

text \<open>
  Prelude of the development: a collection of hints for the component theories, the
  C integer limits, the allocator's answers, and the generic list lemmas the components use.
\<close>

section \<open>A collection of hints\<close>

named_theorems frame_simps \<open>what an operation on connections changes and what it leaves as it is\<close>

section \<open>C integers\<close>

text \<open>
  The program's \<open>int\<close> is a 32-bit two's complement integer and \<open>long\<close> a 64-bit one (FreeBSD
  amd64). Values are HOL integers; \<open>to_int32\<close> is the conversion of a wider value to \<open>int\<close>.
\<close>

definition INT_MAX :: int where "INT_MAX = 2147483647"
definition LONG_MAX :: int where "LONG_MAX = 9223372036854775807"

definition to_int32 :: "int \<Rightarrow> int" where
  "to_int32 v = (v + 2147483648) mod 4294967296 - 2147483648"

definition clamp_long :: "int \<Rightarrow> int" where
  "clamp_long v = (if v > LONG_MAX then LONG_MAX else if v < - LONG_MAX - 1 then - LONG_MAX - 1 else v)"

lemma to_int32_id: "- 2147483648 \<le> v \<Longrightarrow> v \<le> INT_MAX \<Longrightarrow> to_int32 v = v"
  by (simp add: to_int32_def INT_MAX_def)

lemma to_int32_range: "- 2147483648 \<le> to_int32 v \<and> to_int32 v \<le> INT_MAX"
proof -
  have "0 \<le> (v + 2147483648) mod 4294967296" "(v + 2147483648) mod 4294967296 < 4294967296"
    by simp_all
  then show ?thesis
    unfolding to_int32_def INT_MAX_def by linarith
qed

lemma clamp_long_id: "- 2147483648 \<le> v \<Longrightarrow> v \<le> INT_MAX \<Longrightarrow> clamp_long v = v"
  by (simp add: clamp_long_def LONG_MAX_def INT_MAX_def)

section \<open>The allocator\<close>

text \<open>
  \<open>malloc\<close>, \<open>calloc\<close> and \<open>realloc\<close> may fail at any call. Their answers are a script, one entry
  for each call, \<open>False\<close> for a failed one; when the script is used up every later call succeeds.
\<close>

type_synonym mem = "bool list"

fun alloc :: "mem \<Rightarrow> bool \<times> mem" where
  "alloc [] = (True, [])"
| "alloc (b # bs) = (b, bs)"

section \<open>Lists\<close>

lemma sum_list_filter_split:
  fixes f :: "'a \<Rightarrow> int"
  shows "sum_list (map f xs) = sum_list (map f (filter P xs)) + sum_list (map f (filter (\<lambda>x. \<not> P x) xs))"
  by (induction xs) auto

lemma sum_list_pos_nonneg:
  fixes f :: "'a \<Rightarrow> int"
  assumes "\<And>x. x \<in> set xs \<Longrightarrow> 0 < f x"
  shows "0 \<le> sum_list (map f xs)"
  using assms by (induction xs) (auto simp: less_imp_le add_nonneg_nonneg)

lemma disjoint_growth: "C \<subseteq> X \<union> N \<Longrightarrow> N \<inter> D = {} \<Longrightarrow> Y \<inter> X = {} \<Longrightarrow> Y \<subseteq> D \<Longrightarrow> C \<inter> Y = {}"
  by blast

lemma insert_remove_kept: "a \<notin> D \<Longrightarrow> Y \<subseteq> X \<Longrightarrow> Y \<subseteq> D \<Longrightarrow> insert a D - (X - Y) - {a} = D - X \<union> Y"
  by blast

lemma UN_fun_upd: "(\<Union>x. f ((A(r := c)) x)) = f c \<union> (\<Union>x \<in> - {r}. f (A x))"
  by (auto split: if_splits)

lemma subseq_set_mono: "subseq xs ys \<Longrightarrow> set xs \<subseteq> set ys"
  by (auto dest: list_emb_set)

lemma subseq_distinct: "subseq xs ys \<Longrightarrow> distinct ys \<Longrightarrow> distinct xs"
  by (induction rule: list_emb.induct) (auto dest: subseq_set_mono)

lemma sorted_wrt_subseq: "subseq xs ys \<Longrightarrow> sorted_wrt R ys \<Longrightarrow> sorted_wrt R xs"
  by (induction rule: list_emb.induct) (auto dest: subseq_set_mono)

end
