(* ===== verification/Orderbook.thy ===== *)
theory Orderbook
  imports Exchange_Prelude
begin

text \<open>
  The order book, \<open>src/includes/orderbook.h\<close> and \<open>orderbook.c\<close>, with each of its four linked lists
  seen as the HOL list of its orders in list order. \<open>Order_Heap\<close> models the same functions on the
  heap, pointer by pointer, and proves that they implement the functions of this theory.
\<close>

section \<open>Data\<close>

datatype OrderSide = BUY | SELL

datatype Instrument = JNST | IMCT

record Order =
  oid :: int
  quantity :: int
  price :: int
  owner_fd :: int
  side :: OrderSide
  instrument :: Instrument

record Fill =
  fprice :: int
  fquantity :: int
  buy_client_fd :: int
  sell_client_fd :: int
  finstrument :: Instrument

text \<open>
  The book is four lists. The type of a list is a parameter: a list of orders here, a head pointer
  in \<open>Order_Heap\<close>. A pointer to one of the four fields, which \<open>ownList\<close> and \<open>oppList\<close> return, is
  the name of the field.
\<close>

record 'l LimitOrderBook =
  jnst_buy_orders :: 'l
  jnst_sell_orders :: 'l
  imct_buy_orders :: 'l
  imct_sell_orders :: 'l

datatype list_ref = JnstBuy | JnstSell | ImctBuy | ImctSell

fun get_list :: "'l LimitOrderBook \<Rightarrow> list_ref \<Rightarrow> 'l" where
  "get_list b JnstBuy = jnst_buy_orders b"
| "get_list b JnstSell = jnst_sell_orders b"
| "get_list b ImctBuy = imct_buy_orders b"
| "get_list b ImctSell = imct_sell_orders b"

fun set_list :: "'l LimitOrderBook \<Rightarrow> list_ref \<Rightarrow> 'l \<Rightarrow> 'l LimitOrderBook" where
  "set_list b JnstBuy x = b\<lparr>jnst_buy_orders := x\<rparr>"
| "set_list b JnstSell x = b\<lparr>jnst_sell_orders := x\<rparr>"
| "set_list b ImctBuy x = b\<lparr>imct_buy_orders := x\<rparr>"
| "set_list b ImctSell x = b\<lparr>imct_sell_orders := x\<rparr>"

lemma get_set_list [simp]: "get_list (set_list b r x) r' = (if r' = r then x else get_list b r')"
  by (cases r; cases r') auto

lemma set_list_get [simp]: "set_list b r (get_list b r) = b"
  by (cases r) auto

lemma book_eqI: "(\<And>r. get_list b r = get_list (b' :: 'l LimitOrderBook) r) \<Longrightarrow> b = b'"
  using get_list.simps by (metis LimitOrderBook.equality unit.exhaust)

text \<open>\<open>list_ref\<close> is an enumeration type, so a quantifier over the four lists can be evaluated.\<close>

instantiation list_ref :: enum
begin

definition enum_list_ref :: "list_ref list" where
  "enum_list_ref = [JnstBuy, JnstSell, ImctBuy, ImctSell]"

definition enum_all_list_ref :: "(list_ref \<Rightarrow> bool) \<Rightarrow> bool" where
  "enum_all_list_ref P \<longleftrightarrow> P JnstBuy \<and> P JnstSell \<and> P ImctBuy \<and> P ImctSell"

definition enum_ex_list_ref :: "(list_ref \<Rightarrow> bool) \<Rightarrow> bool" where
  "enum_ex_list_ref P \<longleftrightarrow> P JnstBuy \<or> P JnstSell \<or> P ImctBuy \<or> P ImctSell"

instance
proof
  show "UNIV = set (enum_class.enum :: list_ref list)"
    using list_ref.exhaust by (auto simp: enum_list_ref_def)
  show "distinct (enum_class.enum :: list_ref list)"
    by (simp add: enum_list_ref_def)
  show "enum_class.enum_all P \<longleftrightarrow> Ball (UNIV :: list_ref set) P" for P
    by (metis (full_types) UNIV_I enum_all_list_ref_def list_ref.exhaust)
  show "enum_class.enum_ex P \<longleftrightarrow> Bex (UNIV :: list_ref set) P" for P
    by (metis (full_types) UNIV_I enum_ex_list_ref_def list_ref.exhaust)
qed

end

section \<open>Operations\<close>

definition initOrderbook :: "'o list LimitOrderBook" where
  "initOrderbook = \<lparr>jnst_buy_orders = [], jnst_sell_orders = [], imct_buy_orders = [], imct_sell_orders = []\<rparr>"

definition ownList :: "Order \<Rightarrow> list_ref" where
  "ownList ord =
     (if instrument ord = JNST then (if side ord = BUY then JnstBuy else JnstSell)
      else (if side ord = BUY then ImctBuy else ImctSell))"

definition oppList :: "Order \<Rightarrow> list_ref" where
  "oppList ord =
     (if instrument ord = JNST then (if side ord = BUY then JnstSell else JnstBuy)
      else (if side ord = BUY then ImctSell else ImctBuy))"

definition FILLS_INITIAL_CAPACITY :: nat where
  "FILLS_INITIAL_CAPACITY = 16"

text \<open>The growth of the array of fills: on a failed \<open>realloc\<close> the old array and capacity stay.\<close>

definition growFills :: "mem \<Rightarrow> nat \<Rightarrow> nat \<Rightarrow> nat \<times> mem" where
  "growFills m count cap =
     (if count = cap
      then let new_cap = (if cap = 0 then FILLS_INITIAL_CAPACITY else cap * 2);
               (grown, m') = alloc m
           in (if grown then new_cap else cap, m')
      else (cap, m))"

definition mkFill :: "Order \<Rightarrow> Order \<Rightarrow> int \<Rightarrow> Fill" where
  "mkFill cur ord qty =
     \<lparr>fprice = price cur, fquantity = qty,
      buy_client_fd = (if side ord = BUY then owner_fd ord else owner_fd cur),
      sell_client_fd = (if side ord = BUY then owner_fd cur else owner_fd ord),
      finstrument = instrument ord\<rparr>"

definition tradeQty :: "Order \<Rightarrow> Order \<Rightarrow> int" where
  "tradeQty cur ord = (if quantity ord < quantity cur then quantity ord else quantity cur)"

text \<open>
  The matching loop of \<open>addOrder\<close>: the walk over the opposite list. Its arguments are the rest of
  the list, the incoming order, the fills recorded so far (their number is \<open>count\<close>) and the
  capacity of the array. The result is the list with the executed orders reduced or removed, the
  incoming order with what is left of it, and the recorded fills.
\<close>

fun matchLoop :: "mem \<Rightarrow> Order list \<Rightarrow> Order \<Rightarrow> Fill list \<Rightarrow> nat \<Rightarrow> Order list \<times> Order \<times> Fill list \<times> mem" where
  "matchLoop m [] ord fills cap = ([], ord, fills, m)"
| "matchLoop m (cur # nxt) ord fills cap =
     (if quantity ord > 0 then
        if price cur = price ord then
          let qty = tradeQty cur ord;
              cur' = cur\<lparr>quantity := quantity cur - qty\<rparr>;
              ord' = ord\<lparr>quantity := quantity ord - qty\<rparr>;
              (cap', m') = growFills m (length fills) cap;
              fills' = (if length fills < cap' then fills @ [mkFill cur ord qty] else fills);
              (nxt', res) = matchLoop m' nxt ord' fills' cap'
          in (if quantity cur' = 0 then nxt' else cur' # nxt', res)
        else
          let (nxt', res) = matchLoop m nxt ord fills cap in (cur # nxt', res)
      else (cur # nxt, ord, fills, m))"

definition addOrder :: "mem \<Rightarrow> Order list LimitOrderBook \<Rightarrow> Order \<Rightarrow> Fill list \<times> Order list LimitOrderBook \<times> mem" where
  "addOrder m book ord =
     (let (opp, ord', fills, m') = matchLoop m (get_list book (oppList ord)) ord [] 0;
          book' = set_list book (oppList ord) opp
      in (fills,
          if quantity ord' > 0 then set_list book' (ownList ord) (get_list book' (ownList ord) @ [ord'])
          else book',
          m'))"

definition detachIn :: "Order list \<Rightarrow> int \<Rightarrow> Order list" where
  "detachIn xs fd = map (\<lambda>cur. if owner_fd cur = fd then cur\<lparr>owner_fd := - 1\<rparr> else cur) xs"

definition detachClientOrders :: "Order list LimitOrderBook \<Rightarrow> int \<Rightarrow> Order list LimitOrderBook" where
  "detachClientOrders book fd =
     (let b1 = set_list book JnstBuy (detachIn (jnst_buy_orders book) fd);
          b2 = set_list b1 JnstSell (detachIn (jnst_sell_orders b1) fd);
          b3 = set_list b2 ImctBuy (detachIn (imct_buy_orders b2) fd)
      in set_list b3 ImctSell (detachIn (imct_sell_orders b3) fd))"

fun cancelIn :: "Order list \<Rightarrow> int \<Rightarrow> int \<Rightarrow> bool \<times> Order list" where
  "cancelIn [] i fd = (False, [])"
| "cancelIn (cur # nxt) i fd =
     (if oid cur = i \<and> owner_fd cur = fd then (True, nxt)
      else let (found, nxt') = cancelIn nxt i fd in (found, cur # nxt'))"

fun cancelLists :: "list_ref list \<Rightarrow> Order list LimitOrderBook \<Rightarrow> int \<Rightarrow> int \<Rightarrow> bool \<times> Order list LimitOrderBook" where
  "cancelLists [] book i fd = (False, book)"
| "cancelLists (r # rs) book i fd =
     (let (found, xs) = cancelIn (get_list book r) i fd
      in if found then (True, set_list book r xs) else cancelLists rs book i fd)"

definition cancelOrder :: "Order list LimitOrderBook \<Rightarrow> int \<Rightarrow> int \<Rightarrow> bool \<times> Order list LimitOrderBook" where
  "cancelOrder book i fd = cancelLists [JnstBuy, JnstSell, ImctBuy, ImctSell] book i fd"

section \<open>The walk without the allocator\<close>

text \<open>
  \<open>walk\<close> is the reference for \<open>matchLoop\<close>: the same walk, every execution recorded. The allocator
  has no influence on the book or on the order; it can only lose records of executions.
\<close>

fun walk :: "Order list \<Rightarrow> Order \<Rightarrow> Order list \<times> Order \<times> Fill list" where
  "walk [] ord = ([], ord, [])"
| "walk (cur # nxt) ord =
     (if quantity ord > 0 then
        if price cur = price ord then
          let qty = tradeQty cur ord;
              (nxt', ord', fs) = walk nxt (ord\<lparr>quantity := quantity ord - qty\<rparr>)
          in (if quantity cur - qty = 0 then nxt' else cur\<lparr>quantity := quantity cur - qty\<rparr> # nxt',
              ord', mkFill cur ord qty # fs)
        else let (nxt', res) = walk nxt ord in (cur # nxt', res)
      else (cur # nxt, ord, []))"

abbreviation walkOpp :: "Order list \<Rightarrow> Order \<Rightarrow> Order list" where
  "walkOpp xs ord \<equiv> fst (walk xs ord)"

abbreviation walkOrd :: "Order list \<Rightarrow> Order \<Rightarrow> Order" where
  "walkOrd xs ord \<equiv> fst (snd (walk xs ord))"

abbreviation walkFills :: "Order list \<Rightarrow> Order \<Rightarrow> Fill list" where
  "walkFills xs ord \<equiv> snd (snd (walk xs ord))"

lemma mkFill_quantity [simp]: "mkFill cur (ord\<lparr>quantity := q\<rparr>) = mkFill cur ord"
  by (simp add: mkFill_def fun_eq_iff)

lemma matchLoop_walk:
  "matchLoop m xs ord fills cap = (xs', ord', fills', m') \<Longrightarrow> xs' = walkOpp xs ord \<and> ord' = walkOrd xs ord"
proof (induction m xs ord fills cap arbitrary: xs' ord' fills' m' rule: matchLoop.induct)
  case (2 m cur nxt ord fills cap)
  then show ?case
    by (auto simp: Let_def split: if_splits prod.splits)
qed simp

lemma matchLoop_subseq:
  "matchLoop m xs ord fills cap = (xs', ord', fills', m') \<Longrightarrow> \<exists>fs. fills' = fills @ fs \<and> subseq fs (walkFills xs ord)"
proof (induction m xs ord fills cap arbitrary: xs' ord' fills' m' rule: matchLoop.induct)
  case (2 m cur nxt ord fills cap)
  then show ?case
    by (fastforce simp: Let_def split: if_splits prod.splits)
qed simp

lemma growFills_ok:
  assumes "growFills m count cap = (cap', m')" and "False \<notin> set m" and "count \<le> cap"
  shows "count < cap'" and "False \<notin> set m'"
  using assms by (cases m; auto simp: growFills_def FILLS_INITIAL_CAPACITY_def Let_def split: if_splits)+

lemma matchLoop_complete:
  "matchLoop m xs ord fills cap = (xs', ord', fills', m') \<Longrightarrow> False \<notin> set m \<Longrightarrow> length fills \<le> cap \<Longrightarrow>
   fills' = fills @ walkFills xs ord"
proof (induction xs arbitrary: m ord fills cap xs' ord' fills' m')
  case (Cons cur nxt)
  show ?case
  proof (cases "0 < quantity ord \<and> price cur = price ord")
    case True
    let ?qty = "tradeQty cur ord"
    let ?ord = "ord\<lparr>quantity := quantity ord - ?qty\<rparr>"
    obtain cap' m1 where g: "growFills m (length fills) cap = (cap', m1)"
      by fastforce
    note g' = growFills_ok [OF g Cons.prems(2,3)]
    obtain xs1 o1 f1 m2 where r: "matchLoop m1 nxt ?ord (fills @ [mkFill cur ord ?qty]) cap' = (xs1, o1, f1, m2)"
      by (metis prod_cases4)
    with g' have "f1 = (fills @ [mkFill cur ord ?qty]) @ walkFills nxt ?ord"
      by (intro Cons.IH) auto
    with Cons.prems(1) True g r g' show ?thesis
      by (auto simp: Let_def split: prod.splits if_splits)
  next
    case False
    with Cons show ?thesis by (fastforce split: prod.splits if_splits)
  qed
qed simp

section \<open>What an execution consumes: price and time priority\<close>

abbreviation total :: "Order list \<Rightarrow> int" where
  "total xs \<equiv> sum_list (map quantity xs)"

abbreviation level :: "int \<Rightarrow> Order list \<Rightarrow> Order list" where
  "level p xs \<equiv> filter (\<lambda>cur. price cur = p) xs"

text \<open>The reference for one price level: the quantity is taken from the front, in arrival order.\<close>

fun consume :: "int \<Rightarrow> Order list \<Rightarrow> Order list" where
  "consume q [] = []"
| "consume q (cur # nxt) =
     (if q \<le> 0 then cur # nxt
      else if quantity cur \<le> q then consume (q - quantity cur) nxt
      else cur\<lparr>quantity := quantity cur - q\<rparr> # nxt)"

text \<open>
  The executions at that level, written down independently of the code: one for each resting order reached,
  at that order's price, between the owner of the buying and the owner of the selling order.
\<close>

fun execution :: "OrderSide \<Rightarrow> Instrument \<Rightarrow> int \<Rightarrow> Order \<Rightarrow> int \<Rightarrow> Fill" where
  "execution BUY inst buyer resting q =
     \<lparr>fprice = price resting, fquantity = q, buy_client_fd = buyer, sell_client_fd = owner_fd resting, finstrument = inst\<rparr>"
| "execution SELL inst seller resting q =
     \<lparr>fprice = price resting, fquantity = q, buy_client_fd = owner_fd resting, sell_client_fd = seller, finstrument = inst\<rparr>"

fun levelFills :: "Order \<Rightarrow> int \<Rightarrow> Order list \<Rightarrow> Fill list" where
  "levelFills ord q [] = []"
| "levelFills ord q (cur # nxt) =
     (if q \<le> 0 then []
      else execution (side ord) (instrument ord) (owner_fd ord) cur (min q (quantity cur)) #
        levelFills ord (q - min q (quantity cur)) nxt)"

lemma mkFill_execution: "mkFill cur ord q = execution (side ord) (instrument ord) (owner_fd ord) cur q"
  by (cases "side ord") (simp_all add: mkFill_def)

lemma execution_quantity [simp]: "fquantity (execution sd inst fd cur q) = q"
  by (cases sd) simp_all

lemma consume_nonpos [simp]: "q \<le> 0 \<Longrightarrow> consume q xs = xs"
  by (cases xs) auto

lemma levelFills_nonpos [simp]: "q \<le> 0 \<Longrightarrow> levelFills ord q xs = []"
  by (cases xs) auto

lemma levelFills_upd [simp]: "levelFills (ord\<lparr>quantity := k\<rparr>) q xs = levelFills ord q xs"
  by (induction xs arbitrary: q) auto

lemma total_nonneg: "\<forall>cur \<in> set xs. 0 < quantity cur \<Longrightarrow> 0 \<le> total xs"
  by (rule sum_list_pos_nonneg) auto

lemma walk_nonpos [simp]: "quantity ord \<le> 0 \<Longrightarrow> walk xs ord = (xs, ord, [])"
  by (cases xs) auto

lemma walk_others: "filter (\<lambda>cur. price cur \<noteq> price ord) (walkOpp xs ord) = filter (\<lambda>cur. price cur \<noteq> price ord) xs"
  by (induction xs ord rule: walk.induct) (auto simp: Let_def split: prod.splits if_splits)

lemma walk_level:
  "\<forall>cur \<in> set xs. 0 < quantity cur \<Longrightarrow> level (price ord) (walkOpp xs ord) = consume (quantity ord) (level (price ord) xs)"
proof (induction xs ord rule: walk.induct)
  case (2 cur nxt ord)
  then show ?case
    by (auto simp: Let_def tradeQty_def split: prod.splits if_splits)
qed simp

lemma walk_fills:
  "\<forall>cur \<in> set xs. 0 < quantity cur \<Longrightarrow> walkFills xs ord = levelFills ord (quantity ord) (level (price ord) xs)"
proof (induction xs ord rule: walk.induct)
  case (2 cur nxt ord)
  then show ?case
    by (auto simp: Let_def mkFill_execution tradeQty_def min_def split: prod.splits if_splits)
qed simp

lemma walk_ord:
  "\<forall>cur \<in> set xs. 0 < quantity cur \<Longrightarrow> 0 \<le> quantity ord \<Longrightarrow>
   walkOrd xs ord = ord\<lparr>quantity := quantity ord - min (quantity ord) (total (level (price ord) xs))\<rparr>"
proof (induction xs ord rule: walk.induct)
  case (2 cur nxt ord)
  have "0 \<le> total (level (price ord) nxt)"
    using 2(3) by (intro total_nonneg) auto
  with 2 show ?case
    by (auto simp: Let_def tradeQty_def min_def split: prod.splits if_splits)
qed (auto simp: min_def)

lemma levelFills_total:
  "\<forall>cur \<in> set xs. 0 < quantity cur \<Longrightarrow> 0 \<le> q \<Longrightarrow> sum_list (map fquantity (levelFills ord q xs)) = min q (total xs)"
proof (induction xs arbitrary: q)
  case (Cons cur xs)
  then have "0 \<le> total xs" by (intro total_nonneg) auto
  with Cons show ?case
    by (auto simp: min_def)
qed auto

lemma consume_total:
  "\<forall>cur \<in> set xs. 0 < quantity cur \<Longrightarrow> 0 \<le> q \<Longrightarrow> total (consume q xs) = total xs - min q (total xs)"
proof (induction xs arbitrary: q)
  case (Cons cur xs)
  then have "0 \<le> total xs" by (intro total_nonneg) auto
  with Cons show ?case
    by (auto simp: min_def)
qed auto

lemma walk_mem:
  assumes "\<forall>cur \<in> set xs. 0 < quantity cur" and "x \<in> set (walkOpp xs ord)"
  shows "\<exists>y \<in> set xs. \<exists>q. x = y\<lparr>quantity := q\<rparr> \<and> 0 < q \<and> q \<le> quantity y"
  using assms
proof (induction xs ord rule: walk.induct)
  case (2 cur nxt ord)
  have keep: "x \<in> set (cur # nxt) \<Longrightarrow> ?case"
    using 2(3) by (force intro: bexI [of _ x] exI [of _ "quantity x"])
  show ?case
  proof (cases "0 < quantity ord \<and> price cur = price ord")
    case True
    then show ?thesis
      using 2(1)[OF _ _ refl] 2(3,4)
      by (fastforce simp: Let_def tradeQty_def split: prod.splits if_splits)
  next
    case False
    then show ?thesis
      using 2(2) 2(3,4) keep by (fastforce split: prod.splits if_splits)
  qed
qed simp

lemma walk_ids: "subseq (map oid (walkOpp xs ord)) (map oid xs)"
  by (induction xs ord rule: walk.induct) (auto simp: Let_def split: prod.splits)

lemma consume_exhausted:
  "\<forall>cur \<in> set xs. 0 < quantity cur \<Longrightarrow> total xs \<le> q \<Longrightarrow> consume q xs = []"
proof (induction xs arbitrary: q)
  case (Cons cur xs)
  then have "0 \<le> total xs" by (intro total_nonneg) auto
  with Cons show ?case by auto
qed simp

section \<open>The effect of the operations on each list\<close>

fun opp_ref :: "list_ref \<Rightarrow> list_ref" where
  "opp_ref JnstBuy = JnstSell"
| "opp_ref JnstSell = JnstBuy"
| "opp_ref ImctBuy = ImctSell"
| "opp_ref ImctSell = ImctBuy"

lemma opp_ref_neq [simp]: "opp_ref r \<noteq> r" "r \<noteq> opp_ref r"
  by (cases r; simp)+

lemma opp_ref_invol [simp]: "opp_ref (opp_ref r) = r"
  by (cases r) auto

lemma oppList_ownList: "oppList ord = opp_ref (ownList ord)"
  by (simp add: oppList_def ownList_def)

lemma ownList_upd [simp]:
  "ownList (ord\<lparr>quantity := q\<rparr>) = ownList ord" "ownList (ord\<lparr>owner_fd := fd\<rparr>) = ownList ord"
  by (simp_all add: ownList_def)

definition remainder :: "Order list LimitOrderBook \<Rightarrow> Order \<Rightarrow> int" where
  "remainder book ord = quantity (walkOrd (get_list book (oppList ord)) ord)"

lemma walkOrd_fields:
  "oid (walkOrd xs ord) = oid ord \<and> price (walkOrd xs ord) = price ord \<and> owner_fd (walkOrd xs ord) = owner_fd ord \<and>
   side (walkOrd xs ord) = side ord \<and> instrument (walkOrd xs ord) = instrument ord"
  by (induction xs ord rule: walk.induct) (auto simp: Let_def split: prod.splits)

lemma walkOrd_eq: "walkOrd xs ord = ord\<lparr>quantity := quantity (walkOrd xs ord)\<rparr>"
  by (rule Order.equality) (simp_all add: walkOrd_fields)

lemma addOrder_cases:
  assumes "addOrder m book ord = (fills, book', m')"
  shows addOrder_list: "get_list book' r =
      (if r = oppList ord then walkOpp (get_list book r) ord
       else if r = ownList ord \<and> 0 < remainder book ord then get_list book r @ [ord\<lparr>quantity := remainder book ord\<rparr>]
       else get_list book r)"
    and addOrder_fills_subseq: "subseq fills (walkFills (get_list book (oppList ord)) ord)"
    and addOrder_fills_complete: "False \<notin> set m \<Longrightarrow> fills = walkFills (get_list book (oppList ord)) ord"
proof -
  obtain opp ord' fs m1 where ml: "matchLoop m (get_list book (oppList ord)) ord [] 0 = (opp, ord', fs, m1)"
    by (metis prod_cases4)
  note w = matchLoop_walk [OF ml] matchLoop_subseq [OF ml] matchLoop_complete [OF ml]
  have opp: "opp = walkOpp (get_list book (oppList ord)) ord"
    and o': "ord' = ord\<lparr>quantity := remainder book ord\<rparr>"
    using w(1) walkOrd_eq unfolding remainder_def by metis+
  show "get_list book' r =
      (if r = oppList ord then walkOpp (get_list book r) ord
       else if r = ownList ord \<and> 0 < remainder book ord then get_list book r @ [ord\<lparr>quantity := remainder book ord\<rparr>]
       else get_list book r)"
    using assms ml unfolding opp o' by (auto simp: addOrder_def oppList_ownList Let_def)
  show "subseq fills (walkFills (get_list book (oppList ord)) ord)"
    using assms ml w(2) by (auto simp: addOrder_def Let_def)
  show "False \<notin> set m \<Longrightarrow> fills = walkFills (get_list book (oppList ord)) ord"
    using assms ml w(3) by (auto simp: addOrder_def Let_def)
qed

lemma matchLoop_mem: "matchLoop m xs ord fills cap = (xs', ord', fills', m') \<Longrightarrow> set m' \<subseteq> set m"
proof (induction m xs ord fills cap arbitrary: xs' ord' fills' m' rule: matchLoop.induct)
  case (2 m cur nxt ord fills cap)
  have "set m1 \<subseteq> set m" if "growFills m count cap = (cap1, m1)" for count cap1 m1
    using that by (cases m) (auto simp: growFills_def Let_def split: if_splits)
  with 2 show ?case
    by (fastforce simp: Let_def split: if_splits prod.splits)
qed simp

lemma addOrder_mem_subset: "addOrder m book ord = (fills, book', m') \<Longrightarrow> set m' \<subseteq> set m"
  using matchLoop_mem by (fastforce simp: addOrder_def Let_def split: prod.splits)

definition disown :: "int \<Rightarrow> Order \<Rightarrow> Order" where
  "disown fd cur = (if owner_fd cur = fd then cur\<lparr>owner_fd := - 1\<rparr> else cur)"

lemma detach_list: "get_list (detachClientOrders book fd) r = map (disown fd) (get_list book r)"
  by (cases r) (simp_all add: detachClientOrders_def detachIn_def disown_def Let_def fun_eq_iff)

lemma disown_simps [simp]:
  "oid (disown fd cur) = oid cur" "quantity (disown fd cur) = quantity cur" "price (disown fd cur) = price cur"
  "ownList (disown fd cur) = ownList cur" "owner_fd (disown fd cur) = (if owner_fd cur = fd then - 1 else owner_fd cur)"
  by (auto simp: disown_def)

lemma cancelIn_found: "fst (cancelIn xs i fd) \<longleftrightarrow> (\<exists>cur \<in> set xs. oid cur = i \<and> owner_fd cur = fd)"
  by (induction xs i fd rule: cancelIn.induct) (auto split: prod.splits)

lemma cancelIn_not_found: "cancelIn xs i fd = (False, ys) \<Longrightarrow> ys = xs"
  by (induction xs i fd arbitrary: ys rule: cancelIn.induct) (auto split: if_splits prod.splits)

lemma cancelIn_list:
  "distinct (map oid xs) \<Longrightarrow> snd (cancelIn xs i fd) = filter (\<lambda>cur. \<not> (oid cur = i \<and> owner_fd cur = fd)) xs"
proof (induction xs i fd rule: cancelIn.induct)
  case (2 cur nxt i fd)
  show ?case
  proof (cases "oid cur = i \<and> owner_fd cur = fd")
    case True
    with 2(2) have "i \<notin> oid ` set nxt" by auto
    then have "\<forall>x \<in> set nxt. oid x \<noteq> i" by (metis imageI)
    then have "filter (\<lambda>cur. \<not> (oid cur = i \<and> owner_fd cur = fd)) nxt = nxt"
      by (simp add: filter_id_conv)
    with True show ?thesis by simp
  next
    case False
    with 2 show ?thesis by (auto split: prod.splits)
  qed
qed simp

end
