(* ===== verification/Book_Invariant.thy ===== *)
theory Book_Invariant
  imports Orderbook
begin

text \<open>
  The invariant of the order book, its preservation by every operation, and the interface the
  rest of the server relies on: the locale \<open>exchange_book\<close>, interpreted on the operations of
  \<open>Orderbook\<close>.
\<close>

section \<open>The invariant\<close>

text \<open>
  \<open>order_ok n r cur\<close>: a resting order in list \<open>r\<close> of a book whose next free id is \<open>n\<close>. \<open>book_ok\<close> adds
  that the lists are in arrival order, that an id names one order, and that the book is uncrossed:
  no buy and sell order of an instrument rest at the same price.
\<close>

definition order_ok :: "int \<Rightarrow> list_ref \<Rightarrow> Order \<Rightarrow> bool" where
  "order_ok n r cur \<longleftrightarrow>
     0 \<le> oid cur \<and> oid cur < n \<and> 0 < quantity cur \<and> quantity cur \<le> INT_MAX \<and>
     0 < price cur \<and> price cur \<le> INT_MAX \<and> - 1 \<le> owner_fd cur \<and> ownList cur = r"

definition uncrossed :: "Order list LimitOrderBook \<Rightarrow> bool" where
  "uncrossed b \<longleftrightarrow>
     (\<forall>r. \<forall>x \<in> set (get_list b r). \<forall>y \<in> set (get_list b (opp_ref r)). price x \<noteq> price y)"

definition ids :: "Order list LimitOrderBook \<Rightarrow> list_ref \<Rightarrow> int list" where
  "ids b r = map oid (get_list b r)"

definition book_ok :: "int \<Rightarrow> Order list LimitOrderBook \<Rightarrow> bool" where
  "book_ok n b \<longleftrightarrow>
     (\<forall>r. \<forall>x \<in> set (get_list b r). order_ok n r x) \<and>
     (\<forall>r. sorted_wrt (<) (ids b r)) \<and>
     (\<forall>r r'. r \<noteq> r' \<longrightarrow> set (ids b r) \<inter> set (ids b r') = {}) \<and>
     uncrossed b"

definition resting :: "Order list LimitOrderBook \<Rightarrow> Order list" where
  "resting b = concat (map (get_list b) Enum.enum)"

lemma set_resting: "set (resting b) = (\<Union>r. set (get_list b r))"
  by (simp add: resting_def enum_UNIV)

lemma resting_iff: "x \<in> set (resting b) \<longleftrightarrow> (\<exists>r. x \<in> set (get_list b r))"
  by (simp add: set_resting)

lemma bex_resting: "(\<exists>x \<in> set (resting b). P x) \<longleftrightarrow> (\<exists>r. \<exists>x \<in> set (get_list b r). P x)"
  unfolding set_resting by blast

lemma book_okD:
  assumes "book_ok n b"
  shows "x \<in> set (get_list b r) \<Longrightarrow> order_ok n r x"
    and "sorted_wrt (<) (ids b r)"
    and "distinct (ids b r)"
    and "r \<noteq> r' \<Longrightarrow> set (ids b r) \<inter> set (ids b r') = {}"
    and "uncrossed b"
  using assms by (auto simp: book_ok_def strict_sorted_iff)

lemma book_ok_pos: "book_ok n b \<Longrightarrow> \<forall>x \<in> set (get_list b r). 0 < quantity x"
  using book_okD(1) by (auto simp: order_ok_def)

lemma book_ok_ids: "book_ok n b \<Longrightarrow> i \<in> set (ids b r) \<Longrightarrow> 0 \<le> i \<and> i < n"
  using book_okD(1) by (fastforce simp: ids_def order_ok_def)

lemma book_ok_mono: "book_ok n b \<Longrightarrow> n \<le> n' \<Longrightarrow> book_ok n' b"
  by (force simp: book_ok_def order_ok_def)

lemma book_ok_unique:
  assumes "book_ok n b" and "x \<in> set (resting b)" and "y \<in> set (resting b)" and "oid x = oid y"
  shows "x = y"
proof -
  obtain r r' where x: "x \<in> set (get_list b r)" and y: "y \<in> set (get_list b r')"
    using assms(2,3) by (auto simp: resting_iff)
  have "r = r'"
    using book_okD(4) [OF assms(1), of r r'] x y assms(4) by (force simp: ids_def)
  then show ?thesis
    using book_okD(3) [OF assms(1), of r] x y assms(4) by (auto simp: ids_def distinct_map inj_on_def)
qed

text \<open>A book that keeps only reduced versions of resting orders, in their order, stays well-formed.\<close>

lemma book_ok_shrink:
  assumes ok: "book_ok n b"
    and sub: "\<And>r. subseq (ids b' r) (ids b r)"
    and mem: "\<And>r x. x \<in> set (get_list b' r) \<Longrightarrow> \<exists>y \<in> set (get_list b r). price x = price y \<and> order_ok n r x"
  shows "book_ok n b'"
  unfolding book_ok_def
proof (intro conjI allI ballI impI)
  show "order_ok n r x" if "x \<in> set (get_list b' r)" for r x
    using mem that by blast
  show "sorted_wrt (<) (ids b' r)" for r
    using sub book_okD(2) [OF ok] by (rule sorted_wrt_subseq)
  show "set (ids b' r) \<inter> set (ids b' r') = {}" if "r \<noteq> r'" for r r'
    using sub [THEN subseq_set_mono, of r] sub [THEN subseq_set_mono, of r'] book_okD(4) [OF ok that] by blast
  show "uncrossed b'"
    using mem book_okD(5) [OF ok] unfolding uncrossed_def by metis
qed

section \<open>Preservation\<close>

lemma initOrderbook_ok: "book_ok 0 initOrderbook"
proof -
  have "get_list initOrderbook r = ([] :: Order list)" for r
    by (cases r) (simp_all add: initOrderbook_def)
  then show ?thesis
    by (simp add: book_ok_def uncrossed_def ids_def)
qed

lemma detach_ok:
  assumes "book_ok n b"
  shows "book_ok n (detachClientOrders b fd)"
proof (rule book_ok_shrink [OF assms])
  show "subseq (ids (detachClientOrders b fd) r) (ids b r)" for r
    by (simp add: ids_def detach_list comp_def)
next
  fix r x
  assume "x \<in> set (get_list (detachClientOrders b fd) r)"
  then obtain y where y: "y \<in> set (get_list b r)" "x = disown fd y"
    by (auto simp: detach_list)
  then show "\<exists>y \<in> set (get_list b r). price x = price y \<and> order_ok n r x"
    using book_okD(1) [OF assms y(1)] by (intro bexI [OF _ y(1)]) (auto simp: order_ok_def)
qed

text \<open>\<open>cancelOrder\<close> tries the four lists in turn; ids are unique, so it removes what it found and nothing else.\<close>

abbreviation matches :: "int \<Rightarrow> int \<Rightarrow> Order \<Rightarrow> bool" where
  "matches i fd x \<equiv> oid x = i \<and> owner_fd x = fd"

lemma cancelLists_list:
  assumes ok: "book_ok n b" and "cancelLists rs b i fd = (found, b')"
  shows "(found \<longleftrightarrow> (\<exists>r \<in> set rs. \<exists>x \<in> set (get_list b r). matches i fd x)) \<and>
         (\<forall>r. get_list b' r = (if r \<in> set rs then filter (\<lambda>x. \<not> matches i fd x) (get_list b r) else get_list b r))"
  using assms(2)
proof (induction rs)
  case (Cons r0 rs)
  obtain f0 xs where c: "cancelIn (get_list b r0) i fd = (f0, xs)"
    by fastforce
  then have f0: "f0 \<longleftrightarrow> (\<exists>x \<in> set (get_list b r0). matches i fd x)"
    using cancelIn_found [of "get_list b r0" i fd] by simp
  have xs: "xs = filter (\<lambda>x. \<not> matches i fd x) (get_list b r0)"
    using cancelIn_list [of "get_list b r0" i fd] c book_okD(3) [OF ok, of r0] by (simp add: ids_def)
  show ?case
  proof (cases f0)
    case True
    then obtain x where x: "x \<in> set (get_list b r0)" "matches i fd x"
      using f0 by blast
    have "filter (\<lambda>x. \<not> matches i fd x) (get_list b r) = get_list b r" if "r \<noteq> r0" for r
      using book_okD(4) [OF ok that] x by (auto simp: filter_id_conv ids_def)
    with True x c Cons.prems xs show ?thesis by auto
  next
    case False
    then have "filter (\<lambda>x. \<not> matches i fd x) (get_list b r0) = get_list b r0"
      using f0 by (auto simp: filter_id_conv)
    moreover have "cancelLists rs b i fd = (found, b')"
      using Cons.prems c False by simp
    then have IH: "found = (\<exists>r \<in> set rs. \<exists>x \<in> set (get_list b r). matches i fd x)"
      "\<And>r. get_list b' r = (if r \<in> set rs then filter (\<lambda>x. \<not> matches i fd x) (get_list b r) else get_list b r)"
      using Cons.IH by simp_all
    ultimately show ?thesis
      using False f0 unfolding IH by auto
  qed
qed auto

lemma all_refs: "set [JnstBuy, JnstSell, ImctBuy, ImctSell] = UNIV"
  by (auto intro: list_ref.exhaust)

lemma cancelOrder_list:
  assumes "book_ok n b" and "cancelOrder b i fd = (found, b')"
  shows "found \<longleftrightarrow> (\<exists>x \<in> set (resting b). matches i fd x)"
    and "get_list b' r = filter (\<lambda>x. \<not> matches i fd x) (get_list b r)"
  using cancelLists_list [OF assms(1) assms(2) [unfolded cancelOrder_def]]
  unfolding all_refs bex_resting by simp_all

lemma cancel_ok:
  assumes "book_ok n b"
  shows "book_ok n (snd (cancelOrder b i fd))"
proof -
  have l: "get_list (snd (cancelOrder b i fd)) r = filter (\<lambda>x. \<not> matches i fd x) (get_list b r)" for r
    using cancelOrder_list(2) [OF assms] by (metis prod.collapse)
  show ?thesis
    by (rule book_ok_shrink [OF assms])
       (auto simp: ids_def l subseq_map dest: book_okD(1) [OF assms])
qed

text \<open>An incoming order as \<open>placeOrder\<close> builds it: its id is fresh, its numbers are positive.\<close>

definition new_order_ok :: "int \<Rightarrow> Order \<Rightarrow> bool" where
  "new_order_ok n ord \<longleftrightarrow>
     0 \<le> n \<and> oid ord = n \<and> 0 < quantity ord \<and> quantity ord \<le> INT_MAX \<and>
     0 < price ord \<and> price ord \<le> INT_MAX \<and> - 1 \<le> owner_fd ord"

lemma remainder_eq:
  assumes "book_ok n b" and "0 < quantity ord"
  shows "remainder b ord = quantity ord - min (quantity ord) (total (level (price ord) (get_list b (oppList ord))))"
  using walk_ord [OF book_ok_pos [OF assms(1)], of ord] assms(2) by (simp add: remainder_def)

lemma level_empty:
  assumes "book_ok n b" and "0 < quantity ord" and "0 < remainder b ord"
  shows "level (price ord) (walkOpp (get_list b (oppList ord)) ord) = []"
proof -
  have pos: "\<forall>x \<in> set (get_list b (oppList ord)). 0 < quantity x"
    by (rule book_ok_pos [OF assms(1)])
  have "total (level (price ord) (get_list b (oppList ord))) \<le> quantity ord"
    using assms(3) by (simp add: remainder_eq [OF assms(1,2)] min_def split: if_splits)
  with pos show ?thesis
    by (simp add: walk_level consume_exhausted)
qed

lemma addOrder_ids:
  assumes "book_ok n b" and "addOrder m b ord = (fs, b', m')"
  shows "subseq (ids b' r) (ids b r @ (if r = ownList ord then [oid ord] else []))"
  using walk_ids [of "get_list b r" ord]
  by (auto simp: ids_def addOrder_list [OF assms(2)] intro: subseq_order.trans)

lemma addOrder_mem:
  assumes ok: "book_ok n b" and new: "new_order_ok n ord" and add: "addOrder m b ord = (fs, b', m')"
    and x: "x \<in> set (get_list b' r)"
  shows "(\<exists>y \<in> set (get_list b r). \<exists>q. x = y\<lparr>quantity := q\<rparr> \<and> 0 < q \<and> q \<le> quantity y) \<or>
         (r = ownList ord \<and> 0 < remainder b ord \<and> x = ord\<lparr>quantity := remainder b ord\<rparr>)"
proof -
  have keep: "x \<in> set (get_list b r) \<Longrightarrow> ?thesis"
    using book_ok_pos [OF ok] by (force intro: bexI [of _ x] exI [of _ "quantity x"])
  show ?thesis
    using x keep walk_mem [OF book_ok_pos [OF ok], of x r ord]
    by (auto simp: addOrder_list [OF add] split: if_splits)
qed

lemma remainder_le:
  assumes "book_ok n b" and "0 < quantity ord"
  shows "remainder b ord \<le> quantity ord"
proof -
  have "0 \<le> total (level (price ord) (get_list b (oppList ord)))"
    using book_ok_pos [OF assms(1)] by (intro total_nonneg) auto
  then show ?thesis
    using assms by (simp add: remainder_eq min_def)
qed

lemma add_ok:
  assumes ok: "book_ok n b" and new: "new_order_ok n ord" and add: "addOrder m b ord = (fs, b', m')"
  shows "book_ok (n + 1) b'"
proof -
  have q: "0 < quantity ord" and oid: "oid ord = n"
    using new by (auto simp: new_order_ok_def)
  have fresh: "n \<notin> set (ids b r)" for r
    using book_ok_ids [OF ok] by fastforce
  have sub: "set (ids b' r) \<subseteq> set (ids b r) \<union> (if r = ownList ord then {n} else {})" for r
    using subseq_set_mono [OF addOrder_ids [OF ok add, of r]] oid by (auto split: if_splits)
  note mem = addOrder_mem [OF ok new add]
  show ?thesis
    unfolding book_ok_def
  proof (intro conjI allI ballI impI)
    show "order_ok (n + 1) r x" if "x \<in> set (get_list b' r)" for r x
      using mem [OF that] book_okD(1) [OF ok, of _ r] new remainder_le [OF ok q]
      by (fastforce simp: order_ok_def new_order_ok_def)
    have "sorted_wrt (<) (ids b r @ (if r = ownList ord then [oid ord] else []))" for r
      using book_okD(2) [OF ok, of r] book_ok_ids [OF ok] oid by (auto simp: sorted_wrt_append)
    then show "sorted_wrt (<) (ids b' r)" for r
      using addOrder_ids [OF ok add] sorted_wrt_subseq by blast
    show "set (ids b' r) \<inter> set (ids b' r') = {}" if "r \<noteq> r'" for r r'
      using sub [of r] sub [of r'] fresh [of r] fresh [of r'] book_okD(4) [OF ok that] that
      by (auto split: if_splits)
    have new_cross: "price x \<noteq> price ord" if "x \<in> set (get_list b' (oppList ord))" "0 < remainder b ord" for x
    proof -
      have "level (price ord) (get_list b' (oppList ord)) = []"
        using level_empty [OF ok q that(2)] by (simp add: addOrder_list [OF add])
      with that(1) show ?thesis by (auto simp: filter_empty_conv)
    qed
    show "uncrossed b'"
      unfolding uncrossed_def
    proof (intro allI ballI)
      fix r x y
      assume x: "x \<in> set (get_list b' r)" and y: "y \<in> set (get_list b' (opp_ref r))"
      show "price x \<noteq> price y"
      proof (cases "0 < remainder b ord \<and> (r = ownList ord \<and> price x = price ord \<or> opp_ref r = ownList ord \<and> price y = price ord)")
        case True
        then show ?thesis
          using new_cross [of x] new_cross [of y] x y
          by (metis oppList_ownList opp_ref_invol)
      next
        case False
        have "\<exists>x' \<in> set (get_list b r). price x = price x'"
          using mem [OF x] False by fastforce
        moreover have "\<exists>y' \<in> set (get_list b (opp_ref r)). price y = price y'"
          using mem [OF y] False by fastforce
        ultimately show ?thesis
          using book_okD(5) [OF ok] by (auto simp: uncrossed_def)
      qed
    qed
  qed
qed

section \<open>The interface of the book\<close>

text \<open>
  What the server relies on when it calls the book: \<open>ok n b\<close> is the invariant of a book whose next
  free id is \<open>n\<close>, \<open>orders b\<close> its resting orders. The client's facts about ownership are proved
  once from these laws.
\<close>

locale exchange_book =
  fixes ok :: "int \<Rightarrow> 'b \<Rightarrow> bool"
    and orders :: "'b \<Rightarrow> Order list"
    and add :: "mem \<Rightarrow> 'b \<Rightarrow> Order \<Rightarrow> Fill list \<times> 'b \<times> mem"
    and cancel :: "'b \<Rightarrow> int \<Rightarrow> int \<Rightarrow> bool \<times> 'b"
    and detach :: "'b \<Rightarrow> int \<Rightarrow> 'b"
  assumes add_keeps: "ok n b \<Longrightarrow> new_order_ok n ord \<Longrightarrow> add m b ord = (fs, b', m') \<Longrightarrow> ok (n + 1) b'"
    and cancel_keeps: "ok n b \<Longrightarrow> ok n (snd (cancel b i fd))"
    and detach_keeps: "ok n b \<Longrightarrow> ok n (detach b fd)"
    and unique: "ok n b \<Longrightarrow> x \<in> set (orders b) \<Longrightarrow> y \<in> set (orders b) \<Longrightarrow> oid x = oid y \<Longrightarrow> x = y"
    and add_orders: "ok n b \<Longrightarrow> new_order_ok n ord \<Longrightarrow> add m b ord = (fs, b', m') \<Longrightarrow> x \<in> set (orders b') \<Longrightarrow>
          \<exists>y \<in> insert ord (set (orders b)). oid x = oid y \<and> owner_fd x = owner_fd y"
    and add_parties: "ok n b \<Longrightarrow> new_order_ok n ord \<Longrightarrow> add m b ord = (fs, b', m') \<Longrightarrow> f \<in> set fs \<Longrightarrow>
          {buy_client_fd f, sell_client_fd f} \<subseteq> insert (owner_fd ord) (owner_fd ` set (orders b))"
    and cancel_found: "ok n b \<Longrightarrow> fst (cancel b i fd) \<longleftrightarrow> (\<exists>x \<in> set (orders b). matches i fd x)"
    and cancel_orders: "ok n b \<Longrightarrow> set (orders (snd (cancel b i fd))) = {x \<in> set (orders b). \<not> matches i fd x}"
    and detach_orders: "set (orders (detach b fd)) = disown fd ` set (orders b)"
begin

definition owners :: "'b \<Rightarrow> int set" where
  "owners b = owner_fd ` set (orders b)"

lemma owners_add:
  "ok n b \<Longrightarrow> new_order_ok n ord \<Longrightarrow> add m b ord = (fs, b', m') \<Longrightarrow> owners b' \<subseteq> insert (owner_fd ord) (owners b)"
  unfolding owners_def using add_orders by fastforce

lemma owners_cancel: "ok n b \<Longrightarrow> owners (snd (cancel b i fd)) \<subseteq> owners b"
  unfolding owners_def using cancel_orders by fastforce

lemma owners_detach: "owners (detach b fd) = (if fd \<in> owners b then insert (- 1) (owners b - {fd}) else owners b)"
  by (auto simp: owners_def detach_orders image_image image_iff)

lemma detached_owns_nothing: "fd \<noteq> - 1 \<Longrightarrow> fd \<notin> owners (detach b fd)"
  by (auto simp: owners_detach)

lemma detached_cannot_cancel: "ok n b \<Longrightarrow> fd \<noteq> - 1 \<Longrightarrow> \<not> fst (cancel (detach b fd) i fd)"
  using detached_owns_nothing [of fd b] by (auto simp: cancel_found [OF detach_keeps] owners_def)

lemma only_the_owner_cancels: "ok n b \<Longrightarrow> fst (cancel b i fd) \<Longrightarrow> fst (cancel b i fd') \<Longrightarrow> fd = fd'"
  using unique by (fastforce simp: cancel_found)

lemma cancel_twice:
  assumes ok: "ok n b" and c: "fst (cancel b i fd)"
  shows "\<not> fst (cancel (snd (cancel b i fd)) i fd')"
  using c unique [OF ok] by (auto simp: cancel_found [OF cancel_keeps [OF ok]] cancel_found [OF ok] cancel_orders [OF ok])

end

lemma set_resting_cong: "(\<And>r. set (get_list b' r) = f ` set (get_list b r)) \<Longrightarrow> set (resting b') = f ` set (resting b)"
  by (auto simp: set_resting)

lemma walkFills_parties:
  "f \<in> set (walkFills xs ord) \<Longrightarrow> {buy_client_fd f, sell_client_fd f} \<subseteq> insert (owner_fd ord) (owner_fd ` set xs)"
  by (induction xs ord rule: walk.induct) (auto simp: Let_def mkFill_def split: prod.splits if_splits)

interpretation lists: exchange_book book_ok resting addOrder cancelOrder detachClientOrders
proof unfold_locales
  fix n b ord m fs b' m' x
  assume a: "book_ok n b" "new_order_ok n ord" "addOrder m b ord = (fs, b', m')"
  show "book_ok (n + 1) b'"
    using a by (rule add_ok)
  show "\<exists>y \<in> insert ord (set (resting b)). oid x = oid y \<and> owner_fd x = owner_fd y" if "x \<in> set (resting b')"
    using that addOrder_mem [OF a] by (fastforce simp: resting_iff)
  show "{buy_client_fd f, sell_client_fd f} \<subseteq> insert (owner_fd ord) (owner_fd ` set (resting b))" if "f \<in> set fs" for f
    using that walkFills_parties [of f "get_list b (oppList ord)" ord] subseq_set_mono [OF addOrder_fills_subseq [OF a(3)]]
    by (fastforce simp: set_resting)
next
  fix n b i fd assume ok: "book_ok n b"
  show "book_ok n (snd (cancelOrder b i fd))"
    using ok by (rule cancel_ok)
  show "book_ok n (detachClientOrders b fd)"
    using ok by (rule detach_ok)
  note c = cancelOrder_list [OF ok surjective_pairing, of i fd]
  show "fst (cancelOrder b i fd) \<longleftrightarrow> (\<exists>x \<in> set (resting b). matches i fd x)"
    by (rule c)
  show "set (resting (snd (cancelOrder b i fd))) = {x \<in> set (resting b). \<not> matches i fd x}"
    by (auto simp: set_resting c(2))
next
  show "x = y" if "book_ok n b" "x \<in> set (resting b)" "y \<in> set (resting b)" "oid x = oid y" for n b x y
    using that by (rule book_ok_unique)
  show "set (resting (detachClientOrders b fd)) = disown fd ` set (resting b)" for b fd
    by (rule set_resting_cong) (simp add: detach_list)
qed

section \<open>Price and time priority\<close>

lemma consume_shape:
  "consume q xs = xs \<or> consume q xs = [] \<or>
   (\<exists>ys x zs q'. xs = ys @ x # zs \<and> consume q xs = x\<lparr>quantity := q'\<rparr> # zs)"
proof (induction xs arbitrary: q)
  case (Cons cur xs)
  show ?case
  proof (cases "0 < q \<and> quantity cur \<le> q")
    case True
    note IH = Cons.IH [of "q - quantity cur"]
    consider "consume (q - quantity cur) xs = xs" | "consume (q - quantity cur) xs = []"
      | ys x zs q' where "xs = ys @ x # zs" "consume (q - quantity cur) xs = x\<lparr>quantity := q'\<rparr> # zs"
      using IH by blast
    then show ?thesis
    proof cases
      case 1
      then show ?thesis
      proof (cases xs)
        case (Cons x zs)
        have "cur # xs = [cur] @ x # zs" "x\<lparr>quantity := quantity x\<rparr> = x"
          using Cons by simp_all
        with True 1 Cons show ?thesis
          by (metis consume.simps(2) not_le)
      qed (use True in simp)
    next
      case 2
      with True show ?thesis by simp
    next
      case 3
      then have "cur # xs = (cur # ys) @ x # zs" by simp
      with True 3 show ?thesis
        by (metis consume.simps(2) not_le)
    qed
  next
    case False
    then show ?thesis
      by (cases "q \<le> 0") (auto intro: exI [of _ "[]"])
  qed
qed simp

lemma consume_fifo:
  assumes "sorted_wrt (<) (map oid xs)" and "x \<in> set xs" and "y \<in> set xs" and "oid x < oid y"
    and "oid x \<in> oid ` set (consume q xs)"
  shows "y \<in> set (consume q xs)"
proof -
  consider "consume q xs = xs" | "consume q xs = []"
    | ys z zs q' where "xs = ys @ z # zs" "consume q xs = z\<lparr>quantity := q'\<rparr> # zs"
    using consume_shape by blast
  then show ?thesis
  proof cases
    case 3
    have "oid z \<le> oid x"
      using assms(1,5) 3 by (auto simp: sorted_wrt_append)
    then have "oid z < oid y"
      using assms(4) by simp
    with assms(1,3) 3 show ?thesis
      by (auto simp: sorted_wrt_append dest: less_asym)
  qed (use assms in auto)
qed

lemma cancel_filter:
  assumes "book_ok n b" and "cancelOrder b i fd = (found, b')"
  shows "get_list b' r = filter (\<lambda>x. \<not> (found \<and> oid x = i)) (get_list b r)"
proof -
  note c = cancelOrder_list [OF assms]
  have same: "matches i fd x \<longleftrightarrow> found \<and> oid x = i" if "x \<in> set (resting b)" for x
    using that c(1) book_ok_unique [OF assms(1)] by blast
  show ?thesis
    unfolding c(2)
  proof (rule filter_cong)
    fix x assume "x \<in> set (get_list b r)"
    then have "x \<in> set (resting b)"
      unfolding resting_iff by blast
    then show "\<not> matches i fd x \<longleftrightarrow> \<not> (found \<and> oid x = i)"
      by (simp add: same)
  qed simp
qed

lemma cancel_stranger:
  assumes "book_ok n b" and "fd \<notin> owner_fd ` set (resting b)"
  shows "cancelOrder b i fd = (False, b)"
proof -
  obtain found b' where co: "cancelOrder b i fd = (found, b')" by fastforce
  have "\<not> found"
    using cancelOrder_list(1) [OF assms(1) co] assms(2) by auto
  moreover from this have "b' = b"
    by (intro book_eqI) (simp add: cancel_filter [OF assms(1) co])
  ultimately show ?thesis
    using co by simp
qed

section \<open>A concrete book\<close>

text \<open>Two sell orders of JNST rest at 100, one at 101, and a buy order of IMCT at 50.\<close>

definition sample_book :: "Order list LimitOrderBook" where
  "sample_book =
     \<lparr>jnst_buy_orders = [],
      jnst_sell_orders =
        [\<lparr>oid = 0, quantity = 3, price = 100, owner_fd = 5, side = SELL, instrument = JNST\<rparr>,
         \<lparr>oid = 1, quantity = 4, price = 101, owner_fd = 6, side = SELL, instrument = JNST\<rparr>,
         \<lparr>oid = 2, quantity = 4, price = 100, owner_fd = 6, side = SELL, instrument = JNST\<rparr>],
      imct_buy_orders = [\<lparr>oid = 3, quantity = 1, price = 50, owner_fd = 5, side = BUY, instrument = IMCT\<rparr>],
      imct_sell_orders = []\<rparr>"

definition sample_order :: Order where
  "sample_order = \<lparr>oid = 4, quantity = 5, price = 100, owner_fd = 7, side = BUY, instrument = JNST\<rparr>"

lemma sample_ok: "book_ok 4 sample_book" "new_order_ok 4 sample_order"
  by code_simp+

lemma sample_add:
  "addOrder [] sample_book sample_order =
     ([\<lparr>fprice = 100, fquantity = 3, buy_client_fd = 7, sell_client_fd = 5, finstrument = JNST\<rparr>,
       \<lparr>fprice = 100, fquantity = 2, buy_client_fd = 7, sell_client_fd = 6, finstrument = JNST\<rparr>],
      sample_book\<lparr>jnst_sell_orders :=
        [\<lparr>oid = 1, quantity = 4, price = 101, owner_fd = 6, side = SELL, instrument = JNST\<rparr>,
         \<lparr>oid = 2, quantity = 2, price = 100, owner_fd = 6, side = SELL, instrument = JNST\<rparr>]\<rparr>,
      [])"
  by code_simp

section \<open>Properties of the order book\<close>

text \<open>
  C1. An incoming order executes against the resting orders of the opposite side at exactly its own
  price, from the oldest on; what is left of it is appended to its own list; every other order is
  untouched.
\<close>

theorem addOrder_spec:
  assumes "book_ok n b" and "new_order_ok n ord" and "addOrder m b ord = (fills, b', m')"
  defines "opp \<equiv> oppList ord" and "own \<equiv> ownList ord"
    and "rest \<equiv> quantity ord - min (quantity ord) (total (level (price ord) (get_list b (oppList ord))))"
  shows "level (price ord) (get_list b' opp) = consume (quantity ord) (level (price ord) (get_list b opp)) \<and>
    filter (\<lambda>x. price x \<noteq> price ord) (get_list b' opp) = filter (\<lambda>x. price x \<noteq> price ord) (get_list b opp) \<and>
    get_list b' own = get_list b own @ (if rest > 0 then [ord\<lparr>quantity := rest\<rparr>] else []) \<and>
    (\<forall>r. r \<noteq> opp \<and> r \<noteq> own \<longrightarrow> get_list b' r = get_list b r)"
proof -
  have q: "0 < quantity ord"
    using assms(2) by (simp add: new_order_ok_def)
  have rest: "remainder b ord = rest"
    using remainder_eq [OF assms(1) q] by (simp add: rest_def)
  note l = addOrder_list [OF assms(3)]
  have "level (price ord) (get_list b' opp) = consume (quantity ord) (level (price ord) (get_list b opp))"
    using walk_level [OF book_ok_pos [OF assms(1)]] by (simp add: l opp_def)
  moreover have "filter (\<lambda>x. price x \<noteq> price ord) (get_list b' opp) = filter (\<lambda>x. price x \<noteq> price ord) (get_list b opp)"
    by (simp add: l opp_def walk_others)
  moreover have "get_list b' own = get_list b own @ (if rest > 0 then [ord\<lparr>quantity := rest\<rparr>] else [])"
    by (simp add: l own_def rest oppList_ownList)
  moreover have "\<forall>r. r \<noteq> opp \<and> r \<noteq> own \<longrightarrow> get_list b' r = get_list b r"
    by (simp add: l own_def opp_def)
  ultimately show ?thesis by blast
qed

theorem addOrder_spec_witness:
  "level 100 (get_list (fst (snd (addOrder [] sample_book sample_order))) JnstSell) =
     consume 5 (level 100 (get_list sample_book JnstSell))"
  using addOrder_spec [OF sample_ok sample_add] by (simp add: sample_add) (simp add: sample_order_def oppList_def)

text \<open>
  C2. If an order is still (partly) resting after an incoming order, every younger order of its list
  at its price is untouched.
\<close>

theorem time_priority:
  assumes "book_ok n b" and "new_order_ok n ord" and "addOrder m b ord = (fills, b', m')"
    and "x \<in> set (get_list b (oppList ord))" and "y \<in> set (get_list b (oppList ord))"
    and "price x = price y" and "oid x < oid y" and "oid x \<in> set (ids b' (oppList ord))"
  shows "y \<in> set (get_list b' (oppList ord))"
proof (cases "price y = price ord")
  case False
  have "filter (\<lambda>x. price x \<noteq> price ord) (get_list b' (oppList ord)) =
        filter (\<lambda>x. price x \<noteq> price ord) (get_list b (oppList ord))"
    by (simp add: addOrder_list [OF assms(3)] walk_others)
  then have "y \<in> set (filter (\<lambda>x. price x \<noteq> price ord) (get_list b' (oppList ord)))"
    using assms(5) False by simp
  then show ?thesis
    by simp
next
  case True
  let ?opp = "get_list b (oppList ord)" and ?opp' = "get_list b' (oppList ord)"
  have lv: "level (price ord) ?opp' = consume (quantity ord) (level (price ord) ?opp)"
    using walk_level [OF book_ok_pos [OF assms(1)]] by (simp add: addOrder_list [OF assms(3)])
  obtain x' where x': "x' \<in> set ?opp'" "oid x' = oid x"
    using assms(8) by (auto simp: ids_def)
  then obtain x0 where "x0 \<in> set ?opp" "oid x' = oid x0" "price x' = price x0"
    using addOrder_mem [OF assms(1-3) x'(1)] by (auto simp: oppList_ownList)
  then have "price x' = price ord"
    using book_ok_unique [OF assms(1), of x0 x] assms(4,6) True x' by (auto simp: resting_iff)
  then have "oid x \<in> oid ` set (consume (quantity ord) (level (price ord) ?opp))"
    using x' by (auto simp flip: lv intro: image_eqI [of _ _ x'])
  moreover have "sorted_wrt (<) (map oid (level (price ord) ?opp))"
    using book_okD(2) [OF assms(1), of "oppList ord"] by (simp add: ids_def sorted_wrt_map sorted_wrt_filter)
  ultimately have "y \<in> set (consume (quantity ord) (level (price ord) ?opp))"
    using assms(4-7) True by (intro consume_fifo [of _ x]) auto
  then show ?thesis
    by (simp flip: lv)
qed

theorem time_priority_witness:
  "\<lparr>oid = 2, quantity = 4, price = 100, owner_fd = 6, side = SELL, instrument = JNST\<rparr>
     \<in> set (get_list (fst (snd (addOrder [] sample_book (sample_order\<lparr>quantity := 2\<rparr>)))) JnstSell)"
proof -
  let ?ord = "sample_order\<lparr>quantity := 2\<rparr>"
  let ?x = "\<lparr>oid = 0, quantity = 3, price = 100, owner_fd = 5, side = SELL, instrument = JNST\<rparr>"
  let ?y = "\<lparr>oid = 2, quantity = 4, price = 100, owner_fd = 6, side = SELL, instrument = JNST\<rparr>"
  obtain fills b' m' where a: "addOrder [] sample_book ?ord = (fills, b', m')" by (metis prod_cases3)
  have "new_order_ok 4 ?ord" "oppList ?ord = JnstSell" "?x \<in> set (get_list sample_book JnstSell)"
    "?y \<in> set (get_list sample_book JnstSell)"
    by code_simp+
  moreover have "0 \<in> set (ids (fst (snd (addOrder [] sample_book ?ord))) JnstSell)"
    by code_simp
  ultimately show ?thesis
    using time_priority [OF sample_ok(1) _ a, of ?x ?y] a by simp
qed

text \<open>
  C3. The reported fills are the executions in order, each at the resting order's price and between
  the owners of the buying and the selling order; all of them are reported unless the allocator
  fails. The executed quantity is what the opposite side lost, and with the remainder it is the
  quantity of the order.
\<close>

theorem addOrder_fills:
  assumes "book_ok n b" and "new_order_ok n ord" and "addOrder m b ord = (fills, b', m')"
  defines "executions \<equiv> levelFills ord (quantity ord) (level (price ord) (get_list b (oppList ord)))"
  shows "subseq fills executions \<and> (False \<notin> set m \<longrightarrow> fills = executions) \<and>
    sum_list (map fquantity executions) =
      total (get_list b (oppList ord)) - total (get_list b' (oppList ord)) \<and>
    sum_list (map fquantity executions) + remainder b ord = quantity ord"
proof -
  let ?opp = "get_list b (oppList ord)" and ?opp' = "get_list b' (oppList ord)"
  let ?P = "\<lambda>x. price x = price ord"
  have pos: "\<forall>x \<in> set ?opp. 0 < quantity x"
    by (rule book_ok_pos [OF assms(1)])
  have q: "0 < quantity ord"
    using assms(2) by (simp add: new_order_ok_def)
  have ex: "walkFills ?opp ord = executions"
    unfolding executions_def using pos by (rule walk_fills)
  have sum: "sum_list (map fquantity executions) = min (quantity ord) (total (level (price ord) ?opp))"
    unfolding executions_def using pos q by (intro levelFills_total) auto
  have "total ?opp - total ?opp' = total (level (price ord) ?opp) - total (level (price ord) ?opp')"
    using sum_list_filter_split [of quantity ?opp ?P] sum_list_filter_split [of quantity ?opp' ?P]
    by (simp add: addOrder_list [OF assms(3)] walk_others)
  also have "\<dots> = min (quantity ord) (total (level (price ord) ?opp))"
    using pos q walk_level [OF pos, of ord] by (simp add: addOrder_list [OF assms(3)] consume_total)
  finally show ?thesis
    using addOrder_fills_subseq [OF assms(3)] addOrder_fills_complete [OF assms(3)] sum
      remainder_eq [OF assms(1) q]
    by (simp add: ex)
qed

theorem addOrder_fills_witness:
  "levelFills sample_order 5 (level 100 (get_list sample_book JnstSell)) =
     [\<lparr>fprice = 100, fquantity = 3, buy_client_fd = 7, sell_client_fd = 5, finstrument = JNST\<rparr>,
      \<lparr>fprice = 100, fquantity = 2, buy_client_fd = 7, sell_client_fd = 6, finstrument = JNST\<rparr>] \<and>
   sum_list (map fquantity (levelFills sample_order 5 (level 100 (get_list sample_book JnstSell)))) + remainder sample_book sample_order = 5"
  using addOrder_fills [OF sample_ok sample_add] by (simp add: sample_order_def oppList_def)

text \<open>
  C4. Every operation keeps the book well-formed: positive quantities and prices, unique ids in
  arrival order, uncrossed.
\<close>

theorem book_ok_preserved:
  assumes "book_ok n b"
  shows "(new_order_ok n ord \<longrightarrow> book_ok (n + 1) (fst (snd (addOrder m b ord)))) \<and>
    book_ok n (snd (cancelOrder b i fd)) \<and> book_ok n (detachClientOrders b fd)"
  using lists.add_keeps [OF assms] lists.cancel_keeps [OF assms] lists.detach_keeps [OF assms]
  by (metis prod.collapse)

theorem book_ok_preserved_witness:
  "book_ok 5 (fst (snd (addOrder [] sample_book sample_order))) \<and> book_ok 4 (snd (cancelOrder sample_book 2 6))"
  using book_ok_preserved [OF sample_ok(1), of sample_order "[]" 2 6] sample_ok(2) by simp

text \<open>
  C5. A cancel succeeds exactly when the order rests and belongs to the client; it then removes that
  order and nothing else.
\<close>

theorem cancelOrder_correct:
  assumes "book_ok n b" and "cancelOrder b i fd = (found, b')"
  shows "(found \<longleftrightarrow> (\<exists>x \<in> set (resting b). oid x = i \<and> owner_fd x = fd)) \<and>
    (found \<longrightarrow> i \<notin> oid ` set (resting b')) \<and> (\<not> found \<longrightarrow> b' = b) \<and>
    (\<forall>r. get_list b' r = filter (\<lambda>x. \<not> (found \<and> oid x = i)) (get_list b r))"
proof -
  note l = cancel_filter [OF assms]
  have "b' = b" if "\<not> found"
    using l that by (intro book_eqI) simp
  moreover have "i \<notin> oid ` set (resting b')" if "found"
    using l that by (auto simp: resting_iff)
  ultimately show ?thesis
    using cancelOrder_list(1) [OF assms] l by blast
qed

theorem cancelOrder_correct_witness: "2 \<notin> oid ` set (resting (snd (cancelOrder sample_book 2 6)))"
proof -
  have "fst (cancelOrder sample_book 2 6)"
    by code_simp
  then show ?thesis
    using cancelOrder_correct [OF sample_ok(1) surjective_pairing, of 2 6] by simp
qed

text \<open>
  C6. After a detach the descriptor owns nothing and can cancel nothing: its orders are marked as
  ownerless, and every other order, with its owner, is as it was.
\<close>

theorem detachClientOrders_correct:
  assumes "book_ok n b" and "0 \<le> fd"
  shows "fd \<notin> owner_fd ` set (resting (detachClientOrders b fd)) \<and>
    \<not> fst (cancelOrder (detachClientOrders b fd) i fd) \<and>
    (\<forall>r. get_list (detachClientOrders b fd) r =
         map (\<lambda>x. if owner_fd x = fd then x\<lparr>owner_fd := - 1\<rparr> else x) (get_list b r))"
proof (intro conjI allI)
  have fd: "fd \<noteq> - 1"
    using assms(2) by simp
  show "fd \<notin> owner_fd ` set (resting (detachClientOrders b fd))"
    using lists.detached_owns_nothing [OF fd] by (simp add: lists.owners_def)
  show "\<not> fst (cancelOrder (detachClientOrders b fd) i fd)"
    using assms(1) fd by (rule lists.detached_cannot_cancel)
  show "get_list (detachClientOrders b fd) r = map (\<lambda>x. if owner_fd x = fd then x\<lparr>owner_fd := - 1\<rparr> else x) (get_list b r)" for r
    by (simp add: detach_list disown_def)
qed

theorem detachClientOrders_correct_witness:
  "6 \<notin> owner_fd ` set (resting (detachClientOrders sample_book 6)) \<and> \<not> fst (cancelOrder (detachClientOrders sample_book 6) 2 6) \<and>
   get_list (detachClientOrders sample_book 6) JnstSell =
     map (\<lambda>x. if owner_fd x = 6 then x\<lparr>owner_fd := - 1\<rparr> else x) (get_list sample_book JnstSell)"
  using detachClientOrders_correct [OF sample_ok(1), of 6 2] by (simp del: get_list.simps)

end
