(* ===== verification/Order_Heap.thy ===== *)
theory Order_Heap
  imports Book_Invariant "HOL-Library.Monad_Syntax"
begin

text \<open>
  The functions of \<open>src/includes/orderbook.c\<close> on the heap: nodes with \<open>next\<close> and \<open>prev\<close> pointers, four
  head pointers, \<open>free\<close>. Every load, store and \<open>free\<close> of a cell that is not allocated is undefined
  behaviour and gives \<open>None\<close>, as does a loop that does not end. The theory proves that, from the
  empty book, no sequence of operations gives \<open>None\<close> (no use after free, no double free, no null
  dereference, every loop ends), that nothing is leaked, and that the results are those of the
  list functions of \<open>Orderbook\<close>.
\<close>

section \<open>The heap\<close>

type_synonym addr = nat

record node =
  next_ptr :: "addr option"
  prev_ptr :: "addr option"
  data :: Order

type_synonym heap = "addr \<rightharpoonup> node"

definition upd :: "heap \<Rightarrow> addr \<Rightarrow> (node \<Rightarrow> node) \<Rightarrow> heap option" where
  "upd h a f = (case h a of None \<Rightarrow> None | Some n \<Rightarrow> Some (h(a \<mapsto> f n)))"

definition release :: "heap \<Rightarrow> addr \<Rightarrow> heap option" where
  "release h a = (case h a of None \<Rightarrow> None | Some n \<Rightarrow> Some (h(a := None)))"

section \<open>The operations\<close>

definition initOrderbook_h :: "addr option LimitOrderBook" where
  "initOrderbook_h =
     \<lparr>jnst_buy_orders = None, jnst_sell_orders = None, imct_buy_orders = None, imct_sell_orders = None\<rparr>"

text \<open>The loop of \<open>append\<close>: \<open>while (cur->next != NULL) cur = cur->next\<close>.\<close>

partial_function (option) lastNode :: "heap \<Rightarrow> addr \<Rightarrow> addr option" where
  "lastNode h cur = do {
     n \<leftarrow> h cur;
     case next_ptr n of None \<Rightarrow> Some cur | Some nxt \<Rightarrow> lastNode h nxt
   }"

definition append_h :: "heap \<Rightarrow> addr option \<Rightarrow> addr \<Rightarrow> (heap \<times> addr option) option" where
  "append_h h head ord = do {
     h1 \<leftarrow> upd h ord (\<lambda>n. n\<lparr>next_ptr := None, prev_ptr := None\<rparr>);
     case head of
       None \<Rightarrow> Some (h1, Some ord)
     | Some p \<Rightarrow> do {
         cur \<leftarrow> lastNode h1 p;
         h2 \<leftarrow> upd h1 cur (\<lambda>n. n\<lparr>next_ptr := Some ord\<rparr>);
         h3 \<leftarrow> upd h2 ord (\<lambda>n. n\<lparr>prev_ptr := Some cur\<rparr>);
         Some (h3, head)
       }
   }"

definition removeNode_h :: "heap \<Rightarrow> addr option \<Rightarrow> addr \<Rightarrow> (heap \<times> addr option) option" where
  "removeNode_h h head node = do {
     n \<leftarrow> h node;
     (h1, head1) \<leftarrow> (case prev_ptr n of
         Some p \<Rightarrow> do { h' \<leftarrow> upd h p (\<lambda>k. k\<lparr>next_ptr := next_ptr n\<rparr>); Some (h', head) }
       | None \<Rightarrow> Some (h, next_ptr n));
     n1 \<leftarrow> h1 node;
     h2 \<leftarrow> (case next_ptr n1 of
         Some q \<Rightarrow> upd h1 q (\<lambda>k. k\<lparr>prev_ptr := prev_ptr n1\<rparr>)
       | None \<Rightarrow> Some h1);
     h3 \<leftarrow> upd h2 node (\<lambda>k. k\<lparr>next_ptr := None, prev_ptr := None\<rparr>);
     Some (h3, head1)
   }"

abbreviation takeQty :: "int \<Rightarrow> node \<Rightarrow> node" where
  "takeQty qty n \<equiv> n\<lparr>data := (data n)\<lparr>quantity := quantity (data n) - qty\<rparr>\<rparr>"

partial_function (option) matchLoop_h ::
  "mem \<Rightarrow> heap \<Rightarrow> addr option \<Rightarrow> addr option \<Rightarrow> addr \<Rightarrow> Fill list \<Rightarrow> nat \<Rightarrow> (heap \<times> addr option \<times> Fill list \<times> mem) option" where
  "matchLoop_h m h opp cur ord fills cap =
     (case cur of
        None \<Rightarrow> Some (h, opp, fills, m)
      | Some c \<Rightarrow> do {
          on \<leftarrow> h ord;
          if quantity (data on) > 0 then do {
            cn \<leftarrow> h c;
            if price (data cn) = price (data on) then do {
              let qty = tradeQty (data cn) (data on);
              h1 \<leftarrow> upd h c (takeQty qty);
              h2 \<leftarrow> upd h1 ord (takeQty qty);
              let (cap', m') = growFills m (length fills) cap;
              let fills' = (if length fills < cap' then fills @ [mkFill (data cn) (data on) qty] else fills);
              cn2 \<leftarrow> h2 c;
              (h4, opp') \<leftarrow> (if quantity (data cn2) = 0
                 then do { (h3, opp3) \<leftarrow> removeNode_h h2 opp c; h4 \<leftarrow> release h3 c; Some (h4, opp3) }
                 else Some (h2, opp));
              matchLoop_h m' h4 opp' (next_ptr cn) ord fills' cap'
            }
            else matchLoop_h m h opp (next_ptr cn) ord fills cap
          }
          else Some (h, opp, fills, m)
        })"

definition addOrder_h ::
  "mem \<Rightarrow> heap \<Rightarrow> addr option LimitOrderBook \<Rightarrow> addr \<Rightarrow> (Fill list \<times> heap \<times> addr option LimitOrderBook \<times> mem) option" where
  "addOrder_h m h book ord = do {
     on \<leftarrow> h ord;
     let own = ownList (data on);
     let opp = oppList (data on);
     (h1, head, fills, m') \<leftarrow> matchLoop_h m h (get_list book opp) (get_list book opp) ord [] 0;
     let book1 = set_list book opp head;
     on1 \<leftarrow> h1 ord;
     if quantity (data on1) > 0 then do {
       (h2, head2) \<leftarrow> append_h h1 (get_list book1 own) ord;
       Some (fills, h2, set_list book1 own head2, m')
     }
     else do { h2 \<leftarrow> release h1 ord; Some (fills, h2, book1, m') }
   }"

partial_function (option) detachIn_h :: "heap \<Rightarrow> addr option \<Rightarrow> int \<Rightarrow> heap option" where
  "detachIn_h h cur fd =
     (case cur of
        None \<Rightarrow> Some h
      | Some c \<Rightarrow> do {
          n \<leftarrow> h c;
          h1 \<leftarrow> (if owner_fd (data n) = fd then upd h c (\<lambda>k. k\<lparr>data := (data k)\<lparr>owner_fd := - 1\<rparr>\<rparr>) else Some h);
          n1 \<leftarrow> h1 c;
          detachIn_h h1 (next_ptr n1) fd
        })"

definition detachClientOrders_h :: "heap \<Rightarrow> addr option LimitOrderBook \<Rightarrow> int \<Rightarrow> heap option" where
  "detachClientOrders_h h book fd = do {
     h1 \<leftarrow> detachIn_h h (jnst_buy_orders book) fd;
     h2 \<leftarrow> detachIn_h h1 (jnst_sell_orders book) fd;
     h3 \<leftarrow> detachIn_h h2 (imct_buy_orders book) fd;
     detachIn_h h3 (imct_sell_orders book) fd
   }"

partial_function (option) cancelIn_h ::
  "heap \<Rightarrow> addr option \<Rightarrow> addr option \<Rightarrow> int \<Rightarrow> int \<Rightarrow> (bool \<times> heap \<times> addr option) option" where
  "cancelIn_h h head cur i fd =
     (case cur of
        None \<Rightarrow> Some (False, h, head)
      | Some c \<Rightarrow> do {
          n \<leftarrow> h c;
          if oid (data n) = i \<and> owner_fd (data n) = fd then do {
            (h1, head1) \<leftarrow> removeNode_h h head c;
            h2 \<leftarrow> release h1 c;
            Some (True, h2, head1)
          }
          else cancelIn_h h head (next_ptr n) i fd
        })"

fun cancelLists_h ::
  "list_ref list \<Rightarrow> heap \<Rightarrow> addr option LimitOrderBook \<Rightarrow> int \<Rightarrow> int \<Rightarrow> (bool \<times> heap \<times> addr option LimitOrderBook) option" where
  "cancelLists_h [] h book i fd = Some (False, h, book)"
| "cancelLists_h (r # rs) h book i fd = do {
     (found, h1, head) \<leftarrow> cancelIn_h h (get_list book r) (get_list book r) i fd;
     if found then Some (True, h1, set_list book r head) else cancelLists_h rs h1 (set_list book r head) i fd
   }"

definition cancelOrder_h ::
  "heap \<Rightarrow> addr option LimitOrderBook \<Rightarrow> int \<Rightarrow> int \<Rightarrow> (bool \<times> heap \<times> addr option LimitOrderBook) option" where
  "cancelOrder_h h book i fd = cancelLists_h [JnstBuy, JnstSell, ImctBuy, ImctSell] h book i fd"

section \<open>Doubly linked segments\<close>

text \<open>
  \<open>dlseg h p x cells y\<close>: from pointer \<open>x\<close>, whose predecessor is \<open>p\<close>, the \<open>next\<close> pointers visit the
  addresses of \<open>cells\<close> in order and end at \<open>y\<close>; each node's \<open>prev\<close> points back, and holds the order listed.
\<close>

type_synonym cell = "addr \<times> Order"

fun dlseg :: "heap \<Rightarrow> addr option \<Rightarrow> addr option \<Rightarrow> cell list \<Rightarrow> addr option \<Rightarrow> bool" where
  "dlseg h p x [] y \<longleftrightarrow> x = y"
| "dlseg h p x ((a, d) # cs) y \<longleftrightarrow>
     x = Some a \<and> (\<exists>q. h a = Some \<lparr>next_ptr = q, prev_ptr = p, data = d\<rparr> \<and> dlseg h (Some a) q cs y)"

abbreviation addrs :: "cell list \<Rightarrow> addr set" where
  "addrs cs \<equiv> fst ` set cs"

definition lastp :: "addr option \<Rightarrow> cell list \<Rightarrow> addr option" where
  "lastp p cs = (if cs = [] then p else Some (fst (last cs)))"

lemma lastp_simps [simp]:
  "lastp p [] = p" "lastp p (cs @ [c]) = Some (fst c)" "lastp p (c # cs) = lastp (Some (fst c)) cs"
  by (simp_all add: lastp_def)

lemma dlseg_append [simp]:
  "dlseg h p x (cs @ ds) y \<longleftrightarrow> (\<exists>q. dlseg h p x cs q \<and> dlseg h (lastp p cs) q ds y)"
  by (induction h p x cs y rule: dlseg.induct) auto

lemma dlseg_cong: "(\<And>a. a \<in> addrs cs \<Longrightarrow> h' a = h a) \<Longrightarrow> dlseg h' p x cs y = dlseg h p x cs y"
  by (induction h p x cs y rule: dlseg.induct) auto

lemma dlseg_upd [simp]: "a \<notin> addrs cs \<Longrightarrow> dlseg (h(a := v)) p x cs y = dlseg h p x cs y"
  by (rule dlseg_cong) auto

lemma dlseg_dom: "dlseg h p x cs y \<Longrightarrow> addrs cs \<subseteq> dom h"
  by (induction h p x cs y rule: dlseg.induct) auto

lemma dlseg_lastNode:
  "dlseg h p (Some a) (cs @ [(b, d)]) None \<Longrightarrow> lastNode h a = Some b"
proof (induction cs arbitrary: p a)
  case Nil
  then show ?case by (subst lastNode.simps) simp
next
  case (Cons c cs)
  obtain a' d' where c: "c = (a', d')" by fastforce
  obtain q where q: "h a = Some \<lparr>next_ptr = q, prev_ptr = p, data = d'\<rparr>" "dlseg h (Some a) q (cs @ [(b, d)]) None"
    using Cons.prems c by auto
  from q(2) obtain a2 where "q = Some a2"
    by (cases cs) (auto simp: dlseg_append)
  with q Cons.IH [of "Some a" a2] show ?case
    by (subst lastNode.simps) (simp del: dlseg_append)
qed

lemma upd_Some [simp]: "h a = Some n \<Longrightarrow> upd h a f = Some (h(a \<mapsto> f n))"
  by (simp add: upd_def)

lemma release_Some [simp]: "h a = Some n \<Longrightarrow> release h a = Some (h(a := None))"
  by (simp add: release_def)

lemma removeNode_dlseg:
  assumes seg: "dlseg h None head (cs @ (a, d) # ds) None" and dist: "distinct (map fst (cs @ (a, d) # ds))"
  shows "\<exists>h' head'. removeNode_h h head a = Some (h', head') \<and> dlseg h' None head' (cs @ ds) None \<and>
    (\<forall>b. b \<notin> addrs (cs @ ds) \<and> b \<noteq> a \<longrightarrow> h' b = h b) \<and> dom h' = dom h"
proof -
  obtain n where n: "h a = Some \<lparr>next_ptr = n, prev_ptr = lastp None cs, data = d\<rparr>"
    and l: "dlseg h None head cs (Some a)" and r: "dlseg h (Some a) n ds None"
    using seg by auto
  have a: "a \<notin> addrs cs" "a \<notin> addrs ds" and cd: "addrs cs \<inter> addrs ds = {}"
    using dist by auto
  show ?thesis
  proof (cases cs rule: rev_cases)
    case Nil
    show ?thesis
    proof (cases ds)
      case Nil
      with \<open>cs = []\<close> n l r show ?thesis
        by (auto simp: removeNode_h_def)
    next
      case (Cons c ds')
      obtain b e where c: "c = (b, e)" by fastforce
      have "b \<noteq> a" "b \<notin> addrs ds'" using a Cons c dist by auto
      with \<open>cs = []\<close> Cons c n l r a show ?thesis
        by (auto simp: removeNode_h_def)
    qed
  next
    case (snoc cs' c0)
    obtain p e0 where c0: "c0 = (p, e0)" by fastforce
    have p: "p \<noteq> a" "p \<notin> addrs cs'" "p \<notin> addrs ds" using a snoc c0 dist by auto
    show ?thesis
    proof (cases ds)
      case Nil
      with snoc c0 n l r a p show ?thesis
        by (auto simp: removeNode_h_def)
    next
      case (Cons c ds')
      obtain b e where c: "c = (b, e)" by fastforce
      have "b \<noteq> a" "b \<noteq> p" "b \<notin> addrs ds'" "b \<notin> addrs cs'" using a Cons c snoc c0 dist by auto
      with snoc c0 Cons c n l r a p show ?thesis
        by (auto simp: removeNode_h_def)
    qed
  qed
qed

lemma append_dlseg:
  assumes seg: "dlseg h None head cs None" and new: "a \<notin> addrs cs" "h a = Some n"
    and dist: "distinct (map fst cs)"
  shows "\<exists>h' head'. append_h h head a = Some (h', head') \<and> dlseg h' None head' (cs @ [(a, data n)]) None \<and>
    (\<forall>b. b \<notin> addrs cs \<and> b \<noteq> a \<longrightarrow> h' b = h b) \<and> dom h' = dom h"
proof (cases cs rule: rev_cases)
  case Nil
  with seg new show ?thesis
    by (auto simp: append_h_def)
next
  case (snoc cs' c)
  obtain b d where c: "c = (b, d)" by fastforce
  let ?h1 = "h(a \<mapsto> n\<lparr>next_ptr := None, prev_ptr := None\<rparr>)"
  have b: "b \<noteq> a" "b \<notin> addrs cs'" using new snoc c dist by auto
  obtain p where p: "head = Some p"
    using seg snoc c by (cases head; cases cs') auto
  have "dlseg ?h1 None (Some p) (cs' @ [(b, d)]) None"
    using seg snoc c p new by (simp del: dlseg_append)
  then have "lastNode ?h1 p = Some b"
    by (rule dlseg_lastNode)
  with seg snoc c p new b show ?thesis
    by (auto simp: append_h_def)
qed

lemma dlseg_setdata:
  assumes "dlseg h p x (cs @ (a, d) # ds) y" and "distinct (map fst (cs @ (a, d) # ds))" and "h a = Some n"
  shows "dlseg (h(a \<mapsto> n\<lparr>data := e\<rparr>)) p x (cs @ (a, e) # ds) y"
  using assms by auto

lemma dlseg_head: "dlseg h p x ((a, d) # ds) y \<Longrightarrow> x = Some a \<and> (\<exists>n. h a = Some n \<and> data n = d \<and> prev_ptr n = p \<and> dlseg h (Some a) (next_ptr n) ds y)"
  by auto

text \<open>The first pointer of a list of cells that ends at \<open>None\<close>.\<close>

definition first :: "cell list \<Rightarrow> addr option" where
  "first cs = (case cs of [] \<Rightarrow> None | c # _ \<Rightarrow> Some (fst c))"

lemma dlseg_first: "dlseg h p x cs None \<Longrightarrow> x = first cs"
  by (cases cs) (auto simp: first_def)

lemma dlseg_mid:
  assumes "dlseg h p x (cs @ (a, d) # ds) None"
  shows "\<exists>n. h a = Some n \<and> data n = d \<and> next_ptr n = first ds"
  using assms by (auto dest: dlseg_first)

section \<open>The loops refine the list functions\<close>

text \<open>
  What the matching loop leaves behind when it has passed \<open>cs\<close>, has \<open>ds\<close> ahead of it and keeps \<open>ds'\<close> of
  it: a well-formed list, no cell of another list touched, exactly the executed cells freed.
\<close>

definition loop_post ::
  "heap \<Rightarrow> addr \<Rightarrow> node \<Rightarrow> cell list \<Rightarrow> cell list \<Rightarrow> heap \<Rightarrow> addr option \<Rightarrow> cell list \<Rightarrow> Order \<Rightarrow> bool" where
  "loop_post h ord no cs ds h' opp' ds' o' \<longleftrightarrow>
     dlseg h' None opp' (cs @ ds') None \<and> subseq (map fst ds') (map fst ds) \<and> h' ord = Some (no\<lparr>data := o'\<rparr>) \<and>
     (\<forall>b. b \<notin> addrs (cs @ ds) \<and> b \<noteq> ord \<longrightarrow> h' b = h b) \<and> dom h' = dom h - (addrs ds - addrs ds')"

text \<open>Removing an executed node and freeing it.\<close>

lemma removeNode_release:
  assumes "dlseg h None head (cs @ (a, d) # ds) None" and "distinct (map fst (cs @ (a, d) # ds))"
  shows "\<exists>h3 h' head'. removeNode_h h head a = Some (h3, head') \<and> release h3 a = Some h' \<and>
    dlseg h' None head' (cs @ ds) None \<and> (\<forall>b. b \<notin> addrs (cs @ ds) \<and> b \<noteq> a \<longrightarrow> h' b = h b) \<and>
    dom h' = dom h - {a}"
proof -
  obtain h3 head' where r: "removeNode_h h head a = Some (h3, head')" "dlseg h3 None head' (cs @ ds) None"
    "\<forall>b. b \<notin> addrs (cs @ ds) \<and> b \<noteq> a \<longrightarrow> h3 b = h b" "dom h3 = dom h"
    using removeNode_dlseg [OF assms] by blast
  have "a \<in> dom h3"
    using dlseg_dom [OF assms(1)] r(4) by auto
  then have "release h3 a = Some (h3(a := None))"
    by auto
  moreover have "dlseg (h3(a := None)) None head' (cs @ ds) None"
    using r(2) assms(2) by auto
  ultimately show ?thesis
    using r by (intro exI [of _ h3] exI [of _ "h3(a := None)"] exI [of _ head']) auto
qed

lemma loop_post_keep:
  assumes "loop_post h1 ord n1 (cs @ [(a, d1)]) ds h' opp' ds' o'" and "h a \<noteq> None" and "a \<notin> addrs ds"
    and "dom h1 = dom h" and "n1\<lparr>data := o'\<rparr> = no\<lparr>data := o'\<rparr>" and "\<And>b. b \<noteq> a \<Longrightarrow> b \<noteq> ord \<Longrightarrow> h1 b = h b"
  shows "loop_post h ord no cs ((a, d) # ds) h' opp' ((a, d1) # ds') o'"
  using assms by (auto simp: loop_post_def simp del: dlseg_append)

lemma loop_post_drop:
  assumes "loop_post h4 ord n1 cs ds h' opp' ds' o'" and "a \<notin> addrs ds"
    and "dom h4 = dom h - {a}" and "n1\<lparr>data := o'\<rparr> = no\<lparr>data := o'\<rparr>"
    and "\<And>b. b \<notin> addrs (cs @ ds) \<Longrightarrow> b \<noteq> a \<Longrightarrow> b \<noteq> ord \<Longrightarrow> h4 b = h b"
  shows "loop_post h ord no cs ((a, d) # ds) h' opp' ds' o'"
proof -
  have "a \<notin> addrs ds'"
    using subseq_set_mono [of "map fst ds'" "map fst ds"] assms(1,2) by (auto simp: loop_post_def)
  with assms show ?thesis
    by (auto simp: loop_post_def intro: subseq_order.trans simp del: dlseg_append)
qed

lemma matchLoop_refines:
  assumes "dlseg h None opp (cs @ ds) None" and "distinct (map fst (cs @ ds))"
    and "ord \<notin> addrs (cs @ ds)" and "h ord = Some no"
    and "matchLoop m (map snd ds) (data no) fills cap = (xs', o', fills', m')"
  shows "\<exists>h' opp' ds'. matchLoop_h m h opp (first ds) ord fills cap = Some (h', opp', fills', m') \<and>
    map snd ds' = xs' \<and> loop_post h ord no cs ds h' opp' ds' o'"
  using assms
proof (induction ds arbitrary: cs h opp no m fills cap xs' o' fills' m')
  case Nil
  then show ?case
    by (subst matchLoop_h.simps) (auto simp: first_def loop_post_def)
next
  case (Cons c ds)
  obtain a d where c: "c = (a, d)" by fastforce
  obtain na where na: "h a = Some na" "data na = d" "next_ptr na = first ds"
    using dlseg_mid Cons.prems(1) c by blast
  have a: "a \<noteq> ord" "a \<notin> addrs ds" "a \<notin> addrs cs" "ord \<notin> addrs ds" "ord \<notin> addrs cs"
    using Cons.prems(2,3) c by auto
  have fc: "first (c # ds) = Some a" by (simp add: first_def c)
  consider (stop) "\<not> 0 < quantity (data no)" | (skip) "0 < quantity (data no)" "price d \<noteq> price (data no)"
    | (exec) "0 < quantity (data no)" "price d = price (data no)" by blast
  then show ?case
  proof cases
    case stop
    then have "matchLoop_h m h opp (first (c # ds)) ord fills cap = Some (h, opp, fills, m)"
      using Cons.prems(4) by (subst matchLoop_h.simps) (simp add: fc)
    moreover have "loop_post h ord no cs (c # ds) h opp (c # ds) (data no)"
      using Cons.prems(1,4) by (simp add: loop_post_def del: dlseg_append)
    ultimately show ?thesis
      using Cons.prems(5) stop by (intro exI conjI) auto
  next
    case skip
    obtain xs1 where r: "matchLoop m (map snd ds) (data no) fills cap = (xs1, o', fills', m')" and xs': "xs' = d # xs1"
      using Cons.prems(5) skip c by (auto split: prod.splits)
    obtain h' opp' ds' where IH: "matchLoop_h m h opp (first ds) ord fills cap = Some (h', opp', fills', m')"
        "map snd ds' = xs1" "loop_post h ord no (cs @ [c]) ds h' opp' ds' o'"
      using Cons.IH [where ?cs = "cs @ [c]" and ?h = h and ?opp = opp and ?no = no, OF _ _ _ _ r] Cons.prems(1-4) by auto
    have "matchLoop_h m h opp (first (c # ds)) ord fills cap = Some (h', opp', fills', m')"
      using IH(1) skip na Cons.prems(4) by (subst matchLoop_h.simps) (simp add: fc)
    moreover have "loop_post h ord no cs (c # ds) h' opp' (c # ds') o'"
      using IH(3) a na unfolding c by (intro loop_post_keep) auto
    ultimately show ?thesis
      using IH(2) xs' c by (intro exI conjI) auto
  next
    case exec
    let ?qty = "tradeQty d (data no)"
    let ?d1 = "d\<lparr>quantity := quantity d - ?qty\<rparr>" and ?n1 = "takeQty ?qty no"
    let ?fills = "\<lambda>cap'. if length fills < cap' then fills @ [mkFill d (data no) ?qty] else fills"
    let ?h2 = "h(a \<mapsto> takeQty ?qty na, ord \<mapsto> ?n1)"
    obtain cap1 m1 where g: "growFills m (length fills) cap = (cap1, m1)" by fastforce
    obtain xs1 where r: "matchLoop m1 (map snd ds) (data ?n1) (?fills cap1) cap1 = (xs1, o', fills', m')"
      and xs': "xs' = (if quantity ?d1 = 0 then xs1 else ?d1 # xs1)"
      using Cons.prems(5) exec c g by (auto simp: Let_def split: prod.splits)
    have seg2: "dlseg ?h2 None opp (cs @ (a, ?d1) # ds) None"
      using dlseg_setdata [of h None opp cs a d ds None na ?d1] Cons.prems(1,2) na a c by auto
    show ?thesis
    proof (cases "quantity ?d1 = 0")
      case False
      have "dlseg ?h2 None opp ((cs @ [(a, ?d1)]) @ ds) None"
        using seg2 by (simp del: dlseg_append)
      moreover have "distinct (map fst ((cs @ [(a, ?d1)]) @ ds))" "ord \<notin> addrs ((cs @ [(a, ?d1)]) @ ds)"
        using Cons.prems(2,3) c by auto
      moreover have "?h2 ord = Some ?n1" by simp
      ultimately obtain h' opp' ds' where IH: "matchLoop_h m1 ?h2 opp (first ds) ord (?fills cap1) cap1 = Some (h', opp', fills', m')"
          "map snd ds' = xs1" "loop_post ?h2 ord ?n1 (cs @ [(a, ?d1)]) ds h' opp' ds' o'"
        using Cons.IH [OF _ _ _ _ r] by blast
      have "matchLoop_h m h opp (first (c # ds)) ord fills cap = Some (h', opp', fills', m')"
        using IH(1) exec na Cons.prems(4) g a False by (subst matchLoop_h.simps) (simp add: fc Let_def split del: if_split cong: if_cong)
      moreover have "loop_post h ord no cs (c # ds) h' opp' ((a, ?d1) # ds') o'"
        using a na Cons.prems(4) unfolding c by (intro loop_post_keep [OF IH(3)]) auto
      ultimately show ?thesis
        using IH(2) xs' False by (intro exI conjI) auto
    next
      case True
      obtain h3 h4 opp4 where rem: "removeNode_h ?h2 opp a = Some (h3, opp4)" "release h3 a = Some h4"
          "dlseg h4 None opp4 (cs @ ds) None" "\<forall>b. b \<notin> addrs (cs @ ds) \<and> b \<noteq> a \<longrightarrow> h4 b = ?h2 b" "dom h4 = dom ?h2 - {a}"
        using removeNode_release [OF seg2] Cons.prems(2) c by auto
      then have "h4 ord = Some ?n1" using a by auto
      then obtain h' opp' ds' where IH: "matchLoop_h m1 h4 opp4 (first ds) ord (?fills cap1) cap1 = Some (h', opp', fills', m')"
          "map snd ds' = xs1" "loop_post h4 ord ?n1 cs ds h' opp' ds' o'"
        using Cons.IH [where ?cs = cs and ?h = h4 and ?opp = opp4 and ?no = ?n1, OF rem(3) _ _ _ r] Cons.prems(2,3) c by auto
      have "matchLoop_h m h opp (first (c # ds)) ord fills cap = Some (h', opp', fills', m')"
        using IH(1) exec na Cons.prems(4) g a True rem(1,2) by (subst matchLoop_h.simps) (simp add: fc Let_def split del: if_split cong: if_cong)
      moreover have "loop_post h ord no cs (c # ds) h' opp' ds' o'"
        using a rem(4,5) na Cons.prems(4) unfolding c by (intro loop_post_drop [OF IH(3)]) auto
      ultimately show ?thesis
        using IH(2) xs' True by (intro exI conjI) auto
    qed
  qed
qed

section \<open>The representation of the book\<close>

text \<open>
  The heap represents the book with cells \<open>A r\<close> in list \<open>r\<close>: four disjoint doubly linked lists that
  together are all the allocated cells, so nothing is leaked and nothing dangles.
\<close>

definition book_rel :: "(list_ref \<Rightarrow> cell list) \<Rightarrow> heap \<Rightarrow> addr option LimitOrderBook \<Rightarrow> bool" where
  "book_rel A h book \<longleftrightarrow>
     (\<forall>r. dlseg h None (get_list book r) (A r) None \<and> distinct (map fst (A r))) \<and>
     (\<forall>r r'. r \<noteq> r' \<longrightarrow> addrs (A r) \<inter> addrs (A r') = {}) \<and>
     dom h = (\<Union>r. addrs (A r))"

definition represents :: "heap \<times> addr option LimitOrderBook \<Rightarrow> Order list LimitOrderBook \<Rightarrow> bool" where
  "represents s b \<longleftrightarrow> (\<exists>A. book_rel A (fst s) (snd s) \<and> (\<forall>r. get_list b r = map snd (A r)))"

lemma book_relD:
  assumes "book_rel A h book"
  shows "dlseg h None (get_list book r) (A r) None" and "distinct (map fst (A r))"
    and "r \<noteq> r' \<Longrightarrow> addrs (A r) \<inter> addrs (A r') = {}" and "dom h = (\<Union>r. addrs (A r))"
    and "addrs (A r) \<subseteq> dom h"
  using assms by (auto simp: book_rel_def)

lemma book_rel_finite: "book_rel A h book \<Longrightarrow> finite (dom h)"
  by (auto simp: book_rel_def intro!: finite_UN_I finite_subset [OF _ finite])

text \<open>One list changes, possibly taking in fresh cells \<open>N\<close>; the other three stay as they are.\<close>

lemma book_rel_change:
  assumes rel: "book_rel A h book" and seg: "dlseg h' None x cs None" and dist: "distinct (map fst cs)"
    and N: "N \<inter> dom h = {}" and sub: "addrs cs \<subseteq> addrs (A r) \<union> N"
    and frame: "\<And>b. b \<notin> addrs (A r) \<Longrightarrow> b \<notin> N \<Longrightarrow> h' b = h b"
    and dom: "dom h' = (dom h - addrs (A r)) \<union> addrs cs"
  shows "book_rel (A(r := cs)) h' (set_list book r x)"
proof -
  note R = book_relD [OF rel]
  have disj: "addrs cs \<inter> addrs (A r') = {}" if "r' \<noteq> r" for r'
    by (rule disjoint_growth [OF sub N R(3) [OF that] R(5)])
  have keep: "dlseg h' None (get_list book r') (A r') None" if "r' \<noteq> r" for r'
  proof -
    have "h' b = h b" if "b \<in> addrs (A r')" for b
    proof (rule frame)
      show "b \<notin> addrs (A r)" using that R(3) [OF \<open>r' \<noteq> r\<close>] by (metis disjoint_iff)
      show "b \<notin> N" using that N R(5) [of r'] by (metis disjoint_iff subsetD)
    qed
    with R(1) [of r'] show ?thesis
      using dlseg_cong [of "A r'" h' h] by auto
  qed
  have "dom h' = (\<Union>r'. addrs ((A(r := cs)) r'))"
  proof -
    have "addrs (A r') \<inter> addrs (A r) = {}" if "r' \<noteq> r" for r'
      using that by (rule R(3))
    then have "dom h - addrs (A r) = (\<Union>r' \<in> - {r}. addrs (A r'))"
      unfolding R(4) by blast
    then show ?thesis
      unfolding dom UN_fun_upd [of addrs] by blast
  qed
  moreover have "dlseg h' None (get_list (set_list book r x) r') ((A(r := cs)) r') None \<and> distinct (map fst ((A(r := cs)) r'))" for r'
    using seg dist keep R(2) by simp
  moreover have "addrs ((A(r := cs)) r1) \<inter> addrs ((A(r := cs)) r2) = {}" if "r1 \<noteq> r2" for r1 r2
    using disj [of r1] disj [of r2] R(3) [OF that] that by (cases "r1 = r"; cases "r2 = r"; simp add: Int_commute)
  ultimately show ?thesis
    unfolding book_rel_def by blast
qed

lemma addOrder_refines:
  assumes rel: "represents (h, book) b" and a: "a \<notin> dom h" and add: "addOrder m b ord = (fills, b', m')"
  defines "h0 \<equiv> h(a \<mapsto> \<lparr>next_ptr = None, prev_ptr = None, data = ord\<rparr>)"
  shows "\<exists>h' book'. addOrder_h m h0 book a = Some (fills, h', book', m') \<and> represents (h', book') b'"
proof -
  let ?no = "\<lparr>next_ptr = None, prev_ptr = None, data = ord\<rparr>"
  let ?opp = "oppList ord" and ?own = "ownList ord"
  obtain A where A: "book_rel A h book" and Ab: "\<And>r. get_list b r = map snd (A r)"
    using rel by (auto simp: represents_def)
  note R = book_relD [OF A]
  have neq: "?own \<noteq> ?opp" by (simp add: oppList_ownList)
  have aA: "a \<notin> addrs (A r)" for r
    using a R(5) [of r] by auto
  have h0: "h0 a = Some ?no" "dom h0 = insert a (dom h)"
    by (simp_all add: h0_def)
  obtain xs' o' fs m1 where ml: "matchLoop m (map snd (A ?opp)) ord [] 0 = (xs', o', fs, m1)"
    by (metis prod_cases4)
  have seg0: "dlseg h0 None (get_list book ?opp) ([] @ A ?opp) None"
    using R(1) aA by (simp add: h0_def)
  have o': "o' = ord\<lparr>quantity := quantity o'\<rparr>"
    using matchLoop_walk [OF ml] walkOrd_eq by metis
  obtain h1 head ds where loop: "matchLoop_h m h0 (get_list book ?opp) (first (A ?opp)) a [] 0 = Some (h1, head, fs, m1)"
      "map snd ds = xs'" "loop_post h0 a ?no [] (A ?opp) h1 head ds o'"
    using matchLoop_refines [OF seg0 _ _ h0(1), of m "[]" 0 xs' o' fs m1] R(2) aA ml by auto
  have P: "dlseg h1 None head ds None" "subseq (map fst ds) (map fst (A ?opp))" "h1 a = Some (?no\<lparr>data := o'\<rparr>)"
      "\<And>b. b \<notin> addrs (A ?opp) \<Longrightarrow> b \<noteq> a \<Longrightarrow> h1 b = h0 b" "dom h1 = dom h0 - (addrs (A ?opp) - addrs ds)"
    using loop(3) by (auto simp: loop_post_def)
  have ds: "addrs ds \<subseteq> addrs (A ?opp)" "distinct (map fst ds)" "a \<notin> addrs ds"
    using subseq_set_mono [OF P(2)] subseq_distinct [OF P(2)] R(2) aA by auto
  have rel1: "book_rel (A(?opp := ds)) (h1(a := None)) (set_list book ?opp head)"
  proof (rule book_rel_change [OF A, where N = "{}"])
    show "dom (h1(a := None)) = dom h - addrs (A ?opp) \<union> addrs ds"
      unfolding dom_fun_upd P(5) h0(2)
      using insert_remove_kept [OF a ds(1) subset_trans [OF ds(1) R(5)]] by simp
    show "(h1(a := None)) c = h c" if "c \<notin> addrs (A ?opp)" for c
      using P(4) [OF that] a by (cases "c = a") (simp_all add: h0_def domIff)
    show "dlseg (h1(a := None)) None head ds None"
      using P(1) ds(3) by simp
  qed (use ds in simp_all)
  have fst0: "first (A ?opp) = get_list book ?opp"
    using dlseg_first R(1) by metis
  have b': "b' = (let bk = set_list b ?opp xs' in
      if 0 < quantity o' then set_list bk ?own (get_list bk ?own @ [o']) else bk)" "fs = fills" "m1 = m'"
    using add ml by (auto simp: addOrder_def Ab Let_def)
  show ?thesis
  proof (cases "0 < quantity o'")
    case True
    have own: "dlseg h1 None (get_list book ?own) (A ?own) None"
    proof -
      have "h1 b = h b" if "b \<in> addrs (A ?own)" for b
        using that P(4) [of b] R(3) [OF neq] aA [of ?own] by (auto simp: h0_def)
      then show ?thesis
        using R(1) [of ?own] dlseg_cong [of "A ?own" h1 h] by auto
    qed
    obtain h2 head2 where ap: "append_h h1 (get_list book ?own) a = Some (h2, head2)"
        "dlseg h2 None head2 (A ?own @ [(a, o')]) None" "\<forall>b. b \<notin> addrs (A ?own) \<and> b \<noteq> a \<longrightarrow> h2 b = h1 b" "dom h2 = dom h1"
      using append_dlseg [OF own aA P(3)] R(2) by auto
    have "book_rel (A(?opp := ds, ?own := A ?own @ [(a, o')])) h2 (set_list (set_list book ?opp head) ?own head2)"
    proof (rule book_rel_change [OF rel1, where N = "{a}"])
      show "dom h2 = dom (h1(a := None)) - addrs ((A(?opp := ds)) ?own) \<union> addrs (A ?own @ [(a, o')])"
        using ap(4) P(3) own [THEN dlseg_dom] by (auto simp: neq)
    qed (use ap R(2) aA neq in auto)
    moreover have "get_list b' r = map snd ((A(?opp := ds, ?own := A ?own @ [(a, o')])) r)" for r
      using b' True neq loop(2) by (simp add: Ab Let_def)
    moreover have "addOrder_h m h0 book a = Some (fills, h2, set_list (set_list book ?opp head) ?own head2, m')"
      using loop(1) fst0 h0(1) P(3) True ap(1) b' neq by (simp add: addOrder_h_def Let_def)
    ultimately show ?thesis
      unfolding represents_def by auto
  next
    case False
    have "get_list b' r = map snd ((A(?opp := ds)) r)" for r
      using b' False loop(2) by (simp add: Ab Let_def)
    moreover have "addOrder_h m h0 book a = Some (fills, h1(a := None), set_list book ?opp head, m')"
      using loop(1) fst0 h0(1) P(3) False b' by (simp add: addOrder_h_def Let_def)
    ultimately show ?thesis
      using rel1 unfolding represents_def by auto
  qed
qed

lemma detachIn_refines:
  assumes "dlseg h p x cs None" and "distinct (map fst cs)"
  shows "\<exists>h'. detachIn_h h x fd = Some h' \<and> dlseg h' p x (map (apsnd (disown fd)) cs) None \<and>
    (\<forall>b. b \<notin> addrs cs \<longrightarrow> h' b = h b) \<and> dom h' = dom h"
  using assms
proof (induction cs arbitrary: h p x)
  case Nil
  then show ?case by (subst detachIn_h.simps) simp
next
  case (Cons c cs)
  obtain a d where c: "c = (a, d)" by fastforce
  then obtain q where q: "h a = Some \<lparr>next_ptr = q, prev_ptr = p, data = d\<rparr>" "x = Some a" "dlseg h (Some a) q cs None"
    using Cons.prems(1) by auto
  let ?h1 = "h(a \<mapsto> \<lparr>next_ptr = q, prev_ptr = p, data = disown fd d\<rparr>)"
  have a: "a \<notin> addrs cs" "distinct (map fst cs)" using Cons.prems(2) c by auto
  have "dlseg ?h1 (Some a) q cs None" using q(3) a by simp
  then obtain h' where IH: "detachIn_h ?h1 q fd = Some h'" "dlseg h' (Some a) q (map (apsnd (disown fd)) cs) None"
      "\<forall>b. b \<notin> addrs cs \<longrightarrow> h' b = ?h1 b" "dom h' = dom ?h1"
    using Cons.IH [OF _ a(2)] by blast
  have "detachIn_h h x fd = Some h'"
    using IH(1) q by (subst detachIn_h.simps) (auto simp: disown_def fun_upd_idem)
  with IH q(1,2) a c show ?case
    by (intro exI [of _ h']) auto
qed

lemma detach_step:
  assumes "book_rel A h book"
  shows "\<exists>h'. detachIn_h h (get_list book r) fd = Some h' \<and> book_rel (A(r := map (apsnd (disown fd)) (A r))) h' book"
proof -
  note R = book_relD [OF assms]
  have ad: "addrs (map (apsnd f) cs) = addrs cs" for f and cs :: "cell list"
    by force
  obtain h' where h': "detachIn_h h (get_list book r) fd = Some h'"
      "dlseg h' None (get_list book r) (map (apsnd (disown fd)) (A r)) None"
      "\<forall>b. b \<notin> addrs (A r) \<longrightarrow> h' b = h b" "dom h' = dom h"
    using detachIn_refines [OF R(1,2)] by blast
  have "book_rel (A(r := map (apsnd (disown fd)) (A r))) h' (set_list book r (get_list book r))"
  proof (rule book_rel_change [OF assms h'(2), where N = "{}"])
    show "distinct (map fst (map (apsnd (disown fd)) (A r)))"
      using R(2) [of r] by (simp add: comp_def)
    show "dom h' = dom h - addrs (A r) \<union> addrs (map (apsnd (disown fd)) (A r))"
      unfolding ad h'(4) using R(5) [of r] by blast
  qed (use h'(3) ad in simp_all)
  with h'(1) show ?thesis by auto
qed

lemma detach_refines:
  assumes "represents (h, book) b"
  shows "\<exists>h'. detachClientOrders_h h book fd = Some h' \<and> represents (h', book) (detachClientOrders b fd)"
proof -
  obtain A where A: "book_rel A h book" "\<And>r. get_list b r = map snd (A r)"
    using assms by (auto simp: represents_def)
  let ?d = "map (apsnd (disown fd))"
  obtain h1 where 1: "detachIn_h h (get_list book JnstBuy) fd = Some h1" "book_rel (A(JnstBuy := ?d (A JnstBuy))) h1 book"
    using detach_step [OF A(1)] by blast
  obtain h2 where 2: "detachIn_h h1 (get_list book JnstSell) fd = Some h2"
      "book_rel (A(JnstBuy := ?d (A JnstBuy), JnstSell := ?d (A JnstSell))) h2 book"
    using detach_step [OF 1(2), of JnstSell fd] by auto
  obtain h3 where 3: "detachIn_h h2 (get_list book ImctBuy) fd = Some h3"
      "book_rel (A(JnstBuy := ?d (A JnstBuy), JnstSell := ?d (A JnstSell), ImctBuy := ?d (A ImctBuy))) h3 book"
    using detach_step [OF 2(2), of ImctBuy fd] by auto
  obtain h4 where 4: "detachIn_h h3 (get_list book ImctSell) fd = Some h4"
      "book_rel (A(JnstBuy := ?d (A JnstBuy), JnstSell := ?d (A JnstSell), ImctBuy := ?d (A ImctBuy),
        ImctSell := ?d (A ImctSell))) h4 book"
    using detach_step [OF 3(2), of ImctSell fd] by auto
  have "A(JnstBuy := ?d (A JnstBuy), JnstSell := ?d (A JnstSell), ImctBuy := ?d (A ImctBuy), ImctSell := ?d (A ImctSell))
      = (\<lambda>r. ?d (A r))"
    by (rule ext) (simp split: list_ref.split, metis list_ref.exhaust)
  with 4(2) have "represents (h4, book) (detachClientOrders b fd)"
    unfolding represents_def by (auto simp: detach_list A(2) comp_def)
  moreover have "detachClientOrders_h h book fd = Some h4"
    using 1(1) 2(1) 3(1) 4(1) by (simp add: detachClientOrders_h_def)
  ultimately show ?thesis by blast
qed

lemma cancelIn_refines:
  assumes "dlseg h None head (cs @ ds) None" and "distinct (map fst (cs @ ds))"
    and "cancelIn (map snd ds) i fd = (found, xs)"
  shows "\<exists>h' head' ds'. cancelIn_h h head (first ds) i fd = Some (found, h', head') \<and>
    dlseg h' None head' (cs @ ds') None \<and> map snd ds' = xs \<and> subseq (map fst ds') (map fst ds) \<and>
    (\<forall>b. b \<notin> addrs (cs @ ds) \<longrightarrow> h' b = h b) \<and> dom h' = dom h - (addrs ds - addrs ds')"
  using assms
proof (induction ds arbitrary: cs xs)
  case Nil
  then show ?case by (subst cancelIn_h.simps) (auto simp: first_def)
next
  case (Cons c ds)
  obtain a d where c: "c = (a, d)" by fastforce
  obtain n where n: "h a = Some n" "data n = d" "next_ptr n = first ds"
    using dlseg_mid Cons.prems(1) c by blast
  have a: "a \<notin> addrs ds" "a \<notin> addrs cs" and fc: "first (c # ds) = Some a"
    using Cons.prems(2) c by (auto simp: first_def)
  show ?case
  proof (cases "oid d = i \<and> owner_fd d = fd")
    case True
    obtain h3 h' head' where r: "removeNode_h h head a = Some (h3, head')" "release h3 a = Some h'"
        "dlseg h' None head' (cs @ ds) None" "\<forall>b. b \<notin> addrs (cs @ ds) \<and> b \<noteq> a \<longrightarrow> h' b = h b" "dom h' = dom h - {a}"
      using removeNode_release Cons.prems(1,2) c by blast
    have "cancelIn_h h head (first (c # ds)) i fd = Some (True, h', head')"
      using True n r(1,2) by (subst cancelIn_h.simps) (simp add: fc)
    moreover have "dom h' = dom h - (addrs (c # ds) - addrs ds)"
      using r(5) a c by auto
    moreover have "found" "xs = map snd ds"
      using Cons.prems(3) True c by auto
    moreover have "subseq (map fst ds) (map fst (c # ds))"
      by (simp add: list_emb_Cons)
    ultimately show ?thesis
      using r(3,4) c by (intro exI [of _ h'] exI [of _ head'] exI [of _ ds]) (simp del: dlseg_append)
  next
    case False
    obtain xs1 where xs1: "cancelIn (map snd ds) i fd = (found, xs1)" "xs = d # xs1"
      using Cons.prems(3) False c by (auto split: prod.splits)
    obtain h' head' ds' where IH: "cancelIn_h h head (first ds) i fd = Some (found, h', head')"
        "dlseg h' None head' ((cs @ [c]) @ ds') None" "map snd ds' = xs1" "subseq (map fst ds') (map fst ds)"
        "\<forall>b. b \<notin> addrs ((cs @ [c]) @ ds) \<longrightarrow> h' b = h b" "dom h' = dom h - (addrs ds - addrs ds')"
      using Cons.IH [OF _ _ xs1(1), of "cs @ [c]"] Cons.prems(1,2) by (auto simp del: dlseg_append)
    have "cancelIn_h h head (first (c # ds)) i fd = Some (found, h', head')"
      using False n IH(1) by (subst cancelIn_h.simps) (auto simp: fc)
    moreover have "dom h' = dom h - (addrs (c # ds) - addrs (c # ds'))"
      using IH(6) a c by auto
    ultimately show ?thesis
      using IH xs1(2) c by (intro exI [of _ h'] exI [of _ head'] exI [of _ "c # ds'"]) (simp del: dlseg_append)
  qed
qed

lemma cancelLists_refines:
  assumes "represents (h, book) b" and "cancelLists rs b i fd = (found, b')" and "distinct rs"
  shows "\<exists>h' book'. cancelLists_h rs h book i fd = Some (found, h', book') \<and> represents (h', book') b'"
  using assms
proof (induction rs arbitrary: h book)
  case (Cons r rs)
  obtain A where A: "book_rel A h book" "\<And>r. get_list b r = map snd (A r)"
    using Cons.prems(1) by (auto simp: represents_def)
  note R = book_relD [OF A(1)]
  obtain f xs where ci: "cancelIn (map snd (A r)) i fd = (f, xs)" by fastforce
  obtain h' head' ds where c: "cancelIn_h h (get_list book r) (first (A r)) i fd = Some (f, h', head')"
      "dlseg h' None head' ds None" "map snd ds = xs" "subseq (map fst ds) (map fst (A r))"
      "\<forall>b. b \<notin> addrs (A r) \<longrightarrow> h' b = h b" "dom h' = dom h - (addrs (A r) - addrs ds)"
    using cancelIn_refines [of h "get_list book r" "[]" "A r", OF _ _ ci] R(1,2) by auto
  have sub: "addrs ds \<subseteq> addrs (A r)" "distinct (map fst ds)"
    using subseq_set_mono [OF c(4)] subseq_distinct [OF c(4)] R(2) by auto
  have rel: "book_rel (A(r := ds)) h' (set_list book r head')"
  proof (rule book_rel_change [OF A(1) c(2), where N = "{}"])
    show "dom h' = dom h - addrs (A r) \<union> addrs ds"
      unfolding c(6) using sub(1) R(5) [of r] by blast
  qed (use c(5) sub in auto)
  have fst: "first (A r) = get_list book r"
    using dlseg_first R(1) by metis
  show ?case
  proof (cases f)
    case True
    with Cons.prems(2) ci have "found" "b' = set_list b r xs" by (auto simp: A(2))
    moreover have "represents (h', set_list book r head') (set_list b r xs)"
      unfolding represents_def using rel c(3) A(2) by (intro exI [of _ "A(r := ds)"]) auto
    ultimately show ?thesis
      using True c(1) fst by auto
  next
    case False
    have "xs = map snd (A r)"
      using ci False cancelIn_not_found by simp
    then have "represents (h', set_list book r head') b"
      unfolding represents_def using rel c(3) A(2) by (intro exI [of _ "A(r := ds)"]) auto
    with Cons.IH Cons.prems(2,3) False ci A(2) c(1) fst show ?thesis
      by auto
  qed
qed simp

lemma cancel_refines:
  assumes "represents (h, book) b" and "cancelOrder b i fd = (found, b')"
  shows "\<exists>h' book'. cancelOrder_h h book i fd = Some (found, h', book') \<and> represents (h', book') b'"
  using cancelLists_refines [OF assms(1) assms(2) [unfolded cancelOrder_def]] by (simp add: cancelOrder_h_def)

section \<open>Runs of book operations\<close>

text \<open>
  The interface for data refinement: an implementation of the book over states \<open>'s\<close>, related to the
  lists by \<open>rep\<close>. Its client is a run of operations; the runs agree in every output.
\<close>

datatype book_op = Add mem Order | Cancel int int | Detach int

datatype book_out = Added "Fill list" mem | Cancelled bool | Detached

fun book_step ::
  "(mem \<Rightarrow> 's \<Rightarrow> Order \<Rightarrow> (Fill list \<times> 's \<times> mem) option) \<Rightarrow> ('s \<Rightarrow> int \<Rightarrow> int \<Rightarrow> (bool \<times> 's) option) \<Rightarrow>
   ('s \<Rightarrow> int \<Rightarrow> 's option) \<Rightarrow> book_op \<Rightarrow> 's \<Rightarrow> (book_out \<times> 's) option" where
  "book_step add cancel detach (Add m ord) s =
     do { (fills, s', m') \<leftarrow> add m s ord; Some (Added fills m', s') }"
| "book_step add cancel detach (Cancel i fd) s =
     do { (found, s') \<leftarrow> cancel s i fd; Some (Cancelled found, s') }"
| "book_step add cancel detach (Detach fd) s =
     do { s' \<leftarrow> detach s fd; Some (Detached, s') }"

fun book_run ::
  "(mem \<Rightarrow> 's \<Rightarrow> Order \<Rightarrow> (Fill list \<times> 's \<times> mem) option) \<Rightarrow> ('s \<Rightarrow> int \<Rightarrow> int \<Rightarrow> (bool \<times> 's) option) \<Rightarrow>
   ('s \<Rightarrow> int \<Rightarrow> 's option) \<Rightarrow> book_op list \<Rightarrow> 's \<Rightarrow> (book_out list \<times> 's) option" where
  "book_run add cancel detach [] s = Some ([], s)"
| "book_run add cancel detach (oper # opers) s =
     do { (out, s1) \<leftarrow> book_step add cancel detach oper s;
          (outs, s2) \<leftarrow> book_run add cancel detach opers s1;
          Some (out # outs, s2) }"

abbreviation list_step :: "book_op \<Rightarrow> Order list LimitOrderBook \<Rightarrow> (book_out \<times> Order list LimitOrderBook) option" where
  "list_step \<equiv> book_step (\<lambda>m b ord. Some (addOrder m b ord)) (\<lambda>b i fd. Some (cancelOrder b i fd))
     (\<lambda>b fd. Some (detachClientOrders b fd))"

abbreviation list_run :: "book_op list \<Rightarrow> Order list LimitOrderBook \<Rightarrow> (book_out list \<times> Order list LimitOrderBook) option" where
  "list_run \<equiv> book_run (\<lambda>m b ord. Some (addOrder m b ord)) (\<lambda>b i fd. Some (cancelOrder b i fd))
     (\<lambda>b fd. Some (detachClientOrders b fd))"

lemma list_step_total: "\<exists>out b'. list_step oper b = Some (out, b')"
  by (cases oper) (simp_all split: prod.split)

lemma list_run_total: "\<exists>outs b'. list_run opers b = Some (outs, b')"
proof (induction opers arbitrary: b)
  case (Cons oper opers)
  obtain out b1 where "list_step oper b = Some (out, b1)"
    using list_step_total by blast
  with Cons.IH [of b1] show ?case by auto
qed simp

locale book_impl =
  fixes rep :: "'s \<Rightarrow> Order list LimitOrderBook \<Rightarrow> bool"
    and add_i :: "mem \<Rightarrow> 's \<Rightarrow> Order \<Rightarrow> (Fill list \<times> 's \<times> mem) option"
    and cancel_i :: "'s \<Rightarrow> int \<Rightarrow> int \<Rightarrow> (bool \<times> 's) option"
    and detach_i :: "'s \<Rightarrow> int \<Rightarrow> 's option"
  assumes add_sim: "rep s b \<Longrightarrow> addOrder m b ord = (fills, b', m') \<Longrightarrow> \<exists>s'. add_i m s ord = Some (fills, s', m') \<and> rep s' b'"
    and cancel_sim: "rep s b \<Longrightarrow> cancelOrder b i fd = (found, b') \<Longrightarrow> \<exists>s'. cancel_i s i fd = Some (found, s') \<and> rep s' b'"
    and detach_sim: "rep s b \<Longrightarrow> \<exists>s'. detach_i s fd = Some s' \<and> rep s' (detachClientOrders b fd)"
begin

lemma step_sim:
  assumes "rep s b"
    and "list_step oper b = Some (out, b')"
  shows "\<exists>s'. book_step add_i cancel_i detach_i oper s = Some (out, s') \<and> rep s' b'"
proof (cases oper)
  case (Add m ord)
  with assms(2) add_sim [OF assms(1)] show ?thesis
    by (fastforce split: prod.splits)
next
  case (Cancel i fd)
  with assms(2) cancel_sim [OF assms(1)] show ?thesis
    by (fastforce split: prod.splits)
next
  case (Detach fd)
  with assms(2) detach_sim [OF assms(1), of fd] show ?thesis
    by auto
qed

lemma run_sim:
  "rep s b \<Longrightarrow> list_run opers b = Some (outs, b') \<Longrightarrow>
   \<exists>s'. book_run add_i cancel_i detach_i opers s = Some (outs, s') \<and> rep s' b'"
proof (induction opers arbitrary: s b outs)
  case (Cons oper opers)
  obtain out b1 where st: "list_step oper b = Some (out, b1)"
    and "\<exists>os. list_run opers b1 = Some (os, b') \<and> outs = out # os"
    using Cons.prems(2) by (auto simp: bind_eq_Some_conv)
  with Cons.IH step_sim [OF Cons.prems(1) st] show ?case
    by fastforce
qed simp

end

section \<open>The heap implements the book\<close>

definition add_cell ::
  "(heap \<Rightarrow> addr) \<Rightarrow> mem \<Rightarrow> heap \<times> addr option LimitOrderBook \<Rightarrow> Order \<Rightarrow> (Fill list \<times> (heap \<times> addr option LimitOrderBook) \<times> mem) option" where
  "add_cell calloc m s ord = do {
     let a = calloc (fst s);
     (fills, h', book', m') \<leftarrow> addOrder_h m ((fst s)(a \<mapsto> \<lparr>next_ptr = None, prev_ptr = None, data = ord\<rparr>)) (snd s) a;
     Some (fills, (h', book'), m')
   }"

definition cancel_cell ::
  "heap \<times> addr option LimitOrderBook \<Rightarrow> int \<Rightarrow> int \<Rightarrow> (bool \<times> heap \<times> addr option LimitOrderBook) option" where
  "cancel_cell s i fd = cancelOrder_h (fst s) (snd s) i fd"

definition detach_cell :: "heap \<times> addr option LimitOrderBook \<Rightarrow> int \<Rightarrow> (heap \<times> addr option LimitOrderBook) option" where
  "detach_cell s fd = map_option (\<lambda>h'. (h', snd s)) (detachClientOrders_h (fst s) (snd s) fd)"

text \<open>The allocator as the C library documents it: the cell it returns is not in use.\<close>

locale allocator =
  fixes calloc :: "heap \<Rightarrow> addr"
  assumes fresh: "finite (dom h) \<Longrightarrow> calloc h \<notin> dom h"

sublocale allocator \<subseteq> cells: book_impl represents "add_cell calloc" cancel_cell detach_cell
proof unfold_locales
  fix s b m ord fills b' m'
  assume r: "represents s b" and a: "addOrder m b ord = (fills, b', m')"
  obtain h book where s: "s = (h, book)" by fastforce
  have "calloc h \<notin> dom h"
    using r s book_rel_finite by (intro fresh) (auto simp: represents_def)
  with addOrder_refines [OF r [unfolded s] _ a] show "\<exists>s'. add_cell calloc m s ord = Some (fills, s', m') \<and> represents s' b'"
    by (fastforce simp: add_cell_def s Let_def)
next
  fix s b i fd found b'
  assume "represents s b" and "cancelOrder b i fd = (found, b')"
  then show "\<exists>s'. cancel_cell s i fd = Some (found, s') \<and> represents s' b'"
    using cancel_refines [of "fst s" "snd s"] by (fastforce simp: cancel_cell_def)
next
  fix s b fd
  assume "represents s b"
  then show "\<exists>s'. detach_cell s fd = Some s' \<and> represents s' (detachClientOrders b fd)"
    using detach_refines [of "fst s" "snd s"] by (fastforce simp: detach_cell_def)
qed

definition first_free :: "heap \<Rightarrow> addr" where
  "first_free h = (LEAST a. a \<notin> dom h)"

interpretation least: allocator first_free
proof unfold_locales
  fix h :: heap
  assume "finite (dom h)"
  then have "\<exists>a. a \<notin> dom h"
    using ex_new_if_finite infinite_UNIV_nat by blast
  then show "first_free h \<notin> dom h"
    unfolding first_free_def by (rule LeastI_ex)
qed

lemma represents_init: "represents (Map.empty, initOrderbook_h) initOrderbook"
proof -
  have "get_list initOrderbook_h r = None" "get_list (initOrderbook :: Order list LimitOrderBook) r = []" for r
    by (cases r; simp add: initOrderbook_h_def initOrderbook_def)+
  then show ?thesis
    unfolding represents_def book_rel_def by (intro exI [of _ "\<lambda>_. []"]) simp
qed

lemma represents_card:
  assumes "represents (h, book) b"
  shows "card (dom h) = length (resting b)"
proof -
  obtain A where A: "book_rel A h book" and b: "\<And>r. get_list b r = map snd (A r)"
    using assms by (auto simp: represents_def)
  note R = book_relD [OF A]
  have "card (addrs (A r)) = length (A r)" for r
    using distinct_card [OF R(2) [of r]] by simp
  moreover have "card (dom h) = (\<Sum>r \<in> UNIV. card (addrs (A r)))"
    unfolding R(4) using R(3) by (intro card_UN_disjoint) auto
  moreover have "length (get_list b r) = length (A r)" for r
    by (simp add: b)
  from this [of JnstBuy] this [of JnstSell] this [of ImctBuy] this [of ImctSell]
  have "length (resting b) = length (A JnstBuy) + length (A JnstSell) + length (A ImctBuy) + length (A ImctSell)"
    by (simp add: resting_def enum_list_ref_def)
  ultimately show ?thesis
    by (simp add: all_refs [symmetric])
qed

context allocator begin

lemma run_represents:
  obtains outs h' book' b' where "book_run (add_cell calloc) cancel_cell detach_cell opers (Map.empty, initOrderbook_h) = Some (outs, h', book')"
    and "list_run opers initOrderbook = Some (outs, b')" and "represents (h', book') b'"
proof -
  obtain outs b' where l: "list_run opers initOrderbook = Some (outs, b')"
    using list_run_total by blast
  from cells.run_sim [OF represents_init this] that [OF _ l] show thesis
    by auto
qed

end

section \<open>Properties of the heap\<close>

text \<open>
  C7. Any sequence of book operations on the heap, from the empty book, is free of memory errors,
  ends, leaks no cell and gives the outputs of the list model.
\<close>

theorem heap_run_safe:
  assumes "\<And>h. finite (dom h) \<Longrightarrow> calloc h \<notin> dom h"
  shows "\<exists>outs h' book' b'.
    book_run (add_cell calloc) cancel_cell detach_cell opers (Map.empty, initOrderbook_h) = Some (outs, h', book') \<and>
    list_run opers initOrderbook = Some (outs, b') \<and> represents (h', book') b' \<and> card (dom h') = length (resting b')"
proof -
  have "allocator calloc"
    using assms by (rule allocator.intro)
  then show ?thesis
    by (rule allocator.run_represents [of calloc opers]) (auto dest: represents_card)
qed

theorem heap_run_safe_witness:
  "\<exists>outs h' book' b'.
    book_run (add_cell first_free) cancel_cell detach_cell [Add [] sample_order, Cancel 4 7, Detach 7] (Map.empty, initOrderbook_h) =
      Some (outs, h', book') \<and>
    list_run [Add [] sample_order, Cancel 4 7, Detach 7] initOrderbook = Some (outs, b') \<and>
    represents (h', book') b' \<and> card (dom h') = length (resting b')"
  by (rule heap_run_safe) (rule least.fresh)

text \<open>
  C8. addOrder on a heap that holds a book gives the fills and the book of the list function, and
  exactly the resting orders stay allocated.
\<close>

theorem heap_addOrder_implements:
  assumes "represents (h, book) b" and "a \<notin> dom h" and "addOrder m b ord = (fills, b', m')"
  shows "\<exists>h' book'. addOrder_h m (h(a \<mapsto> \<lparr>next_ptr = None, prev_ptr = None, data = ord\<rparr>)) book a = Some (fills, h', book', m') \<and>
    represents (h', book') b' \<and> card (dom h') = length (resting b')"
  using addOrder_refines [OF assms] represents_card by blast

theorem heap_addOrder_implements_witness:
  "\<exists>h' book'. addOrder_h [] (Map.empty(0 \<mapsto> \<lparr>next_ptr = None, prev_ptr = None, data = sample_order\<rparr>)) initOrderbook_h 0 =
      Some ([], h', book', []) \<and> card (dom h') = 1"
proof -
  have a: "addOrder [] initOrderbook sample_order = ([], initOrderbook\<lparr>jnst_buy_orders := [sample_order]\<rparr>, [])"
    by code_simp
  have "length (resting (initOrderbook\<lparr>jnst_buy_orders := [sample_order]\<rparr>)) = 1"
    by code_simp
  then show ?thesis
    using heap_addOrder_implements [OF represents_init _ a, of 0] by auto
qed

text \<open>
  C9. cancelOrder and detachClientOrders on a heap that holds a book do what the list functions do.
\<close>

theorem heap_removal_implements:
  assumes "represents (h, book) b"
  shows "(\<exists>h' book'. cancelOrder_h h book i fd = Some (fst (cancelOrder b i fd), h', book') \<and>
      represents (h', book') (snd (cancelOrder b i fd))) \<and>
    (\<exists>h'. detachClientOrders_h h book fd = Some h' \<and> represents (h', book) (detachClientOrders b fd))"
  using cancel_refines [OF assms surjective_pairing] detach_refines [OF assms] by blast

theorem heap_removal_implements_witness:
  "\<exists>h' book'. cancelOrder_h Map.empty initOrderbook_h 1 5 = Some (fst (cancelOrder initOrderbook 1 5), h', book')"
  using heap_removal_implements [OF represents_init, of 1 5] by blast

end
