(* ===== verification/C_Text.thy ===== *)
theory C_Text
  imports Exchange_Prelude
begin

text \<open>
  The parts of the C library's string handling that the program uses: character classes, decimal
  output (\<open>%d\<close>), \<open>snprintf\<close>'s truncation, \<open>strtol\<close> in base 10, \<open>memchr\<close>, and the one \<open>sscanf\<close> format
  of the server. A C string is its contents, a HOL string without the terminator.
\<close>

section \<open>Characters\<close>

abbreviation NUL :: char where "NUL \<equiv> CHR 0x00"
abbreviation NL :: char where "NL \<equiv> CHR 0x0A"
abbreviation CR :: char where "CR \<equiv> CHR 0x0D"

definition isspace :: "char \<Rightarrow> bool" where
  "isspace c \<longleftrightarrow> c \<in> {CHR '' '', CHR 0x09, CHR 0x0A, CHR 0x0B, CHR 0x0C, CHR 0x0D}"

definition digit_value :: "char \<Rightarrow> int" where
  "digit_value c = int (of_char c) - 48"

definition isdigit :: "char \<Rightarrow> bool" where
  "isdigit c \<longleftrightarrow> 0 \<le> digit_value c \<and> digit_value c \<le> 9"

text \<open>The C string that starts at the front of a buffer: everything before the first \<open>NUL\<close>.\<close>

definition cstr :: "string \<Rightarrow> string" where
  "cstr buf = takeWhile (\<lambda>c. c \<noteq> NUL) buf"

definition snprintf :: "nat \<Rightarrow> string \<Rightarrow> string" where
  "snprintf sz text = take (sz - 1) text"

text \<open>\<open>memchr (buf + from, c, len - from)\<close>: the index of the first \<open>c\<close> at or after \<open>from\<close>.\<close>

fun index_of :: "char \<Rightarrow> string \<Rightarrow> nat option" where
  "index_of c [] = None"
| "index_of c (x # xs) = (if x = c then Some 0 else map_option Suc (index_of c xs))"

definition memchr :: "string \<Rightarrow> nat \<Rightarrow> char \<Rightarrow> nat option" where
  "memchr buf start c = map_option (\<lambda>k. start + k) (index_of c (drop start buf))"

section \<open>Decimal output\<close>

fun show_nat :: "nat \<Rightarrow> string" where
  "show_nat n = (if n < 10 then [char_of (n + 48)] else show_nat (n div 10) @ [char_of (n mod 10 + 48)])"

declare show_nat.simps [simp del]

definition show_int :: "int \<Rightarrow> string" where
  "show_int i = (if i < 0 then CHR ''-'' # show_nat (nat (- i)) else show_nat (nat i))"

section \<open>Decimal input\<close>

definition digits_value :: "string \<Rightarrow> int" where
  "digits_value ds = foldl (\<lambda>v c. 10 * v + digit_value c) 0 ds"

text \<open>
  The subject sequence of \<open>strtol\<close> and \<open>%d\<close>: white space, an optional sign, digits. The result is
  the value and the rest, \<open>None\<close> when there are no digits.
\<close>

definition scan_number :: "string \<Rightarrow> (int \<times> string) option" where
  "scan_number s =
     (let s1 = dropWhile isspace s;
          neg = (s1 \<noteq> [] \<and> hd s1 = CHR ''-'');
          s2 = (if s1 \<noteq> [] \<and> (hd s1 = CHR ''-'' \<or> hd s1 = CHR ''+'') then tl s1 else s1);
          ds = takeWhile isdigit s2
      in if ds = [] then None
         else Some (if neg then - digits_value ds else digits_value ds, dropWhile isdigit s2))"

text \<open>\<open>strtol (s, &end, 10)\<close>: the value, saturated to \<open>long\<close>, and the string at \<open>end\<close>.\<close>

definition strtol :: "string \<Rightarrow> int \<times> string" where
  "strtol s = (case scan_number s of None \<Rightarrow> (0, s) | Some (v, rest) \<Rightarrow> (clamp_long v, rest))"

text \<open>
  \<open>%159s\<close> and \<open>%d\<close>. ISO C leaves \<open>%d\<close> undefined for a number out of range; FreeBSD's \<open>vfscanf\<close>
  converts with \<open>strtoimax\<close>, which saturates at 64 bits, and stores the result into an \<open>int\<close>.
\<close>

definition scan_word :: "nat \<Rightarrow> string \<Rightarrow> (string \<times> string) option" where
  "scan_word width s =
     (let s1 = dropWhile isspace s; w = take width (takeWhile (\<lambda>c. \<not> isspace c) s1)
      in if w = [] then None else Some (w, drop (length w) s1))"

definition scan_int :: "string \<Rightarrow> (int \<times> string) option" where
  "scan_int s = map_option (\<lambda>(v, rest). (to_int32 (clamp_long v), rest)) (scan_number s)"

text \<open>
  \<open>sscanf (line, "%159s %159s %d %d", cmd, arg, &quantity, &price)\<close>: the constructor says how many
  conversions were stored (with none, the return value is 0 or \<open>EOF\<close>; the server only asks if it is
  below 1). A variable that was not stored is not initialised; the server does not read it.
\<close>

datatype scanned = Scan0 | Scan1 string | Scan2 string string | Scan3 string string int | Scan4 string string int int

definition sscanf_line :: "string \<Rightarrow> scanned" where
  "sscanf_line line =
     (case scan_word 159 line of
        None \<Rightarrow> Scan0
      | Some (cmd, s1) \<Rightarrow>
          (case scan_word 159 s1 of
             None \<Rightarrow> Scan1 cmd
           | Some (arg, s2) \<Rightarrow>
               (case scan_int s2 of
                  None \<Rightarrow> Scan2 cmd arg
                | Some (quantity, s3) \<Rightarrow>
                    (case scan_int s3 of
                       None \<Rightarrow> Scan3 cmd arg quantity
                     | Some (price, s4) \<Rightarrow> Scan4 cmd arg quantity price))))"

fun matched :: "scanned \<Rightarrow> int" where
  "matched Scan0 = 0"
| "matched (Scan1 c) = 1"
| "matched (Scan2 c a) = 2"
| "matched (Scan3 c a q) = 3"
| "matched (Scan4 c a q p) = 4"

fun scan_cmd :: "scanned \<Rightarrow> string" where
  "scan_cmd (Scan1 c) = c"
| "scan_cmd (Scan2 c a) = c"
| "scan_cmd (Scan3 c a q) = c"
| "scan_cmd (Scan4 c a q p) = c"
| "scan_cmd Scan0 = []"

fun scan_arg :: "scanned \<Rightarrow> string" where
  "scan_arg (Scan2 c a) = a"
| "scan_arg (Scan3 c a q) = a"
| "scan_arg (Scan4 c a q p) = a"
| "scan_arg (Scan0) = []"
| "scan_arg (Scan1 c) = []"

fun scan_quantity :: "scanned \<Rightarrow> int" where
  "scan_quantity (Scan3 c a q) = q"
| "scan_quantity (Scan4 c a q p) = q"
| "scan_quantity sc = 0"

fun scan_price :: "scanned \<Rightarrow> int" where
  "scan_price (Scan4 c a q p) = p"
| "scan_price sc = 0"

section \<open>Output and input are inverse\<close>

lemma digit_value_char: "d < 10 \<Longrightarrow> digit_value (char_of (d + 48 :: nat)) = int d"
  by (simp add: digit_value_def of_char_of)

lemma isdigit_char: "d < 10 \<Longrightarrow> isdigit (char_of (d + 48 :: nat))"
  by (simp add: isdigit_def digit_value_char)

lemma isdigit_not_space: "isdigit c \<Longrightarrow> \<not> isspace c"
  by (auto simp: isdigit_def digit_value_def isspace_def)

lemma show_nat_digits: "list_all isdigit (show_nat n)"
proof (induction n rule: show_nat.induct)
  case (1 n)
  then show ?case
    by (subst show_nat.simps) (auto simp: isdigit_char)
qed

lemma show_nat_nonempty [simp]: "show_nat n \<noteq> []"
  by (subst show_nat.simps) simp

lemma digits_value_snoc: "digits_value (ds @ [c]) = 10 * digits_value ds + digit_value c"
  by (simp add: digits_value_def)

lemma digits_value_show: "digits_value (show_nat n) = int n"
proof (induction n rule: show_nat.induct)
  case (1 n)
  show ?case
  proof (cases "n < 10")
    case True
    then show ?thesis
      by (subst show_nat.simps) (simp add: digits_value_def digit_value_char)
  next
    case False
    then have "digits_value (show_nat n) = 10 * int (n div 10) + int (n mod 10)"
      using 1 by (subst show_nat.simps) (simp add: digits_value_snoc digit_value_char)
    also have "\<dots> = int n"
      using mult_div_mod_eq [of 10 n] by linarith
    finally show ?thesis .
  qed
qed

lemma takeWhile_all_append: "list_all P xs \<Longrightarrow> (ys = [] \<or> \<not> P (hd ys)) \<Longrightarrow>
    takeWhile P (xs @ ys) = xs \<and> dropWhile P (xs @ ys) = ys"
  by (induction xs) (cases ys; auto)+

lemma show_int_hd: "hd (show_int v) = CHR ''-'' \<or> isdigit (hd (show_int v))"
  using show_nat_digits show_nat_nonempty
  by (auto simp: show_int_def list_all_iff) (metis hd_in_set show_nat_nonempty)

lemma show_int_nonempty [simp]: "show_int v \<noteq> []"
  by (simp add: show_int_def)

lemma scan_number_show:
  assumes "rest = [] \<or> \<not> isdigit (hd rest)" and "list_all isspace sp"
  shows "scan_number (sp @ show_int v @ rest) = Some (v, rest)"
proof -
  have "\<not> isspace (hd (show_int v @ rest))"
    using show_int_hd [of v] isdigit_not_space by (auto simp: isspace_def)
  then have s1: "dropWhile isspace (sp @ show_int v @ rest) = show_int v @ rest"
    using takeWhile_all_append [OF assms(2), of "show_int v @ rest"] by simp
  note t = takeWhile_all_append [OF show_nat_digits assms(1)]
  show ?thesis
  proof (cases "v < 0")
    case True
    with s1 t [of "nat (- v)"] show ?thesis
      by (simp add: scan_number_def show_int_def digits_value_show)
  next
    case False
    have "hd (show_nat (nat v) @ rest) \<noteq> CHR ''-'' \<and> hd (show_nat (nat v) @ rest) \<noteq> CHR ''+''"
      using show_nat_digits [of "nat v"] show_nat_nonempty [of "nat v"]
      by (cases "show_nat (nat v)") (auto simp: isdigit_def digit_value_def)
    with False s1 t [of "nat v"] show ?thesis
      by (simp add: scan_number_def show_int_def digits_value_show Let_def)
  qed
qed

definition token :: "string \<Rightarrow> bool" where
  "token w \<longleftrightarrow> w \<noteq> [] \<and> list_all (\<lambda>c. \<not> isspace c) w \<and> length w \<le> 159"

lemma scan_word_token:
  assumes "token w" and "list_all isspace sp" and "rest = [] \<or> isspace (hd rest)"
  shows "scan_word 159 (sp @ w @ rest) = Some (w, rest)"
proof -
  have w: "w \<noteq> []" "list_all (\<lambda>c. \<not> isspace c) w" "length w \<le> 159"
    using assms(1) by (auto simp: token_def)
  then have "\<not> isspace (hd (w @ rest))"
    by (cases w) auto
  then have "dropWhile isspace (sp @ w @ rest) = w @ rest"
    using takeWhile_all_append [OF assms(2), of "w @ rest"] by simp
  with w assms(3) takeWhile_all_append [OF w(2), of rest] show ?thesis
    by (auto simp: scan_word_def Let_def)
qed

lemma drop_blank: "list_all isspace sp \<Longrightarrow> dropWhile isspace sp = []"
  by (simp add: list_all_iff)

lemma scan_word_blank: "list_all isspace sp \<Longrightarrow> scan_word 159 sp = None"
  by (simp add: scan_word_def drop_blank Let_def)

lemma scan_int_blank: "list_all isspace sp \<Longrightarrow> scan_int sp = None"
  by (simp add: scan_int_def scan_number_def drop_blank Let_def)

lemma isspace_blank [simp]: "isspace CHR '' ''" "\<not> isdigit CHR '' ''"
  by (auto simp: isspace_def isdigit_def digit_value_def)

definition int32 :: "int \<Rightarrow> bool" where
  "int32 v \<longleftrightarrow> - 2147483648 \<le> v \<and> v \<le> INT_MAX"

lemma scan_int_show:
  assumes "rest = [] \<or> \<not> isdigit (hd rest)" and "list_all isspace sp" and "int32 v"
  shows "scan_int (sp @ show_int v @ rest) = Some (v, rest)"
  using scan_number_show [OF assms(1,2), of v] assms(3)
  by (simp add: scan_int_def int32_def clamp_long_id to_int32_id)

lemma sscanf_one: "token w \<Longrightarrow> sscanf_line w = Scan1 w"
  using scan_word_token [of w "[]" "[]"] by (simp add: sscanf_line_def scan_word_blank)

lemma sscanf_two: "token w \<Longrightarrow> token a \<Longrightarrow> sscanf_line (w @ '' '' @ a) = Scan2 w a"
  using scan_word_token [of w "[]" "'' '' @ a"] scan_word_token [of a "'' ''" "[]"]
  by (simp add: sscanf_line_def scan_int_blank)

lemma sscanf_four:
  assumes "token w" and "token a" and "int32 q" and "int32 p" and "rest = [] \<or> \<not> isdigit (hd rest)"
  shows "sscanf_line (w @ '' '' @ a @ '' '' @ show_int q @ '' '' @ show_int p @ rest) = Scan4 w a q p"
  using scan_word_token [OF assms(1), of "[]" "'' '' @ a @ '' '' @ show_int q @ '' '' @ show_int p @ rest"]
    scan_word_token [OF assms(2), of "'' ''" "'' '' @ show_int q @ '' '' @ show_int p @ rest"]
    scan_int_show [of "'' '' @ show_int p @ rest" "'' ''" q] scan_int_show [of rest "'' ''" p] assms
  by (simp add: sscanf_line_def)

lemma strtol_show: "int32 v \<Longrightarrow> strtol (show_int v) = (v, [])"
  using scan_number_show [of "[]" "[]" v] by (simp add: strtol_def int32_def clamp_long_id)

text \<open>The texts that are read to their end as a positive number.\<close>

definition decimal :: "string \<Rightarrow> int \<Rightarrow> bool" where
  "decimal t n \<longleftrightarrow>
     (\<exists>sp sg ds. t = sp @ sg @ ds \<and> list_all isspace sp \<and> (sg = [] \<or> sg = ''+'') \<and> ds \<noteq> [] \<and> list_all isdigit ds \<and>
        n = digits_value ds)"

lemma digits_value_nonneg: "list_all isdigit ds \<Longrightarrow> 0 \<le> digits_value ds"
  by (induction ds rule: rev_induct) (auto simp: digits_value_snoc isdigit_def, simp add: digits_value_def)

lemma scan_number_decimal: "decimal t n \<Longrightarrow> scan_number t = Some (n, [])"
proof -
  assume "decimal t n"
  then obtain sp sg ds where d: "t = sp @ sg @ ds" "list_all isspace sp" "sg = [] \<or> sg = ''+''" "ds \<noteq> []" "list_all isdigit ds"
    "n = digits_value ds"
    by (auto simp: decimal_def)
  have hd: "isdigit (hd ds)"
    using d(4,5) by (cases ds) auto
  then have nhd: "\<not> isspace (hd ds)" "hd ds \<noteq> CHR ''-''" "hd ds \<noteq> CHR ''+''"
    using isdigit_not_space by (auto simp: isdigit_def digit_value_def)
  have "\<not> isspace (hd (sg @ ds))"
    using d(3) nhd(1) by (auto simp: isspace_def)
  then have s1: "dropWhile isspace t = sg @ ds"
    using takeWhile_all_append [OF d(2), of "sg @ ds"] d(1) by simp
  have tk: "takeWhile isdigit ds = ds" "dropWhile isdigit ds = []"
    using takeWhile_all_append [OF d(5), of "[]"] by simp_all
  show ?thesis
    using d(3) unfolding scan_number_def Let_def s1
    by (elim disjE) (simp_all add: nhd d(4,6) tk)
qed

lemma scan_number_positive:
  assumes "scan_number t = Some (n, [])" and "0 < n"
  shows "decimal t n"
proof -
  define s1 where "s1 = dropWhile isspace t"
  define sg where "sg = (if s1 \<noteq> [] \<and> (hd s1 = CHR ''-'' \<or> hd s1 = CHR ''+'') then [hd s1] else [])"
  define s2 where "s2 = (if s1 \<noteq> [] \<and> (hd s1 = CHR ''-'' \<or> hd s1 = CHR ''+'') then tl s1 else s1)"
  have t: "t = takeWhile isspace t @ sg @ s2"
    by (auto simp: s1_def sg_def s2_def)
  have "(if takeWhile isdigit s2 = [] then None
      else Some (if s1 \<noteq> [] \<and> hd s1 = CHR ''-'' then - digits_value (takeWhile isdigit s2) else digits_value (takeWhile isdigit s2),
        dropWhile isdigit s2)) = Some (n, [])"
    using assms(1) unfolding scan_number_def Let_def s2_def s1_def .
  then have scan: "takeWhile isdigit s2 \<noteq> []" "dropWhile isdigit s2 = []"
    "n = (if s1 \<noteq> [] \<and> hd s1 = CHR ''-'' then - digits_value (takeWhile isdigit s2) else digits_value (takeWhile isdigit s2))"
    by (auto split: if_splits)
  have all: "takeWhile isdigit s2 = s2"
    using scan(2) takeWhile_dropWhile_id [of isdigit s2] by simp
  then have dig: "list_all isdigit s2"
    using set_takeWhileD [of _ isdigit s2] by (auto simp: list_all_iff)
  then have "\<not> (s1 \<noteq> [] \<and> hd s1 = CHR ''-'')"
    using scan(3) digits_value_nonneg [OF dig] assms(2) unfolding all by (auto split: if_splits)
  then have "sg = [] \<or> sg = ''+''" "n = digits_value s2"
    using scan(3) unfolding all by (auto simp: sg_def)
  moreover have "list_all isspace (takeWhile isspace t)"
    using set_takeWhileD [of _ isspace t] by (auto simp: list_all_iff)
  ultimately show ?thesis
    using t dig scan(1) all unfolding decimal_def by metis
qed

section \<open>Lengths\<close>

lemma length_show_nat: "n < 10 ^ k \<Longrightarrow> 0 < k \<Longrightarrow> length (show_nat n) \<le> k"
proof (induction n arbitrary: k rule: show_nat.induct)
  case (1 n)
  show ?case
  proof (cases "n < 10")
    case True
    with 1 show ?thesis by (subst show_nat.simps) simp
  next
    case False
    obtain j where k: "k = Suc j"
      using "1.prems"(2) by (cases k) auto
    with False "1.prems"(1) have "n div 10 < 10 ^ j" "0 < j"
      by (auto simp: less_mult_imp_div_less mult.commute intro: gr0I)
    then have "length (show_nat (n div 10)) \<le> j"
      using "1.IH" False by blast
    with False k show ?thesis by (subst show_nat.simps) simp
  qed
qed

lemma length_show_int: "int32 v \<Longrightarrow> length (show_int v) \<le> 11"
proof -
  assume v: "int32 v"
  have "length (show_nat (nat v)) \<le> 10" "length (show_nat (nat (- v))) \<le> 10"
    using v by (auto intro!: length_show_nat simp: int32_def INT_MAX_def)
  then show ?thesis by (simp add: show_int_def)
qed

lemma index_of_Some: "index_of c xs = Some k \<longleftrightarrow> k < length xs \<and> xs ! k = c \<and> (\<forall>j < k. xs ! j \<noteq> c)"
proof (induction xs arbitrary: k)
  case (Cons x xs)
  then show ?case
    by (cases k) (auto simp: less_Suc_eq_0_disj all_conj_distrib)
qed simp

lemma index_of_None: "index_of c xs = None \<longleftrightarrow> c \<notin> set xs"
  by (induction xs) auto

lemma memchr_Some:
  "start \<le> length buf \<Longrightarrow>
   memchr buf start c = Some k \<longleftrightarrow> start \<le> k \<and> k < length buf \<and> buf ! k = c \<and> (\<forall>j. start \<le> j \<and> j < k \<longrightarrow> buf ! j \<noteq> c)"
proof -
  assume le: "start \<le> length buf"
  have "memchr buf start c = Some k \<longleftrightarrow> start \<le> k \<and> index_of c (drop start buf) = Some (k - start)"
    by (auto simp: memchr_def)
  also have "\<dots> \<longleftrightarrow> start \<le> k \<and> k < length buf \<and> buf ! k = c \<and> (\<forall>j < k - start. buf ! (start + j) \<noteq> c)"
    using le by (auto simp: index_of_Some)
  also have "\<dots> \<longleftrightarrow> start \<le> k \<and> k < length buf \<and> buf ! k = c \<and> (\<forall>j. start \<le> j \<and> j < k \<longrightarrow> buf ! j \<noteq> c)"
    by (metis add_diff_inverse_nat add_diff_cancel_left' diff_less_mono le_add1 less_diff_conv2 not_less add.commute)
  finally show ?thesis .
qed

lemma memchr_None: "memchr buf start c = None \<longleftrightarrow> c \<notin> set (drop start buf)"
  by (simp add: memchr_def index_of_None)

end
