(* ===== verification/Os.thy ===== *)
theory Os
  imports C_Text "HOL-Library.Word"
begin

text \<open>
  The operating system as the program sees it. Each kind of system call has a script of answers,
  one entry for each call; the effects the calls have on the outside world are recorded in \<open>log\<close>.
  When a script is used up, \<open>write\<close>, \<open>read\<close> and \<open>accept\<close> answer \<open>EAGAIN\<close>, and the calls that
  configure descriptors succeed. Every finite behaviour of the kernel is a choice of the scripts.
\<close>

datatype errno = EINTR | EAGAIN | EWOULDBLOCK | ECONNABORTED | ENOENT | OtherErr string

fun strerror :: "errno \<Rightarrow> string" where
  "strerror EINTR = ''Interrupted system call''"
| "strerror EAGAIN = ''Resource temporarily unavailable''"
| "strerror EWOULDBLOCK = ''Resource temporarily unavailable''"
| "strerror ECONNABORTED = ''Software caused connection abort''"
| "strerror ENOENT = ''No such file or directory''"
| "strerror (OtherErr text) = text"

text \<open>A \<open>sockaddr_in\<close>: address and port in network byte order, as the little-endian host loads them.\<close>

record sockaddr_in =
  sin_addr :: "32 word"
  sin_port :: "16 word"

definition ntohs :: "16 word \<Rightarrow> nat" where
  "ntohs p = (unat p mod 256) * 256 + unat p div 256"

definition inet_ntoa :: "32 word \<Rightarrow> string" where
  "inet_ntoa a =
     (let octet = (\<lambda>k. show_nat (unat a div 256 ^ k mod 256))
      in octet 0 @ ''.'' @ octet 1 @ ''.'' @ octet 2 @ ''.'' @ octet 3)"

text \<open>
  \<open>WOk n\<close>: the kernel has room for \<open>n\<close> bytes, so \<open>write\<close> takes \<open>min n len\<close> of them. \<open>RData s\<close>: the next
  bytes of the stream; \<open>read\<close> takes as many as the buffer has room for and the rest stays queued.
\<close>

datatype write_answer = WOk nat | WErr errno
datatype read_answer = RData string | REof | RErr errno
datatype accept_answer = AConn nat sockaddr_in | AErr errno

text \<open>
  What the outside world sees, in order. The last two are not system calls: \<open>NullDeref\<close> records that
  the code followed a null connection pointer or wrote outside the table, which the theorems exclude, and \<open>IdOverflow\<close> that
  \<open>next_order_id++\<close> overflowed, after 2147483648 accepted orders.
\<close>

datatype event =
    Wrote int string
  | ShutdownWrite int
  | Closed int
  | SetNonBlocking int
  | FiltersAdded int
  | FiltersDeleted int
  | Printed string
  | NullDeref
  | IdOverflow

record os =
  writes :: "write_answer list"
  reads :: "read_answer list"
  accepts :: "accept_answer list"
  kevents :: "errno option list"
  fcntls :: "bool list"
  mem :: mem
  log :: "event list"

definition emit :: "event \<Rightarrow> os \<Rightarrow> os" where
  "emit e w = w\<lparr>log := log w @ [e]\<rparr>"

abbreviation print :: "string \<Rightarrow> os \<Rightarrow> os" where
  "print text \<equiv> emit (Printed text)"

definition os_alloc :: "os \<Rightarrow> bool \<times> os" where
  "os_alloc w = (let (got, m') = alloc (mem w) in (got, w\<lparr>mem := m'\<rparr>))"

datatype io_result = Done nat | Failed errno

definition os_write :: "int \<Rightarrow> string \<Rightarrow> os \<Rightarrow> io_result \<times> os" where
  "os_write fd bytes w =
     (case writes w of
        [] \<Rightarrow> (Failed EAGAIN, w)
      | WErr e # ws \<Rightarrow> (Failed e, w\<lparr>writes := ws\<rparr>)
      | WOk n # ws \<Rightarrow> (Done (min n (length bytes)), emit (Wrote fd (take n bytes)) (w\<lparr>writes := ws\<rparr>)))"

datatype read_result = Read string | ReadFailed errno

text \<open>\<open>read\<close> of at most \<open>room\<close> bytes; \<open>Read []\<close> is the return value 0, the end of the stream.\<close>

definition os_read :: "nat \<Rightarrow> os \<Rightarrow> read_result \<times> os" where
  "os_read room w =
     (case reads w of
        [] \<Rightarrow> (ReadFailed EAGAIN, w)
      | RErr e # rs \<Rightarrow> (ReadFailed e, w\<lparr>reads := rs\<rparr>)
      | REof # rs \<Rightarrow> (Read [], w\<lparr>reads := rs\<rparr>)
      | RData s # rs \<Rightarrow>
          (Read (take room s), w\<lparr>reads := (if length s \<le> room then rs else RData (drop room s) # rs)\<rparr>))"

text \<open>
  \<open>accept\<close> gives a descriptor that is not open: \<open>AConn n a\<close> is the \<open>n\<close>-th of those, so that every descriptor
  the kernel may choose is named by some \<open>n\<close>.
\<close>

definition free_fd :: "nat list \<Rightarrow> nat \<Rightarrow> nat" where
  "free_fd opened n = filter (\<lambda>fd. fd \<notin> set opened) [0..<n + length opened + 1] ! n"

datatype accept_result = Accepted nat sockaddr_in | AcceptFailed errno

definition os_accept :: "nat list \<Rightarrow> os \<Rightarrow> accept_result \<times> os" where
  "os_accept opened w =
     (case accepts w of
        [] \<Rightarrow> (AcceptFailed EAGAIN, w)
      | AErr e # as \<Rightarrow> (AcceptFailed e, w\<lparr>accepts := as\<rparr>)
      | AConn n addr # as \<Rightarrow> (Accepted (free_fd opened n) addr, w\<lparr>accepts := as\<rparr>))"

text \<open>A \<open>kevent\<close> call that changes filters: its error, if it fails; \<open>e\<close> is logged when it does not.\<close>

definition os_kevent :: "event \<Rightarrow> os \<Rightarrow> errno option \<times> os" where
  "os_kevent e w =
     (case kevents w of
        [] \<Rightarrow> (None, emit e w)
      | None # ks \<Rightarrow> (None, emit e (w\<lparr>kevents := ks\<rparr>))
      | Some er # ks \<Rightarrow> (Some er, w\<lparr>kevents := ks\<rparr>))"

text \<open>\<open>fcntl\<close>, with \<open>F_GETFL\<close> or \<open>F_SETFL\<close>: whether it succeeds.\<close>

definition os_fcntl :: "os \<Rightarrow> bool \<times> os" where
  "os_fcntl w = (case fcntls w of [] \<Rightarrow> (True, w) | ok # fs \<Rightarrow> (ok, w\<lparr>fcntls := fs\<rparr>))"

text \<open>The bytes the kernel took for descriptor \<open>fd\<close>, in order.\<close>

fun bytes_for :: "int \<Rightarrow> event \<Rightarrow> string" where
  "bytes_for fd (Wrote fd' s) = (if fd' = fd then s else [])"
| "bytes_for fd _ = []"

definition sent :: "int \<Rightarrow> os \<Rightarrow> string" where
  "sent fd w = concat (map (bytes_for fd) (log w))"

lemma sent_emit [simp]: "sent fd (emit e w) = sent fd w @ bytes_for fd e"
  by (simp add: sent_def emit_def)

lemma sent_upd [simp]:
  "sent fd (w\<lparr>writes := ws\<rparr>) = sent fd w" "sent fd (w\<lparr>reads := rs\<rparr>) = sent fd w"
  "sent fd (w\<lparr>mem := m\<rparr>) = sent fd w"
  by (simp_all add: sent_def)

lemma emit_fields [simp]:
  "writes (emit e w) = writes w" "reads (emit e w) = reads w" "accepts (emit e w) = accepts w"
  "kevents (emit e w) = kevents w" "fcntls (emit e w) = fcntls w" "mem (emit e w) = mem w"
  "log (emit e w) = log w @ [e]"
  by (simp_all add: emit_def)

text \<open>
  \<open>touches fds w w'\<close>: from \<open>w\<close> to \<open>w'\<close> only writes, to descriptors of \<open>fds\<close>, and prints were added to
  the log; the other scripts were not consumed.
\<close>

fun harmless :: "int set \<Rightarrow> event \<Rightarrow> bool" where
  "harmless fds (Wrote fd s) = (fd \<in> fds)"
| "harmless fds (Printed s) = True"
| "harmless fds _ = False"

definition touches :: "int set \<Rightarrow> os \<Rightarrow> os \<Rightarrow> bool" where
  "touches fds w w' \<longleftrightarrow>
     (\<exists>es. log w' = log w @ es \<and> list_all (harmless fds) es) \<and>
     reads w' = reads w \<and> accepts w' = accepts w \<and> kevents w' = kevents w \<and> fcntls w' = fcntls w"

lemma touches_refl [simp]: "touches fds w w"
  by (simp add: touches_def)

lemma touches_trans: "touches fds w w1 \<Longrightarrow> touches fds w1 w2 \<Longrightarrow> touches fds w w2"
  by (force simp: touches_def)

lemma harmless_mono: "harmless A e \<Longrightarrow> A \<subseteq> B \<Longrightarrow> harmless B e"
  by (cases e) auto

lemma touches_mono: "touches A w w' \<Longrightarrow> A \<subseteq> B \<Longrightarrow> touches B w w'"
  by (force simp: touches_def list_all_iff intro: harmless_mono)

lemma touches_emit [simp]: "touches fds w (emit e w') \<longleftrightarrow> touches fds w w' \<and> harmless fds e" if "touches fds w w'"
  using that by (auto simp: touches_def)

lemma touches_script [simp]:
  "touches fds w (w'\<lparr>writes := ws\<rparr>) = touches fds w w'" "touches fds w (w'\<lparr>mem := m\<rparr>) = touches fds w w'"
  by (simp_all add: touches_def)

lemma touches_sent_other:
  assumes "touches fds w w'" and "fd \<notin> fds"
  shows "sent fd w' = sent fd w"
proof -
  obtain es where es: "log w' = log w @ es" "list_all (harmless fds) es"
    using assms(1) by (auto simp: touches_def)
  have "concat (map (bytes_for fd) es) = []"
    using es(2)
  proof (induction es)
    case (Cons e es)
    then show ?case using assms(2) by (cases e) auto
  qed simp
  with es(1) show ?thesis by (simp add: sent_def)
qed

lemma touches_events:
  assumes "touches fds w w'" and "\<not> harmless fds e"
  shows "e \<in> set (log w') \<longleftrightarrow> e \<in> set (log w)"
  using assms by (auto simp: touches_def list_all_iff)

text \<open>The descriptor of a new connection is not open.\<close>

lemma free_fds_length: "n < length (filter (\<lambda>fd. fd \<notin> set opened) [0..<n + length opened + 1])"
proof -
  let ?xs = "[0..<n + length opened + 1]"
  have "length ?xs = length (filter (\<lambda>fd. fd \<in> set opened) ?xs) + length (filter (\<lambda>fd. fd \<notin> set opened) ?xs)"
    by (rule sum_length_filter_compl [symmetric])
  moreover have "length (filter (\<lambda>fd. fd \<in> set opened) ?xs) \<le> length opened"
  proof -
    have "length (filter (\<lambda>fd. fd \<in> set opened) ?xs) = card (set (filter (\<lambda>fd. fd \<in> set opened) ?xs))"
      by (rule distinct_card [symmetric]) simp
    also have "\<dots> \<le> card (set opened)"
      by (rule card_mono) auto
    also have "\<dots> \<le> length opened"
      by (rule card_length)
    finally show ?thesis .
  qed
  ultimately show ?thesis
    unfolding length_upt by linarith
qed

lemma free_fd_fresh: "free_fd opened n \<notin> set opened"
proof -
  have "free_fd opened n \<in> set (filter (\<lambda>fd. fd \<notin> set opened) [0..<n + length opened + 1])"
    unfolding free_fd_def by (rule nth_mem [OF free_fds_length])
  then show ?thesis
    unfolding set_filter by blast
qed

lemma os_accept_world:
  assumes "os_accept opened w = (a, w')"
  shows "w' = w\<lparr>accepts := accepts w'\<rparr>" and "accepts w \<noteq> [] \<Longrightarrow> length (accepts w') < length (accepts w)"
    and "accepts w = [] \<Longrightarrow> a = AcceptFailed EAGAIN" and "a = Accepted fd addr \<Longrightarrow> fd \<notin> set opened"
  using assms free_fd_fresh by (auto simp: os_accept_def split: list.splits accept_answer.splits)

end
