(* ===== verification/Connection.thy ===== *)
theory Connection
  imports Os
begin

text \<open>
  A client's connection, \<open>struct ClientConnection\<close> of \<open>src/includes/server.h\<close>, with the constants of
  \<open>config.h\<close>, and its output side, the first five functions of \<open>io.c\<close>. A buffer and its length field
  are one HOL list, the first \<open>len\<close> bytes of the buffer; \<open>outbuf\<close> is \<open>None\<close> for a null pointer.
  \<open>caddr_len\<close>, which is stored and never read, is left out.
\<close>

section \<open>Data\<close>

definition PORT :: int where "PORT = 8080"
definition USERNAME_LENGTH :: nat where "USERNAME_LENGTH = 128"
definition MIN_CAPACITY :: nat where "MIN_CAPACITY = 10"
definition MAX_EVENTS :: nat where "MAX_EVENTS = 64"
definition MAX_CMD_LEN :: nat where "MAX_CMD_LEN = 11"
definition MAX_INSTRUMENT_LEN :: nat where "MAX_INSTRUMENT_LEN = 4"
definition MAX_INT_DIGITS :: nat where "MAX_INT_DIGITS = 10"
definition MAX_LINE_LEN :: nat where "MAX_LINE_LEN = MAX_CMD_LEN + 1 + (USERNAME_LENGTH - 1) + 1"
definition MAX_TOKEN_LEN :: nat where "MAX_TOKEN_LEN = 159"
definition INBUF_SIZE :: nat where "INBUF_SIZE = MAX_TOKEN_LEN + 1"
definition OUTBUF_SIZE :: nat where "OUTBUF_SIZE = 4096"

lemmas config_defs = USERNAME_LENGTH_def MAX_CMD_LEN_def MAX_LINE_LEN_def MAX_TOKEN_LEN_def INBUF_SIZE_def OUTBUF_SIZE_def

datatype ClientType = none | trader | market

record ClientConnection =
  outbuf :: "string option"
  scanned_len :: nat
  caddr :: sockaddr_in
  client_fd :: int
  ctype :: ClientType
  logged_in :: bool
  discarding :: bool
  closing :: bool
  subscribedJNST :: bool
  subscribedIMCT :: bool
  username :: string
  inbuf :: string

text \<open>A connection as \<open>registerClient\<close> initialises it: \<open>calloc\<close> and the fields it sets.\<close>

definition new_client :: "nat \<Rightarrow> sockaddr_in \<Rightarrow> ClientConnection" where
  "new_client fd addr =
     \<lparr>outbuf = None, scanned_len = 0, caddr = addr, client_fd = int fd, ctype = none, logged_in = False,
      discarding = False, closing = False, subscribedJNST = False, subscribedIMCT = False, username = [], inbuf = []\<rparr>"

definition pending :: "ClientConnection \<Rightarrow> string" where
  "pending c = (case outbuf c of None \<Rightarrow> [] | Some s \<Rightarrow> s)"

definition outlen :: "ClientConnection \<Rightarrow> nat" where
  "outlen c = length (pending c)"

lemma pending_upd [simp]:
  "pending (c\<lparr>outbuf := Some s\<rparr>) = s" "pending (c\<lparr>outbuf := None\<rparr>) = []"
  by (simp_all add: pending_def)

definition OK :: string where "OK = ''OK'' @ [NL]"

section \<open>Output\<close>

lemma os_write_script:
  "os_write fd bytes w = (Done n, w') \<Longrightarrow> length (writes w') < length (writes w)"
  "os_write fd bytes w = (Failed EINTR, w') \<Longrightarrow> length (writes w') < length (writes w)"
  by (auto simp: os_write_def split: list.splits write_answer.splits)

text \<open>\<open>while (conn->outlen > 0)\<close>: each round uses up an answer, or the script is empty and the loop ends with \<open>EAGAIN\<close>.\<close>

function flushToClient :: "ClientConnection \<Rightarrow> os \<Rightarrow> bool \<times> ClientConnection \<times> os" where
  "flushToClient c w =
     (if outlen c > 0 then
        (case os_write (client_fd c) (pending c) w of
           (Done written, w') \<Rightarrow> flushToClient (c\<lparr>outbuf := Some (drop written (pending c))\<rparr>) w'
         | (Failed e, w') \<Rightarrow>
             if e = EINTR then flushToClient c w'
             else if e = EAGAIN \<or> e = EWOULDBLOCK then (False, c, w')
             else (True, c, w'))
      else (closing c, c, w))"
  by pat_completeness auto
termination
  by (relation "measure (\<lambda>(c, w). length (writes w))") (auto dest: os_write_script os_write_script(1)[OF sym] os_write_script(2)[OF sym])

declare flushToClient.simps [simp del]

text \<open>The \<open>do ... while\<close> loop of \<open>sendToClient\<close>: \<open>write\<close> again while it is interrupted.\<close>

function write_retry :: "int \<Rightarrow> string \<Rightarrow> os \<Rightarrow> io_result \<times> os" where
  "write_retry fd bytes w =
     (case os_write fd bytes w of
        (Failed e, w') \<Rightarrow> if e = EINTR then write_retry fd bytes w' else (Failed e, w')
      | (Done written, w') \<Rightarrow> (Done written, w'))"
  by pat_completeness auto
termination
  by (relation "measure (\<lambda>(fd, bytes, w). length (writes w))") (auto dest: os_write_script os_write_script(2)[OF sym])

declare write_retry.simps [simp del]

text \<open>The direct \<open>write\<close> when nothing is pending: whether it failed for good, and the bytes still to send.\<close>

definition send_now :: "ClientConnection \<Rightarrow> string \<Rightarrow> os \<Rightarrow> bool \<times> string \<times> os" where
  "send_now c bytes w =
     (if outlen c = 0 then
        (case write_retry (client_fd c) bytes w of
           (Done written, w1) \<Rightarrow> (False, drop written bytes, w1)
         | (Failed e, w1) \<Rightarrow> (e \<noteq> EAGAIN \<and> e \<noteq> EWOULDBLOCK, bytes, w1))
      else (False, bytes, w))"

text \<open>What could not be sent is buffered; the buffer is allocated when first needed.\<close>

definition enqueue :: "ClientConnection \<Rightarrow> string \<Rightarrow> os \<Rightarrow> bool \<times> ClientConnection \<times> os" where
  "enqueue c bytes w =
     (let (got, c1, w1) =
            (if outbuf c = None
             then let (got, w1) = os_alloc w in (got, if got then c\<lparr>outbuf := Some []\<rparr> else c, w1)
             else (True, c, w))
      in if \<not> got then (True, c1, w1)
         else if outlen c1 + length bytes > OUTBUF_SIZE then (True, c1, w1)
         else (False, c1\<lparr>outbuf := Some (pending c1 @ bytes)\<rparr>, w1))"

definition sendToClient :: "ClientConnection \<Rightarrow> string \<Rightarrow> os \<Rightarrow> bool \<times> ClientConnection \<times> os" where
  "sendToClient c bytes w =
     (let (failed, rest, w1) = send_now c bytes w
      in if failed then (True, c, w1)
         else if rest = [] then (False, c, w1)
         else enqueue c rest w1)"

definition sendLine :: "ClientConnection \<Rightarrow> string \<Rightarrow> os \<Rightarrow> bool \<times> ClientConnection \<times> os" where
  "sendLine c line w = sendToClient c line w"

definition replyError :: "ClientConnection \<Rightarrow> string \<Rightarrow> os \<Rightarrow> bool \<times> ClientConnection \<times> os" where
  "replyError c reason w = sendLine c (snprintf 64 (''ERROR '' @ reason @ [NL])) w"

section \<open>The byte stream\<close>

text \<open>
  The stream of a connection: what the kernel has taken for its descriptor and, after it, what
  still waits in the buffer.
\<close>

definition stream :: "ClientConnection \<Rightarrow> os \<Rightarrow> string" where
  "stream c w = sent (client_fd c) w @ pending c"

lemma os_write_effect:
  assumes "os_write fd bytes w = (r, w')"
  shows "touches {fd} w w'" and "sent fd w' = sent fd w @ (case r of Done n \<Rightarrow> take n bytes | Failed e \<Rightarrow> [])"
    and "mem w' = mem w" and "r = Done n \<Longrightarrow> n \<le> length bytes"
  using assms by (auto simp: os_write_def min_def split: list.splits write_answer.splits)

lemma flushToClient_effect:
  assumes "flushToClient c w = (r, c', w')"
  shows "stream c' w' = stream c w \<and> c' = c\<lparr>outbuf := outbuf c'\<rparr> \<and> touches {client_fd c} w w' \<and> outlen c' \<le> outlen c \<and>
    mem w' = mem w"
  using assms
proof (induction c w arbitrary: r c' w' rule: flushToClient.induct)
  case (1 c w)
  show ?case
  proof (cases "outlen c > 0")
    case True
    obtain r0 w0 where wr: "os_write (client_fd c) (pending c) w = (r0, w0)" by fastforce
    note e = os_write_effect [OF wr]
    show ?thesis
    proof (cases r0)
      case (Done n)
      let ?c = "c\<lparr>outbuf := Some (drop n (pending c))\<rparr>"
      have "flushToClient ?c w0 = (r, c', w')"
        using "1.prems" True wr Done by (subst (asm) flushToClient.simps) simp
      from "1.IH"(1) [OF True wr [symmetric] Done this] e Done show ?thesis
        by (auto simp: stream_def outlen_def dest: touches_trans)
    next
      case (Failed er)
      show ?thesis
      proof (cases "er = EINTR")
        case True2: True
        have "flushToClient c w0 = (r, c', w')"
          using "1.prems" True wr Failed True2 by (subst (asm) flushToClient.simps) simp
        from "1.IH"(2) [OF True wr [symmetric] Failed True2 this] e Failed show ?thesis
          by (auto simp: stream_def dest: touches_trans)
      next
        case False
        with "1.prems" True wr Failed e show ?thesis
          by (subst (asm) flushToClient.simps) (auto simp: stream_def split: if_splits)
      qed
    qed
  next
    case False
    with "1.prems" show ?thesis by (subst (asm) flushToClient.simps) simp
  qed
qed

lemma write_retry_effect:
  assumes "write_retry fd bytes w = (r, w')"
  shows "touches {fd} w w' \<and> sent fd w' = sent fd w @ (case r of Done n \<Rightarrow> take n bytes | Failed e \<Rightarrow> []) \<and>
    mem w' = mem w \<and> (\<forall>n. r = Done n \<longrightarrow> n \<le> length bytes) \<and> r \<noteq> Failed EINTR"
  using assms
proof (induction fd bytes w arbitrary: r w' rule: write_retry.induct)
  case (1 fd bytes w)
  obtain r0 w0 where wr: "os_write fd bytes w = (r0, w0)" by fastforce
  note e = os_write_effect [OF wr]
  show ?case
  proof (cases "r0 = Failed EINTR")
    case True
    then have "write_retry fd bytes w0 = (r, w')"
      using "1.prems" wr by (subst (asm) write_retry.simps) simp
    from "1.IH" [OF wr [symmetric] True refl this] e True show ?thesis
      by (auto dest: touches_trans)
  next
    case False
    then have "r = r0" "w' = w0"
      using "1.prems" wr by (subst (asm) write_retry.simps, simp split: io_result.splits if_splits)+
    with e False show ?thesis by auto
  qed
qed

lemma send_now_effect:
  assumes "send_now c bytes w = (failed, rest, w')"
  shows "touches {client_fd c} w w'" and "sent (client_fd c) w' @ rest = sent (client_fd c) w @ bytes"
    and "mem w' = mem w" and "failed \<Longrightarrow> rest = bytes" and "outlen c \<noteq> 0 \<Longrightarrow> rest = bytes \<and> w' = w \<and> \<not> failed"
    and "\<exists>k. rest = drop k bytes"
proof -
  obtain r w1 where wr: "write_retry (client_fd c) bytes w = (r, w1)" by fastforce
  note e = write_retry_effect [OF wr]
  show "touches {client_fd c} w w'" "sent (client_fd c) w' @ rest = sent (client_fd c) w @ bytes"
    "mem w' = mem w" "failed \<Longrightarrow> rest = bytes" "outlen c \<noteq> 0 \<Longrightarrow> rest = bytes \<and> w' = w \<and> \<not> failed"
    using assms wr e by (auto simp: send_now_def split: if_splits io_result.splits)
  have "rest = bytes \<or> (\<exists>k. rest = drop k bytes)"
    using assms wr by (auto simp: send_now_def split: if_splits io_result.splits)
  then show "\<exists>k. rest = drop k bytes"
    by (metis drop0)
qed

lemma enqueue_effect:
  assumes "enqueue c bytes w = (failed, c', w')"
  shows "c' = c\<lparr>outbuf := outbuf c'\<rparr>" and "touches fds w w'"
    and "sent fd w' = sent fd w" and "pending c' = (if failed then pending c else pending c @ bytes)"
    and "outlen c \<le> OUTBUF_SIZE \<Longrightarrow> outlen c' \<le> OUTBUF_SIZE"
    and "failed \<Longrightarrow> False \<notin> set (mem w) \<Longrightarrow> outlen c + length bytes > OUTBUF_SIZE"
  using assms
  by (auto simp: enqueue_def os_alloc_def outlen_def pending_def Let_def split: if_splits prod.splits)
     (cases "mem w"; simp)+

lemma sendToClient_frame:
  assumes "sendToClient c bytes w = (failed, c', w')"
  shows "c' = c\<lparr>outbuf := outbuf c'\<rparr>" and "touches {client_fd c} w w'"
    and "outlen c \<le> OUTBUF_SIZE \<Longrightarrow> outlen c' \<le> OUTBUF_SIZE"
  using assms send_now_effect(1) [of c bytes w] enqueue_effect(1,2,5)
  by (auto simp: sendToClient_def split: prod.splits if_splits dest: touches_trans)
     (metis touches_trans)+

text \<open>What a send adds to the stream: everything unless it fails, and a beginning of the data when it does.\<close>

lemma sendToClient_stream:
  assumes "sendToClient c bytes w = (failed, c', w')"
  shows "\<not> failed \<Longrightarrow> stream c' w' = stream c w @ bytes"
    and "\<exists>k. stream c' w' = stream c w @ take k bytes"
    and "failed \<Longrightarrow> False \<notin> set (mem w) \<Longrightarrow> length bytes \<le> OUTBUF_SIZE \<Longrightarrow> stream c' w' = stream c w"
proof -
  obtain f1 rest w1 where sn: "send_now c bytes w = (f1, rest, w1)" by (metis prod_cases3)
  note n = send_now_effect [OF sn]
  have empty: "pending c = [] \<or> rest = bytes \<and> w1 = w"
    using n(5) by (auto simp: outlen_def)
  obtain k where k: "rest = drop k bytes"
    using n(6) by blast
  have sent1: "sent (client_fd c) w1 = sent (client_fd c) w @ take k bytes"
    using n(2) k by (metis append_assoc append_same_eq append_take_drop_id)
  consider (fail) "f1" "failed" "c' = c" "w' = w1" | (all) "\<not> f1" "rest = []" "\<not> failed" "c' = c" "w' = w1"
    | (enq) "\<not> f1" "rest \<noteq> []" "enqueue c rest w1 = (failed, c', w')"
    using assms sn by (auto simp: sendToClient_def split: if_splits)
  then have "(\<not> failed \<longrightarrow> stream c' w' = stream c w @ bytes) \<and> (\<exists>k. stream c' w' = stream c w @ take k bytes) \<and>
    (failed \<and> False \<notin> set (mem w) \<and> length bytes \<le> OUTBUF_SIZE \<longrightarrow> stream c' w' = stream c w)"
  proof cases
    case fail
    then have "stream c' w' = stream c w"
      using n(2,4) by (simp add: stream_def)
    with fail show ?thesis
      by (auto intro: exI [of _ 0])
  next
    case all
    then have "stream c' w' = stream c w @ bytes"
      using n(2) empty by (auto simp: stream_def)
    with all show ?thesis
      by (metis take_all_iff le_refl)
  next
    case enq
    note e = enqueue_effect [OF enq(3)]
    have cf: "client_fd c' = client_fd c"
      by (subst e(1)) simp
    show ?thesis
    proof (cases failed)
      case False
      have "stream c' w' = stream c w @ bytes"
        using e(3,4) False n(2) empty cf by (auto simp: stream_def)
      with False show ?thesis
        by (metis take_all_iff le_refl)
    next
      case True
      have "stream c' w' = sent (client_fd c) w @ take k bytes @ pending c"
        using e(3,4) True sent1 cf by (simp add: stream_def)
      moreover have "\<exists>j. take k bytes @ pending c = pending c @ take j bytes"
      proof (cases "pending c = []")
        case False
        then have "rest = bytes" "w1 = w" using empty by auto
        then have "take k bytes = []" using sent1 by simp
        then show ?thesis by (auto intro: exI [of _ 0])
      qed auto
      moreover have "stream c' w' = stream c w" if "False \<notin> set (mem w)" "length bytes \<le> OUTBUF_SIZE"
      proof -
        have "outlen c + length rest > OUTBUF_SIZE"
          using e(6) True that n(3) by simp
        then have "pending c \<noteq> []"
          using that(2) k by (auto simp: outlen_def)
        then show ?thesis
          using empty e(3,4) True cf by (auto simp: stream_def)
      qed
      ultimately show ?thesis
        using True by (auto simp: stream_def)
    qed
  qed
  then show "\<not> failed \<Longrightarrow> stream c' w' = stream c w @ bytes"
    "\<exists>k. stream c' w' = stream c w @ take k bytes"
    "failed \<Longrightarrow> False \<notin> set (mem w) \<Longrightarrow> length bytes \<le> OUTBUF_SIZE \<Longrightarrow> stream c' w' = stream c w"
    by blast+
qed

lemma send_now_mem: "send_now c bytes w = (failed, rest, w') \<Longrightarrow> mem w' = mem w"
  by (rule send_now_effect(3))

lemma enqueue_mem: "enqueue c bytes w = (failed, c', w') \<Longrightarrow> set (mem w') \<subseteq> set (mem w)"
  by (cases "mem w") (auto simp: enqueue_def os_alloc_def Let_def split: if_splits)

lemma sendToClient_mem: "sendToClient c bytes w = (failed, c', w') \<Longrightarrow> set (mem w') \<subseteq> set (mem w)"
  by (auto simp: sendToClient_def dest!: send_now_mem enqueue_mem split: prod.splits if_splits)

section \<open>The interface of the output side\<close>

text \<open>
  What the commands rely on when they answer or notify a client. \<open>send c line w\<close> may fail; it touches
  nothing of the connection but its output buffer, and nothing of the world but the connection's
  own descriptor.
\<close>

fun send_lines ::
  "(ClientConnection \<Rightarrow> string \<Rightarrow> os \<Rightarrow> bool \<times> ClientConnection \<times> os) \<Rightarrow>
   ClientConnection \<Rightarrow> string list \<Rightarrow> os \<Rightarrow> bool list \<times> ClientConnection \<times> os" where
  "send_lines send c [] w = ([], c, w)"
| "send_lines send c (l # ls) w =
     (let (failed, c1, w1) = send c l w; (fs, c2, w2) = send_lines send c1 ls w1 in (failed # fs, c2, w2))"

text \<open>The lines whose send returned \<open>false\<close>, that is, success.\<close>

definition successes :: "bool list \<Rightarrow> string list \<Rightarrow> string list" where
  "successes fs ls = map snd (filter (\<lambda>(failed, l). \<not> failed) (zip fs ls))"

lemma successes_simps [simp]:
  "successes [] ls = []" "successes (f # fs) (l # ls) = (if f then [] else [l]) @ successes fs ls"
  by (simp_all add: successes_def)

lemma successes_all: "length fs = length ls \<Longrightarrow> True \<notin> set fs \<Longrightarrow> successes fs ls = ls"
  by (induction fs ls rule: list_induct2) auto

text \<open>No \<open>write\<close> fails for good: it may be interrupted, would block, or takes any number of bytes.\<close>

definition reliable :: "os \<Rightarrow> bool" where
  "reliable w \<longleftrightarrow> (\<forall>e. WErr e \<in> set (writes w) \<longrightarrow> e \<in> {EINTR, EAGAIN, EWOULDBLOCK})"

lemma reliable_mono: "reliable w \<Longrightarrow> set (writes w') \<subseteq> set (writes w) \<Longrightarrow> reliable w'"
  by (auto simp: reliable_def)

text \<open>A send fails only when a write fails for good, memory runs out, or the buffer is full.\<close>

lemma os_write_writes: "os_write fd bytes w = (r, w') \<Longrightarrow> set (writes w') \<subseteq> set (writes w)"
  "os_write fd bytes w = (Failed e, w') \<Longrightarrow> reliable w \<Longrightarrow> e \<in> {EINTR, EAGAIN, EWOULDBLOCK}"
  by (auto simp: os_write_def reliable_def split: list.splits write_answer.splits)

lemma write_retry_writes:
  "write_retry fd bytes w = (r, w') \<Longrightarrow>
   set (writes w') \<subseteq> set (writes w) \<and> (\<forall>e. r = Failed e \<and> reliable w \<longrightarrow> e = EAGAIN \<or> e = EWOULDBLOCK)"
proof (induction fd bytes w rule: write_retry.induct)
  case (1 fd bytes w)
  obtain r0 w0 where wr: "os_write fd bytes w = (r0, w0)" by fastforce
  note e = os_write_writes(1) [OF wr]
  show ?case
  proof (cases "r0 = Failed EINTR")
    case True
    then have "write_retry fd bytes w0 = (r, w')"
      using "1.prems" wr by (subst (asm) write_retry.simps) simp
    from "1.IH" [OF wr [symmetric] True refl this] e reliable_mono show ?thesis by blast
  next
    case False
    then have "r = r0" "w' = w0"
      using "1.prems" wr by (subst (asm) write_retry.simps, simp split: io_result.splits if_splits)+
    with e os_write_writes(2) [of fd bytes w] wr False show ?thesis by auto
  qed
qed

lemma send_now_room:
  assumes "send_now c bytes w = (failed, rest, w')"
  shows "set (writes w') \<subseteq> set (writes w) \<and> length rest \<le> length bytes \<and> (reliable w \<longrightarrow> \<not> failed)"
proof -
  obtain r w1 where wr: "write_retry (client_fd c) bytes w = (r, w1)" by fastforce
  from write_retry_writes [OF wr] wr assms show ?thesis
    by (auto simp: send_now_def split: if_splits io_result.splits)
qed

lemma enqueue_room:
  assumes "enqueue c bytes w = (failed, c', w')"
  shows "writes w' = writes w"
  using assms by (auto simp: enqueue_def os_alloc_def Let_def split: if_splits prod.splits)

lemma sendToClient_room:
  assumes "sendToClient c bytes w = (failed, c', w')"
  shows "set (writes w') \<subseteq> set (writes w)" and "outlen c' \<le> outlen c + length bytes"
    and "failed \<Longrightarrow> False \<notin> set (mem w) \<Longrightarrow> reliable w \<Longrightarrow> OUTBUF_SIZE < outlen c + length bytes"
proof -
  obtain f1 rest w1 where sn: "send_now c bytes w = (f1, rest, w1)" by (metis prod_cases3)
  note n = send_now_room [OF sn] send_now_effect(3) [OF sn]
  have q: "writes w' = writes w1 \<and> outlen c' \<le> outlen c + length rest \<and>
      (failed \<longrightarrow> False \<notin> set (mem w1) \<longrightarrow> OUTBUF_SIZE < outlen c + length rest)" if "enqueue c rest w1 = (failed, c', w')"
    using enqueue_room [OF that] enqueue_effect(4,6) [OF that] by (auto simp: outlen_def)
  then show "set (writes w') \<subseteq> set (writes w)" "outlen c' \<le> outlen c + length bytes"
    "failed \<Longrightarrow> False \<notin> set (mem w) \<Longrightarrow> reliable w \<Longrightarrow> OUTBUF_SIZE < outlen c + length bytes"
    using assms sn n by (force simp: sendToClient_def split: if_splits)+
qed

locale line_output =
  fixes send :: "ClientConnection \<Rightarrow> string \<Rightarrow> os \<Rightarrow> bool \<times> ClientConnection \<times> os"
  assumes frame: "send c l w = (failed, c', w') \<Longrightarrow> c' = c\<lparr>outbuf := outbuf c'\<rparr>"
    and quiet: "send c l w = (failed, c', w') \<Longrightarrow> touches {client_fd c} w w'"
    and bounded: "send c l w = (failed, c', w') \<Longrightarrow> outlen c \<le> OUTBUF_SIZE \<Longrightarrow> outlen c' \<le> OUTBUF_SIZE"
    and memory: "send c l w = (failed, c', w') \<Longrightarrow> set (mem w') \<subseteq> set (mem w)"
    and delivered: "send c l w = (False, c', w') \<Longrightarrow> stream c' w' = stream c w @ l"
    and dropped: "send c l w = (True, c', w') \<Longrightarrow> False \<notin> set (mem w) \<Longrightarrow> length l \<le> OUTBUF_SIZE \<Longrightarrow>
          stream c' w' = stream c w"
    and script: "send c l w = (failed, c', w') \<Longrightarrow> set (writes w') \<subseteq> set (writes w)"
    and grows: "send c l w = (failed, c', w') \<Longrightarrow> outlen c' \<le> outlen c + length l"
    and refused: "send c l w = (True, c', w') \<Longrightarrow> False \<notin> set (mem w) \<Longrightarrow> reliable w \<Longrightarrow> OUTBUF_SIZE < outlen c + length l"
begin

lemma same_fields:
  assumes "send c l w = (failed, c', w')"
  shows "client_fd c' = client_fd c" and "ctype c' = ctype c" and "logged_in c' = logged_in c"
    and "username c' = username c" and "inbuf c' = inbuf c" and "scanned_len c' = scanned_len c"
    and "discarding c' = discarding c" and "closing c' = closing c"
    and "subscribedJNST c' = subscribedJNST c" and "subscribedIMCT c' = subscribedIMCT c"
  by (subst frame [OF assms], simp)+

text \<open>However the sends fail, the client's stream grows by exactly the lines whose send succeeded, in order.\<close>

lemma whole_lines:
  "send_lines send c ls w = (fs, c', w') \<Longrightarrow> False \<notin> set (mem w) \<Longrightarrow> \<forall>l \<in> set ls. length l \<le> OUTBUF_SIZE \<Longrightarrow>
   length fs = length ls \<and> stream c' w' = stream c w @ concat (successes fs ls) \<and>
   (reliable w \<and> outlen c + length (concat ls) \<le> OUTBUF_SIZE \<longrightarrow> True \<notin> set fs)"
proof (induction ls arbitrary: c w fs)
  case (Cons l ls)
  obtain failed c1 w1 where s: "send c l w = (failed, c1, w1)" by (metis prod_cases3)
  obtain gs where gs: "send_lines send c1 ls w1 = (gs, c', w')" "fs = failed # gs"
    using Cons.prems(1) s by (auto simp: Let_def split: prod.splits)
  have "False \<notin> set (mem w1)"
    using memory [OF s] Cons.prems(2) by blast
  with Cons.IH [OF gs(1)] Cons.prems(3) have IH: "length gs = length ls" "stream c' w' = stream c1 w1 @ concat (successes gs ls)"
    "reliable w1 \<and> outlen c1 + length (concat ls) \<le> OUTBUF_SIZE \<longrightarrow> True \<notin> set gs"
    by simp_all
  have "stream c1 w1 = stream c w @ (if failed then [] else l)"
    using delivered [of c l w c1 w1] dropped [of c l w c1 w1] s Cons.prems(2,3) by (cases failed) auto
  moreover have "True \<notin> set fs" if "reliable w" "outlen c + length (concat (l # ls)) \<le> OUTBUF_SIZE"
  proof -
    have "\<not> failed"
      using refused [of c l w c1 w1] s Cons.prems(2) that by auto
    moreover have "reliable w1" "outlen c1 + length (concat ls) \<le> OUTBUF_SIZE"
      using reliable_mono [OF that(1) script [OF s]] grows [OF s] that(2) by auto
    ultimately show ?thesis
      using IH(3) gs(2) by simp
  qed
  ultimately show ?case
    using IH gs(2) by auto
qed auto

end

interpretation out: line_output sendLine
proof unfold_locales
  fix c l w failed c' w'
  assume s: "sendLine c l w = (failed, c', w')"
  note s' = s [unfolded sendLine_def]
  show "c' = c\<lparr>outbuf := outbuf c'\<rparr>" "touches {client_fd c} w w'"
    by (rule sendToClient_frame [OF s'])+
  show "outlen c' \<le> OUTBUF_SIZE" if "outlen c \<le> OUTBUF_SIZE"
    using sendToClient_frame(3) [OF s' that] .
  show "set (mem w') \<subseteq> set (mem w)"
    using sendToClient_mem [OF s'] .
next
  fix c l w c' w'
  show "stream c' w' = stream c w @ l" if "sendLine c l w = (False, c', w')"
    using sendToClient_stream(1) [OF that [unfolded sendLine_def]] by simp
  show "stream c' w' = stream c w"
    if "sendLine c l w = (True, c', w')" "False \<notin> set (mem w)" "length l \<le> OUTBUF_SIZE"
    using sendToClient_stream(3) [OF that(1) [unfolded sendLine_def]] that by simp
next
  fix c l w failed c' w'
  assume s: "sendLine c l w = (failed, c', w')"
  show "set (writes w') \<subseteq> set (writes w)" "outlen c' \<le> outlen c + length l"
    using sendToClient_room(1,2) [OF s [unfolded sendLine_def]] .
next
  fix c l w c' w'
  show "OUTBUF_SIZE < outlen c + length l" if "sendLine c l w = (True, c', w')" "False \<notin> set (mem w)" "reliable w"
    using sendToClient_room(3) [OF that(1) [unfolded sendLine_def]] that(2,3) by simp
qed

section \<open>Properties of the output side\<close>

text \<open>
  C10. Sending appends to the client's byte stream, flushing does not change it, whatever the kernel
  answers.
\<close>

theorem output_is_fifo:
  "(case sendToClient c bytes w of (failed, c', w') \<Rightarrow>
      if failed then \<exists>k. stream c' w' = stream c w @ take k bytes
      else stream c' w' = stream c w @ bytes) \<and>
   (case flushToClient c w of (failed, c', w') \<Rightarrow> stream c' w' = stream c w)"
proof -
  obtain f c' w' where s: "sendToClient c bytes w = (f, c', w')" by (metis prod_cases3)
  obtain f2 c2 w2 where fl: "flushToClient c w = (f2, c2, w2)" by (metis prod_cases3)
  show ?thesis
    using sendToClient_stream(1,2) [OF s] flushToClient_effect [OF fl] s fl by simp
qed

text \<open>A connection with a full buffer but one byte, and a kernel that takes nothing.\<close>

definition sample_conn :: ClientConnection where
  "sample_conn =
     \<lparr>outbuf = Some (replicate 4095 CHR ''x''), scanned_len = 0, caddr = \<lparr>sin_addr = 16777343, sin_port = 36895\<rparr>,
      client_fd = 5, ctype = trader, logged_in = True, discarding = False, closing = False,
      subscribedJNST = False, subscribedIMCT = False, username = ''alice'', inbuf = []\<rparr>"

definition idle_os :: os where
  "idle_os = \<lparr>writes = [], reads = [], accepts = [], kevents = [], fcntls = [], mem = [], log = []\<rparr>"

text \<open>
  C11. Unless the allocator fails, a client's stream grows by exactly the lines whose send reported
  success, in order: a send that fails adds no byte. No send fails as long as no write fails for good
  and the lines fit the buffer.
\<close>

theorem clients_see_whole_lines:
  assumes "False \<notin> set (mem w)" and "\<forall>l \<in> set ls. length l \<le> OUTBUF_SIZE"
    and "send_lines sendLine c ls w = (fs, c', w')"
  shows "length fs = length ls \<and> stream c' w' = stream c w @ concat (successes fs ls) \<and>
    (reliable w \<and> outlen c + length (concat ls) \<le> OUTBUF_SIZE \<longrightarrow> True \<notin> set fs)"
  using assms(3,1,2) by (rule out.whole_lines)

theorem clients_see_whole_lines_witness:
  "fst (send_lines sendLine sample_conn [OK, [NL], OK] idle_os) = [True, False, True] \<and>
   (case send_lines sendLine sample_conn [OK, [NL], OK] idle_os of (fs, c', w') \<Rightarrow> stream c' w' = stream sample_conn idle_os @ [NL])"
proof -
  obtain fs c' w' where s: "send_lines sendLine sample_conn [OK, [NL], OK] idle_os = (fs, c', w')" by (metis prod_cases3)
  moreover have "fst (send_lines sendLine sample_conn [OK, [NL], OK] idle_os) = [True, False, True]"
    by code_simp
  moreover have "False \<notin> set (mem idle_os)" "\<forall>l \<in> set [OK, [NL], OK]. length l \<le> OUTBUF_SIZE"
    by (simp_all add: idle_os_def OK_def OUTBUF_SIZE_def)
  ultimately show ?thesis
    using clients_see_whole_lines [of idle_os "[OK, [NL], OK]" sample_conn fs c' w'] by simp
qed

text \<open>
  C12. The output buffer never exceeds OUTBUF_SIZE.
\<close>

theorem outbuf_bounded:
  assumes "outlen c \<le> OUTBUF_SIZE"
  shows "outlen (fst (snd (sendToClient c bytes w))) \<le> OUTBUF_SIZE \<and>
    outlen (fst (snd (flushToClient c w))) \<le> OUTBUF_SIZE"
proof -
  obtain f c1 w1 f2 c2 w2 where "sendToClient c bytes w = (f, c1, w1)" "flushToClient c w = (f2, c2, w2)"
    by (metis prod_cases3)
  with assms sendToClient_frame(3) flushToClient_effect show ?thesis
    by fastforce
qed

theorem outbuf_bounded_witness: "outlen (fst (snd (sendToClient sample_conn OK idle_os))) \<le> OUTBUF_SIZE"
  using outbuf_bounded [of sample_conn OK idle_os] by (simp add: sample_conn_def outlen_def pending_def OUTBUF_SIZE_def)

end
