(* ===== verification/Commands.thy ===== *)
theory Commands
  imports Book_Invariant Connection
begin

text \<open>
  The state of the exchange and the commands of \<open>src/includes/commands.c\<close>. A pointer to a connection
  is the index of its slot in the table \<open>conns\<close>, so that \<open>self\<close> and \<open>conns[fd]\<close> may name the same
  connection, as they do in the code; \<open>curr_cap\<close> is the length of the table.
\<close>

section \<open>State\<close>

record exchange =
  conns :: "ClientConnection option list"
  book :: "Order list LimitOrderBook"
  next_order_id :: int
  world :: os

definition curr_cap :: "exchange \<Rightarrow> nat" where
  "curr_cap s = length (conns s)"

definition slot :: "exchange \<Rightarrow> nat \<Rightarrow> ClientConnection option" where
  "slot s i = (if i < curr_cap s then conns s ! i else None)"

definition put :: "nat \<Rightarrow> ClientConnection \<Rightarrow> exchange \<Rightarrow> exchange" where
  "put i c s = s\<lparr>conns := (conns s)[i := Some c]\<rparr>"

definition null_deref :: "exchange \<Rightarrow> bool \<times> exchange" where
  "null_deref s = (True, s\<lparr>world := emit NullDeref (world s)\<rparr>)"

text \<open>A call on the connection that pointer \<open>i\<close> names.\<close>

definition on_conn ::
  "nat \<Rightarrow> (ClientConnection \<Rightarrow> os \<Rightarrow> bool \<times> ClientConnection \<times> os) \<Rightarrow> exchange \<Rightarrow> bool \<times> exchange" where
  "on_conn i f s =
     (case slot s i of
        None \<Rightarrow> null_deref s
      | Some c \<Rightarrow> let (r, c', w') = f c (world s) in (r, put i c' s\<lparr>world := w'\<rparr>))"

abbreviation sendTo :: "nat \<Rightarrow> string \<Rightarrow> exchange \<Rightarrow> bool \<times> exchange" where
  "sendTo i line \<equiv> on_conn i (\<lambda>c w. sendLine c line w)"

abbreviation replyTo :: "nat \<Rightarrow> string \<Rightarrow> exchange \<Rightarrow> bool \<times> exchange" where
  "replyTo i reason \<equiv> on_conn i (\<lambda>c w. replyError c reason w)"

abbreviation say :: "string \<Rightarrow> exchange \<Rightarrow> exchange" where
  "say text s \<equiv> s\<lparr>world := print text (world s)\<rparr>"

section \<open>Sessions\<close>

definition username_in_use :: "exchange \<Rightarrow> string \<Rightarrow> bool" where
  "username_in_use s name \<longleftrightarrow>
     list_ex (\<lambda>k. case k of None \<Rightarrow> False | Some c \<Rightarrow> logged_in c \<and> username c = name) (conns s)"

definition loginUser :: "string \<Rightarrow> nat \<Rightarrow> exchange \<Rightarrow> bool \<times> exchange" where
  "loginUser name self s =
     (case slot s self of
        None \<Rightarrow> null_deref s
      | Some c \<Rightarrow>
          if ctype c = market then replyTo self ''Market data clients cannot log in'' s
          else if logged_in c then replyTo self ''Already logged in'' s
          else if username_in_use s name then replyTo self ''Username already in use'' s
          else
            let c1 = c\<lparr>ctype := trader, username := take (USERNAME_LENGTH - 1) name, logged_in := True\<rparr>;
                s1 = say (''User '' @ username c1 @ '' logged in from '' @ inet_ntoa (sin_addr (caddr c)) @ '':'' @
                          show_nat (ntohs (sin_port (caddr c))) @ [NL]) (put self c1 s)
            in sendTo self OK s1)"

definition subscribeClient :: "string \<Rightarrow> nat \<Rightarrow> exchange \<Rightarrow> bool \<times> exchange" where
  "subscribeClient name self s =
     (case slot s self of
        None \<Rightarrow> null_deref s
      | Some c \<Rightarrow>
          if ctype c = trader then replyTo self ''Traders cannot subscribe to market data'' s
          else if name = ''JNST'' then
            (if subscribedJNST c then replyTo self ''Already subscribed to JNST'' s
             else sendTo self OK (put self (c\<lparr>subscribedJNST := True, ctype := market\<rparr>) s))
          else if name = ''IMCT'' then
            (if subscribedIMCT c then replyTo self ''Already subscribed to IMCT'' s
             else sendTo self OK (put self (c\<lparr>subscribedIMCT := True, ctype := market\<rparr>) s))
          else replyTo self ''Invalid instrument'' s)"

definition quitUser :: "nat \<Rightarrow> exchange \<Rightarrow> bool \<times> exchange" where
  "quitUser self s =
     (case slot s self of
        None \<Rightarrow> null_deref s
      | Some c \<Rightarrow>
          let (failed, s1) = sendTo self OK (put self (c\<lparr>closing := True\<rparr>) s)
          in (failed \<or> (case slot s1 self of None \<Rightarrow> True | Some c1 \<Rightarrow> outlen c1 = 0), s1))"

definition unsubscribeClient :: "string \<Rightarrow> nat \<Rightarrow> exchange \<Rightarrow> bool \<times> exchange" where
  "unsubscribeClient name self s =
     (case slot s self of
        None \<Rightarrow> null_deref s
      | Some c \<Rightarrow>
          if ctype c = trader then replyTo self ''Traders cannot unsubscribe from market data'' s
          else if name = ''JNST'' then
            (if \<not> subscribedJNST c then replyTo self ''Not subscribed to JNST'' s
             else sendTo self OK (put self (c\<lparr>subscribedJNST := False\<rparr>) s))
          else if name = ''IMCT'' then
            (if \<not> subscribedIMCT c then replyTo self ''Not subscribed to IMCT'' s
             else sendTo self OK (put self (c\<lparr>subscribedIMCT := False\<rparr>) s))
          else replyTo self ''Invalid instrument'' s)"

section \<open>Orders\<close>

definition notifyClient :: "int \<Rightarrow> string \<Rightarrow> nat \<Rightarrow> bool \<Rightarrow> exchange \<Rightarrow> bool \<times> exchange" where
  "notifyClient fd msg self don s =
     (if fd < 0 \<or> fd \<ge> int (curr_cap s) \<or> slot s (nat fd) = None then (don, s)
      else
        let (failed, s1) = sendTo (nat fd) msg s
        in case slot s1 self of
             None \<Rightarrow> null_deref s1
           | Some c \<Rightarrow> (don \<or> (fd = client_fd c \<and> failed), s1))"

definition inst_name :: "Instrument \<Rightarrow> string" where
  "inst_name i = (if i = JNST then ''JNST'' else ''IMCT'')"

definition fill_msg :: "string \<Rightarrow> Fill \<Rightarrow> string" where
  "fill_msg kind fill =
     snprintf 128 (kind @ '' '' @ inst_name (finstrument fill) @ '' '' @ show_int (fquantity fill) @ '' '' @
                   show_int (fprice fill) @ [NL])"

definition subscribed_to :: "ClientConnection \<Rightarrow> Instrument \<Rightarrow> bool" where
  "subscribed_to c i = (if i = JNST then subscribedJNST c else subscribedIMCT c)"

text \<open>The loop over the table that sends a trade to the subscribers; \<open>js\<close> is the rest of its indices.\<close>

fun broadcast :: "nat list \<Rightarrow> Fill \<Rightarrow> string \<Rightarrow> exchange \<Rightarrow> exchange" where
  "broadcast [] fill msg s = s"
| "broadcast (j # js) fill msg s =
     (case slot s j of
        None \<Rightarrow> broadcast js fill msg s
      | Some sub \<Rightarrow>
          if ctype sub \<noteq> market then broadcast js fill msg s
          else if subscribed_to sub (finstrument fill) then broadcast js fill msg (snd (sendTo j msg s))
          else broadcast js fill msg s)"

fun notifyFills :: "Fill list \<Rightarrow> nat \<Rightarrow> bool \<Rightarrow> exchange \<Rightarrow> bool \<times> exchange" where
  "notifyFills [] self don s = (don, s)"
| "notifyFills (fill # fills) self don s =
     (let (don1, s1) = notifyClient (buy_client_fd fill) (fill_msg ''BOUGHT'' fill) self don s;
          (don2, s2) = notifyClient (sell_client_fd fill) (fill_msg ''SOLD'' fill) self don1 s1;
          s3 = broadcast [0..<curr_cap s2] fill (fill_msg ''TRADE'' fill) s2
      in notifyFills fills self don2 s3)"

definition parse_instrument :: "string \<Rightarrow> Instrument option" where
  "parse_instrument name = (if name = ''JNST'' then Some JNST else if name = ''IMCT'' then Some IMCT else None)"

text \<open>\<open>order->id = next_order_id++\<close>: the increment wraps, and is marked when it does.\<close>

definition take_order_id :: "exchange \<Rightarrow> int \<times> exchange" where
  "take_order_id s =
     (let s1 = (if next_order_id s = INT_MAX then s\<lparr>world := emit IdOverflow (world s)\<rparr> else s)
      in (next_order_id s, s1\<lparr>next_order_id := to_int32 (next_order_id s + 1)\<rparr>))"

definition placeOrder :: "OrderSide \<Rightarrow> string \<Rightarrow> int \<Rightarrow> int \<Rightarrow> nat \<Rightarrow> exchange \<Rightarrow> bool \<times> exchange" where
  "placeOrder sd name qty prc self s =
     (case parse_instrument name of
        None \<Rightarrow> replyTo self ''Invalid instrument'' s
      | Some inst \<Rightarrow>
          if qty \<le> 0 \<or> prc \<le> 0 then replyTo self ''Quantity and price must be positive'' s
          else
            let (got, w1) = os_alloc (world s); s1 = s\<lparr>world := w1\<rparr>
            in if \<not> got then replyTo self ''Internal server error'' s1
               else
                 (case slot s1 self of
                    None \<Rightarrow> null_deref s1
                  | Some c \<Rightarrow>
                      let (i, s2) = take_order_id s1;
                          ord = \<lparr>oid = i, quantity = qty, price = prc, owner_fd = client_fd c, side = sd, instrument = inst\<rparr>;
                          (don, s3) = sendTo self (snprintf 128 (''ORDER_ACCEPTED '' @ show_int i @ [NL])) s2;
                          (fills, book', m') = addOrder (mem (world s3)) (book s3) ord
                      in notifyFills fills self don (s3\<lparr>book := book', world := (world s3)\<lparr>mem := m'\<rparr>\<rparr>)))"

definition cancelUserOrder :: "string \<Rightarrow> nat \<Rightarrow> exchange \<Rightarrow> bool \<times> exchange" where
  "cancelUserOrder arg self s =
     (let (i, rest) = strtol arg
      in if rest \<noteq> [] \<or> length rest = length arg \<or> i < 0 \<or> i > INT_MAX then replyTo self ''Invalid order id'' s
         else
           (case slot s self of
              None \<Rightarrow> null_deref s
            | Some c \<Rightarrow>
                let (found, book') = cancelOrder (book s) i (client_fd c)
                in if \<not> found then replyTo self ''No such order'' s
                   else sendTo self (snprintf 128 (''ORDER_CANCELLED '' @ show_int i @ [NL])) (s\<lparr>book := book'\<rparr>)))"

text \<open>The ways through \<open>placeOrder\<close>, for an open connection.\<close>

lemma placeOrderE:
  assumes "slot s self = Some c"
  obtains (rejected) reason where "placeOrder sd name qty prc self s = replyTo self reason s"
  | (nomem) w1 where "os_alloc (world s) = (False, w1)"
      and "placeOrder sd name qty prc self s = replyTo self ''Internal server error'' (s\<lparr>world := w1\<rparr>)"
  | (placed) inst w1 i s2 don s3 fills b' m' where "parse_instrument name = Some inst" and "0 < qty" and "0 < prc"
      and "os_alloc (world s) = (True, w1)" and "take_order_id (s\<lparr>world := w1\<rparr>) = (i, s2)"
      and "sendTo self (snprintf 128 (''ORDER_ACCEPTED '' @ show_int i @ [NL])) s2 = (don, s3)"
      and "addOrder (mem (world s3)) (book s3)
            \<lparr>oid = i, quantity = qty, price = prc, owner_fd = client_fd c, side = sd, instrument = inst\<rparr> = (fills, b', m')"
      and "placeOrder sd name qty prc self s = notifyFills fills self don (s3\<lparr>book := b', world := (world s3)\<lparr>mem := m'\<rparr>\<rparr>)"
proof (cases "parse_instrument name = None \<or> qty \<le> 0 \<or> prc \<le> 0")
  case True
  then have "\<exists>reason. placeOrder sd name qty prc self s = replyTo self reason s"
    unfolding placeOrder_def by (cases "parse_instrument name") (simp_all add: exI [of _ "''Invalid instrument''"], blast+)
  then show thesis
    using rejected by blast
next
  case False
  then obtain inst where inst: "parse_instrument name = Some inst" and pos: "0 < qty" "0 < prc" by auto
  obtain got w1 where al: "os_alloc (world s) = (got, w1)" by fastforce
  obtain i s2 where t: "take_order_id (s\<lparr>world := w1\<rparr>) = (i, s2)" by fastforce
  obtain don s3 where sent: "sendTo self (snprintf 128 (''ORDER_ACCEPTED '' @ show_int i @ [NL])) s2 = (don, s3)" by fastforce
  obtain fills b' m' where a: "addOrder (mem (world s3)) (book s3)
      \<lparr>oid = i, quantity = qty, price = prc, owner_fd = client_fd c, side = sd, instrument = inst\<rparr> = (fills, b', m')"
    by (metis prod_cases3)
  have c1: "slot (s\<lparr>world := w1\<rparr>) self = Some c"
    using assms by (simp add: slot_def curr_cap_def split: if_splits)
  show thesis
  proof (cases got)
    case True
    with placed [OF inst pos _ t sent a] show thesis
      using inst pos al c1 t sent a by (simp add: placeOrder_def Let_def)
  next
    case False
    with nomem [of w1] show thesis
      using inst pos al by (simp add: placeOrder_def Let_def)
  qed
qed

end
