(* ===== verification/Exchange_Invariant.thy ===== *)
theory Exchange_Invariant
  imports Commands
begin

text \<open>
  The invariant of the exchange between commands, and its preservation by every command. It ties the
  connection table and the order book together: each resting order belongs to nobody or to a
  logged-in trader whose connection is open.
\<close>

section \<open>The invariant\<close>

definition conn_ok :: "nat \<Rightarrow> ClientConnection \<Rightarrow> bool" where
  "conn_ok i c \<longleftrightarrow>
     client_fd c = int i \<and> outlen c \<le> OUTBUF_SIZE \<and>
     (logged_in c \<longleftrightarrow> ctype c = trader) \<and>
     (subscribedJNST c \<or> subscribedIMCT c \<longrightarrow> ctype c = market) \<and>
     length (username c) < USERNAME_LENGTH"

definition names_unique :: "exchange \<Rightarrow> bool" where
  "names_unique s \<longleftrightarrow>
     (\<forall>i j c d. slot s i = Some c \<and> slot s j = Some d \<and> logged_in c \<and> logged_in d \<and> username c = username d \<longrightarrow> i = j)"

definition owner_ok :: "exchange \<Rightarrow> int \<Rightarrow> bool" where
  "owner_ok s fd \<longleftrightarrow> fd = - 1 \<or> (\<exists>i c. fd = int i \<and> slot s i = Some c \<and> logged_in c)"

definition book_inv :: "exchange \<Rightarrow> bool" where
  "book_inv s \<longleftrightarrow>
     IdOverflow \<in> set (log (world s)) \<or>
     (0 \<le> next_order_id s \<and> next_order_id s \<le> INT_MAX \<and> book_ok (next_order_id s) (book s) \<and>
      (\<forall>ord \<in> set (resting (book s)). owner_ok s (owner_fd ord)))"

definition exchange_ok :: "exchange \<Rightarrow> bool" where
  "exchange_ok s \<longleftrightarrow>
     0 < curr_cap s \<and> (\<forall>i c. slot s i = Some c \<longrightarrow> conn_ok i c) \<and> names_unique s \<and> book_inv s \<and>
     NullDeref \<notin> set (log (world s))"

section \<open>Operations that only write to clients\<close>

text \<open>
  \<open>writes_only s s'\<close>: the output buffers and the log may differ, the rest is the same. It is what every
  reply and notification does, so the invariant is proved for it once.
\<close>

definition same_but_output :: "ClientConnection \<Rightarrow> ClientConnection \<Rightarrow> bool" where
  "same_but_output c c' \<longleftrightarrow>
     c'\<lparr>outbuf := None\<rparr> = c\<lparr>outbuf := None\<rparr> \<and> (outlen c \<le> OUTBUF_SIZE \<longrightarrow> outlen c' \<le> OUTBUF_SIZE)"

definition writes_only :: "exchange \<Rightarrow> exchange \<Rightarrow> bool" where
  "writes_only s s' \<longleftrightarrow>
     list_all2 (rel_option same_but_output) (conns s) (conns s') \<and> book s' = book s \<and>
     next_order_id s' = next_order_id s \<and> touches UNIV (world s) (world s')"

lemma same_but_output_refl [simp]: "same_but_output c c"
  by (simp add: same_but_output_def)

lemma same_but_output_trans: "same_but_output a b \<Longrightarrow> same_but_output b c \<Longrightarrow> same_but_output a c"
  by (simp add: same_but_output_def)

lemma same_but_output_fields:
  assumes "same_but_output c c'"
  shows "client_fd c' = client_fd c" "ctype c' = ctype c" "logged_in c' = logged_in c" "username c' = username c"
    "subscribedJNST c' = subscribedJNST c" "subscribedIMCT c' = subscribedIMCT c" "inbuf c' = inbuf c"
    "scanned_len c' = scanned_len c" "discarding c' = discarding c" "closing c' = closing c" "caddr c' = caddr c"
proof -
  have e: "c'\<lparr>outbuf := None\<rparr> = c\<lparr>outbuf := None\<rparr>"
    using assms by (simp add: same_but_output_def)
  show "client_fd c' = client_fd c" using arg_cong [OF e, of client_fd] by simp
  show "ctype c' = ctype c" using arg_cong [OF e, of ctype] by simp
  show "logged_in c' = logged_in c" using arg_cong [OF e, of logged_in] by simp
  show "username c' = username c" using arg_cong [OF e, of username] by simp
  show "subscribedJNST c' = subscribedJNST c" using arg_cong [OF e, of subscribedJNST] by simp
  show "subscribedIMCT c' = subscribedIMCT c" using arg_cong [OF e, of subscribedIMCT] by simp
  show "inbuf c' = inbuf c" using arg_cong [OF e, of inbuf] by simp
  show "scanned_len c' = scanned_len c" using arg_cong [OF e, of scanned_len] by simp
  show "discarding c' = discarding c" using arg_cong [OF e, of discarding] by simp
  show "closing c' = closing c" using arg_cong [OF e, of closing] by simp
  show "caddr c' = caddr c" using arg_cong [OF e, of caddr] by simp
qed

lemma same_but_output_conn_ok: "same_but_output c c' \<Longrightarrow> conn_ok i c \<Longrightarrow> conn_ok i c'"
  using same_but_output_fields [of c c'] by (auto simp: conn_ok_def same_but_output_def)

lemma writes_only_refl [simp]: "writes_only s s"
  by (simp add: writes_only_def list_all2_refl option.rel_refl)

lemma rel_same_trans:
  "rel_option same_but_output a b \<Longrightarrow> rel_option same_but_output b c \<Longrightarrow> rel_option same_but_output a c"
  by (cases a; cases b; cases c) (auto intro: same_but_output_trans)

lemma writes_only_trans:
  assumes "writes_only s s1" and "writes_only s1 s2"
  shows "writes_only s s2"
proof -
  have "list_all2 (rel_option same_but_output) (conns s) (conns s2)"
    by (rule list_all2_trans [OF rel_same_trans]) (use assms in \<open>auto simp: writes_only_def\<close>)
  with assms show ?thesis
    by (auto simp: writes_only_def intro: touches_trans)
qed

lemma writes_only_cap: "writes_only s s' \<Longrightarrow> curr_cap s' = curr_cap s"
  by (auto simp: writes_only_def curr_cap_def dest: list_all2_lengthD)

lemma writes_only_slot: "writes_only s s' \<Longrightarrow> rel_option same_but_output (slot s i) (slot s' i)"
  by (auto simp: slot_def curr_cap_def writes_only_def list_all2_conv_all_nth)

lemma writes_only_Some:
  assumes "writes_only s s'"
  shows "slot s i = Some c \<Longrightarrow> \<exists>c'. slot s' i = Some c' \<and> same_but_output c c'"
    and "slot s' i = Some c' \<Longrightarrow> \<exists>c. slot s i = Some c \<and> same_but_output c c'"
    and "slot s' i = None \<longleftrightarrow> slot s i = None"
  using writes_only_slot [OF assms, of i] by (cases "slot s i"; cases "slot s' i"; auto)+

lemma writes_only_owner: "writes_only s s' \<Longrightarrow> owner_ok s fd \<Longrightarrow> owner_ok s' fd"
  unfolding owner_ok_def using writes_only_Some(1) same_but_output_fields(3) by metis

lemma writes_only_ok:
  assumes w: "writes_only s s'" and ok: "exchange_ok s"
  shows "exchange_ok s'"
  unfolding exchange_ok_def
proof (intro conjI allI impI)
  have t: "touches UNIV (world s) (world s')"
    using w by (simp add: writes_only_def)
  show "0 < curr_cap s'"
    using ok writes_only_cap [OF w] by (simp add: exchange_ok_def)
  show "conn_ok i c" if "slot s' i = Some c" for i c
    using writes_only_Some(2) [OF w that] ok same_but_output_conn_ok by (auto simp: exchange_ok_def)
  show "names_unique s'"
    unfolding names_unique_def
  proof (intro allI impI, elim conjE)
    fix i j c' d'
    assume a: "slot s' i = Some c'" "slot s' j = Some d'" "logged_in c'" "logged_in d'" "username c' = username d'"
    obtain c d where "slot s i = Some c" "same_but_output c c'" "slot s j = Some d" "same_but_output d d'"
      using writes_only_Some(2) [OF w] a(1,2) by metis
    with a(3-5) same_but_output_fields(3,4) [of c c'] same_but_output_fields(3,4) [of d d'] ok show "i = j"
      unfolding exchange_ok_def names_unique_def by metis
  qed
  show "book_inv s'"
    using ok w writes_only_owner [OF w] touches_events [OF t, of IdOverflow]
    by (auto simp: exchange_ok_def book_inv_def writes_only_def)
  show "NullDeref \<notin> set (log (world s'))"
    using ok touches_events [OF t, of NullDeref] by (simp add: exchange_ok_def)
qed

lemma slot_put [simp]: "slot (put i c s) j = (if j = i \<and> i < curr_cap s then Some c else slot s j)"
  by (auto simp: slot_def put_def curr_cap_def)

lemma put_simps [simp]:
  "curr_cap (put i c s) = curr_cap s" "book (put i c s) = book s" "next_order_id (put i c s) = next_order_id s"
  "world (put i c s) = world s" "conns (put i c s) = (conns s)[i := Some c]"
  by (simp_all add: put_def curr_cap_def)

lemma slot_upd [simp]:
  "slot (s\<lparr>world := w\<rparr>) i = slot s i" "slot (s\<lparr>book := b\<rparr>) i = slot s i" "slot (s\<lparr>next_order_id := n\<rparr>) i = slot s i"
  "curr_cap (s\<lparr>world := w\<rparr>) = curr_cap s" "curr_cap (s\<lparr>book := b\<rparr>) = curr_cap s"
  "curr_cap (s\<lparr>next_order_id := n\<rparr>) = curr_cap s"
  by (simp_all add: slot_def curr_cap_def)

lemma slot_Some_less: "slot s i = Some c \<Longrightarrow> i < curr_cap s \<and> conns s ! i = Some c"
  by (simp add: slot_def split: if_splits)

text \<open>A call on an open connection that keeps all but the connection's output.\<close>

lemma on_conn_writes_only:
  assumes "slot s i = Some c"
    and "\<And>c w failed c' w'. f c w = (failed, c', w') \<Longrightarrow> same_but_output c c' \<and> touches UNIV w w'"
  shows "writes_only s (snd (on_conn i f s))"
proof -
  obtain failed c' w' where f: "f c (world s) = (failed, c', w')" by (metis prod_cases3)
  note i = slot_Some_less [OF assms(1)]
  have "list_all2 (rel_option same_but_output) (conns s) ((conns s)[i := Some c'])"
    using assms(2) [OF f] i
    by (auto simp: list_all2_conv_all_nth curr_cap_def nth_list_update option.rel_refl)
  with assms f show ?thesis
    by (auto simp: on_conn_def writes_only_def)
qed

lemma truncated: "c' = c\<lparr>outbuf := x\<rparr> \<Longrightarrow> c'\<lparr>outbuf := None\<rparr> = c\<lparr>outbuf := None\<rparr>"
  by simp

lemma sendLine_same:
  assumes "sendLine c l w = (failed, c', w')"
  shows "same_but_output c c' \<and> touches UNIV w w'"
  unfolding same_but_output_def
  using truncated [OF out.frame [OF assms]] out.bounded [OF assms] touches_mono [OF out.quiet [OF assms]] by blast

lemma sendTo_writes_only: "slot s i = Some c \<Longrightarrow> writes_only s (snd (sendTo i l s))"
  by (rule on_conn_writes_only) (auto dest: sendLine_same)

lemma replyTo_writes_only: "slot s i = Some c \<Longrightarrow> writes_only s (snd (replyTo i reason s))"
  by (rule on_conn_writes_only) (auto simp: replyError_def dest: sendLine_same)

lemma say_writes_only [simp]: "writes_only s (say text s')" if "writes_only s s'"
  using that by (auto simp: writes_only_def)

lemma notifyClient_writes_only:
  assumes "slot s self = Some c"
  shows "writes_only s (snd (notifyClient fd msg self don s))"
proof (cases "fd < 0 \<or> fd \<ge> int (curr_cap s) \<or> slot s (nat fd) = None")
  case False
  then obtain c1 where "slot s (nat fd) = Some c1" by auto
  then have w: "writes_only s (snd (sendTo (nat fd) msg s))"
    by (rule sendTo_writes_only)
  obtain f s1 where s1: "sendTo (nat fd) msg s = (f, s1)" by fastforce
  with writes_only_Some(1) [OF w assms] obtain c' where "slot s1 self = Some c'" by auto
  with False w s1 show ?thesis
    by (simp add: notifyClient_def)
qed (simp add: notifyClient_def)

lemma broadcast_writes_only: "writes_only s (broadcast js fill msg s)"
proof (induction js arbitrary: s)
  case (Cons j js)
  show ?case
  proof (cases "slot s j")
    case None
    with Cons show ?thesis by simp
  next
    case (Some c)
    with Cons [of s] Cons [of "snd (sendTo j msg s)"] sendTo_writes_only [OF Some] show ?thesis
      by (auto intro: writes_only_trans)
  qed
qed simp

lemma notifyFills_writes_only:
  "slot s self = Some c \<Longrightarrow> writes_only s (snd (notifyFills fills self don s))"
proof (induction fills arbitrary: s don c)
  case (Cons f fills)
  obtain d1 s1 where 1: "notifyClient (buy_client_fd f) (fill_msg ''BOUGHT'' f) self don s = (d1, s1)" by fastforce
  obtain d2 s2 where 2: "notifyClient (sell_client_fd f) (fill_msg ''SOLD'' f) self d1 s1 = (d2, s2)" by fastforce
  let ?s3 = "broadcast [0..<curr_cap s2] f (fill_msg ''TRADE'' f) s2"
  have w1: "writes_only s s1"
    using notifyClient_writes_only [OF Cons.prems] 1 by (metis snd_conv)
  obtain c1 where c1: "slot s1 self = Some c1"
    using writes_only_Some(1) [OF w1 Cons.prems] by blast
  have w2: "writes_only s1 s2"
    using notifyClient_writes_only [OF c1] 2 by (metis snd_conv)
  have w3: "writes_only s ?s3"
    using w1 w2 broadcast_writes_only by (blast intro: writes_only_trans)
  then obtain c3 where "slot ?s3 self = Some c3"
    using writes_only_Some(1) [OF w3 Cons.prems] by blast
  from Cons.IH [OF this, of d2] w3 1 2 show ?case
    by (auto intro: writes_only_trans)
qed simp

section \<open>The commands keep the invariant\<close>

lemma exchange_okD:
  assumes "exchange_ok s"
  shows "0 < curr_cap s" and "slot s i = Some c \<Longrightarrow> conn_ok i c" and "names_unique s" and "book_inv s"
    and "NullDeref \<notin> set (log (world s))"
  using assms by (auto simp: exchange_ok_def)

lemma writes_only_result:
  assumes "writes_only s s'" and "exchange_ok s" and "slot s self = Some c"
  shows "exchange_ok s' \<and> (\<exists>c'. slot s' self = Some c' \<and> same_but_output c c')"
  using writes_only_ok [OF assms(1,2)] writes_only_Some(1) [OF assms(1,3)] by blast

lemma replyTo_ok:
  "exchange_ok s \<Longrightarrow> slot s self = Some c \<Longrightarrow> exchange_ok (snd (replyTo self reason s)) \<and> slot (snd (replyTo self reason s)) self \<noteq> None"
  using writes_only_result [OF replyTo_writes_only] by blast

lemma sendTo_ok:
  "exchange_ok s \<Longrightarrow> slot s self = Some c \<Longrightarrow> exchange_ok (snd (sendTo self l s)) \<and> slot (snd (sendTo self l s)) self \<noteq> None"
  using writes_only_result [OF sendTo_writes_only] by blast

lemma put_ok:
  assumes ok: "exchange_ok s" and c: "slot s self = Some c" and c1: "conn_ok self c1" "logged_in c \<Longrightarrow> logged_in c1"
    and names: "\<And>j d. j \<noteq> self \<Longrightarrow> slot s j = Some d \<Longrightarrow> logged_in d \<Longrightarrow> logged_in c1 \<Longrightarrow> username d \<noteq> username c1"
  shows "exchange_ok (put self c1 s)"
proof -
  have i: "self < curr_cap s"
    using slot_Some_less [OF c] by simp
  have owner: "owner_ok (put self c1 s) fd" if "owner_ok s fd" for fd
    using that c c1(2) i by (auto simp: owner_ok_def)
  have "names_unique (put self c1 s)"
    unfolding names_unique_def
  proof (intro allI impI, elim conjE)
    fix j k d e
    assume a: "slot (put self c1 s) j = Some d" "slot (put self c1 s) k = Some e" "logged_in d" "logged_in e" "username d = username e"
    show "j = k"
      using a names [of k e] names [of j d] exchange_okD(3) [OF ok, unfolded names_unique_def, rule_format, of j d k e] i
      by (auto split: if_splits)
  qed
  moreover have "book_inv (put self c1 s)"
    using exchange_okD(4) [OF ok] owner by (auto simp: book_inv_def)
  ultimately show ?thesis
    using ok c1 i by (auto simp: exchange_ok_def split: if_splits)
qed

lemma put_same_names:
  assumes "exchange_ok s" and "slot s self = Some c" and "username c1 = username c" and "logged_in c1 = logged_in c"
    and "conn_ok self c1"
  shows "exchange_ok (put self c1 s)"
proof (rule put_ok [OF assms(1,2,5)])
  fix j d assume "j \<noteq> self" "slot s j = Some d" "logged_in d" "logged_in c1"
  then show "username d \<noteq> username c1"
    using exchange_okD(3) [OF assms(1)] assms(2-4) unfolding names_unique_def by metis
qed (use assms in simp)

lemma username_in_use_iff: "username_in_use s name \<longleftrightarrow> (\<exists>j d. slot s j = Some d \<and> logged_in d \<and> username d = name)"
proof -
  have "username_in_use s name \<longleftrightarrow> (\<exists>d. Some d \<in> set (conns s) \<and> logged_in d \<and> username d = name)"
    unfolding username_in_use_def list_ex_iff by (force split: option.splits)
  moreover have "Some d \<in> set (conns s) \<longleftrightarrow> (\<exists>j. slot s j = Some d)" for d
    by (auto simp: in_set_conv_nth slot_def curr_cap_def split: if_splits)
  ultimately show ?thesis by blast
qed

lemma say_ok [simp]: "exchange_ok (say text s) \<longleftrightarrow> exchange_ok s"
  by (simp add: exchange_ok_def names_unique_def book_inv_def owner_ok_def)

lemma say_sendTo_ok:
  "exchange_ok s \<Longrightarrow> slot s self = Some c \<Longrightarrow>
   exchange_ok (snd (sendTo self l (say out s))) \<and> slot (snd (sendTo self l (say out s))) self \<noteq> None"
  by (rule sendTo_ok [of _ self c]) (simp_all del: put_simps)

lemma loginUser_ok:
  assumes ok: "exchange_ok s" and c: "slot s self = Some c" and name: "length name < USERNAME_LENGTH"
  shows "exchange_ok (snd (loginUser name self s)) \<and> slot (snd (loginUser name self s)) self \<noteq> None"
proof (cases "ctype c = market \<or> logged_in c \<or> username_in_use s name")
  case True
  then show ?thesis
    using replyTo_ok [OF ok c] c by (auto simp: loginUser_def)
next
  case False
  let ?c1 = "c\<lparr>ctype := trader, username := take (USERNAME_LENGTH - 1) name, logged_in := True\<rparr>"
  have take: "take (USERNAME_LENGTH - 1) name = name"
    using name by (simp add: config_defs)
  have "conn_ok self ?c1"
    using exchange_okD(2) [OF ok c] False name by (auto simp: conn_ok_def take outlen_def pending_def)
  moreover have "username d \<noteq> username ?c1" if "slot s j = Some d" "logged_in d" for j d
    using False that by (auto simp: username_in_use_iff take [unfolded One_nat_def])
  ultimately have "exchange_ok (put self ?c1 s)"
    by (intro put_ok [OF ok c]) auto
  moreover have "slot (put self ?c1 s) self = Some ?c1"
    using slot_Some_less [OF c] by simp
  ultimately have "exchange_ok (snd (sendTo self l (say out (put self ?c1 s)))) \<and>
      slot (snd (sendTo self l (say out (put self ?c1 s)))) self \<noteq> None" for l out
    by (rule say_sendTo_ok)
  then show ?thesis
    using False c by (simp only: loginUser_def Let_def option.case if_False de_Morgan_disj) simp
qed

lemma send_after_put:
  assumes "exchange_ok (put self c1 s)" and "slot s self = Some c"
  shows "exchange_ok (snd (sendTo self l (put self c1 s))) \<and> slot (snd (sendTo self l (put self c1 s))) self \<noteq> None"
  using slot_Some_less [OF assms(2)] by (intro sendTo_ok [OF assms(1), of self c1]) simp

lemma subscribeClient_ok:
  assumes ok: "exchange_ok s" and c: "slot s self = Some c"
  shows "exchange_ok (snd (subscribeClient name self s)) \<and> slot (snd (subscribeClient name self s)) self \<noteq> None"
proof -
  have "exchange_ok (put self (c\<lparr>subscribedJNST := True, ctype := market\<rparr>) s)"
    and "exchange_ok (put self (c\<lparr>subscribedIMCT := True, ctype := market\<rparr>) s)" if "ctype c \<noteq> trader"
    using exchange_okD(2) [OF ok c] that
    by (auto intro!: put_same_names [OF ok c] simp: conn_ok_def outlen_def pending_def)
  then show ?thesis
    using c replyTo_ok [OF ok c] send_after_put [OF _ c] by (simp add: subscribeClient_def)
qed

lemma unsubscribeClient_ok:
  assumes ok: "exchange_ok s" and c: "slot s self = Some c"
  shows "exchange_ok (snd (unsubscribeClient name self s)) \<and> slot (snd (unsubscribeClient name self s)) self \<noteq> None"
proof -
  have "exchange_ok (put self (c\<lparr>subscribedJNST := False\<rparr>) s)" and "exchange_ok (put self (c\<lparr>subscribedIMCT := False\<rparr>) s)"
    using exchange_okD(2) [OF ok c]
    by (auto intro!: put_same_names [OF ok c] simp: conn_ok_def outlen_def pending_def)
  then show ?thesis
    using c replyTo_ok [OF ok c] send_after_put [OF _ c] by (simp add: unsubscribeClient_def)
qed

lemma quitUser_ok:
  assumes ok: "exchange_ok s" and c: "slot s self = Some c"
  shows "exchange_ok (snd (quitUser self s)) \<and> slot (snd (quitUser self s)) self \<noteq> None"
proof -
  have "exchange_ok (put self (c\<lparr>closing := True\<rparr>) s)"
    using exchange_okD(2) [OF ok c]
    by (auto intro!: put_same_names [OF ok c] simp: conn_ok_def outlen_def pending_def)
  then show ?thesis
    using c send_after_put [OF _ c] by (simp add: quitUser_def split: prod.split) (metis snd_conv)
qed


section \<open>Orders keep the invariant\<close>

lemma alloc_ok:
  "exchange_ok s \<Longrightarrow> os_alloc (world s) = (got, w1) \<Longrightarrow> exchange_ok (s\<lparr>world := w1\<rparr>)"
  by (auto simp: os_alloc_def exchange_ok_def names_unique_def book_inv_def owner_ok_def split: prod.splits)

lemma take_order_id_ok:
  assumes ok: "exchange_ok s" and t: "take_order_id s = (i, s2)"
  shows "exchange_ok s2" and "slot s2 j = slot s j" and "curr_cap s2 = curr_cap s" and "book s2 = book s"
    and "IdOverflow \<in> set (log (world s2)) \<or>
         0 \<le> i \<and> next_order_id s2 = i + 1 \<and> i < INT_MAX \<and> book_ok i (book s2) \<and>
         (\<forall>ord \<in> set (resting (book s2)). owner_ok s2 (owner_fd ord))"
proof -
  show slots: "slot s2 j = slot s j" "curr_cap s2 = curr_cap s" "book s2 = book s" for j
    using t by (auto simp: take_order_id_def Let_def slot_def curr_cap_def split: if_splits)
  have owner: "owner_ok s2 fd = owner_ok s fd" for fd
    using slots by (simp add: owner_ok_def)
  show over: "IdOverflow \<in> set (log (world s2)) \<or>
         0 \<le> i \<and> next_order_id s2 = i + 1 \<and> i < INT_MAX \<and> book_ok i (book s2) \<and>
         (\<forall>ord \<in> set (resting (book s2)). owner_ok s2 (owner_fd ord))"
    using exchange_okD(4) [OF ok] t unfolding owner slots
    by (auto simp: take_order_id_def Let_def book_inv_def to_int32_id split: if_splits)
  have "book_inv s2"
    using over book_ok_mono [of i "book s2" "i + 1"] by (auto simp: book_inv_def)
  moreover have "NullDeref \<notin> set (log (world s2))"
    using exchange_okD(5) [OF ok] t by (auto simp: take_order_id_def Let_def split: if_splits)
  ultimately show "exchange_ok s2"
    using ok slots by (simp add: exchange_ok_def names_unique_def)
qed

lemma addOrder_step_ok:
  assumes ok: "exchange_ok s" and c: "slot s self = Some c" "logged_in c"
    and i: "IdOverflow \<in> set (log (world s)) \<or> 0 \<le> i \<and> next_order_id s = i + 1 \<and> book_ok i (book s)"
    and ord: "oid ord = i" "owner_fd ord = client_fd c" "0 < quantity ord" "quantity ord \<le> INT_MAX"
      "0 < price ord" "price ord \<le> INT_MAX"
    and a: "addOrder m (book s) ord = (fills, b', m')"
  shows "exchange_ok (s\<lparr>book := b', world := (world s)\<lparr>mem := m'\<rparr>\<rparr>)"
proof -
  let ?s = "s\<lparr>book := b', world := (world s)\<lparr>mem := m'\<rparr>\<rparr>"
  have fd: "client_fd c = int self"
    using exchange_okD(2) [OF ok c(1)] by (simp add: conn_ok_def)
  have owner: "owner_ok ?s fd = owner_ok s fd" for fd
    by (simp add: owner_ok_def)
  have "book_inv ?s"
  proof (cases "IdOverflow \<in> set (log (world s))")
    case False
    then have n: "next_order_id s = i + 1" "book_ok i (book s)" "i + 1 \<le> INT_MAX" "0 \<le> i"
      and o: "\<forall>x \<in> set (resting (book s)). owner_ok s (owner_fd x)"
      using i exchange_okD(4) [OF ok] by (auto simp: book_inv_def)
    have new: "new_order_ok i ord"
      using ord fd n(4) by (simp add: new_order_ok_def)
    have self: "owner_ok s (owner_fd ord)"
      using c ord(2) fd by (auto simp: owner_ok_def)
    have "owner_ok s (owner_fd x)" if "x \<in> set (resting b')" for x
      using lists.add_orders [OF n(2) new a that] o self by auto
    with n lists.add_keeps [OF n(2) new a] show ?thesis
      by (auto simp: book_inv_def owner)
  qed (simp add: book_inv_def)
  with ok show ?thesis
    by (simp add: exchange_ok_def names_unique_def)
qed

lemma placeOrder_ok:
  assumes ok: "exchange_ok s" and c: "slot s self = Some c" "logged_in c" and range: "qty \<le> INT_MAX" "prc \<le> INT_MAX"
  shows "exchange_ok (snd (placeOrder sd name qty prc self s)) \<and> slot (snd (placeOrder sd name qty prc self s)) self \<noteq> None"
proof (cases "parse_instrument name = None \<or> qty \<le> 0 \<or> prc \<le> 0")
  case True
  then show ?thesis
    using replyTo_ok [OF ok c(1)] by (auto simp: placeOrder_def split: option.splits)
next
  case False
  then obtain inst where inst: "parse_instrument name = Some inst" and pos: "0 < qty" "0 < prc" by auto
  obtain got w1 where al: "os_alloc (world s) = (got, w1)" by fastforce
  let ?s1 = "s\<lparr>world := w1\<rparr>"
  have ok1: "exchange_ok ?s1"
    using alloc_ok [OF ok al] .
  have c1: "slot ?s1 self = Some c"
    using c by simp
  obtain i s2 where t: "take_order_id ?s1 = (i, s2)" by fastforce
  note t' = take_order_id_ok [OF ok1 t]
  let ?l = "snprintf 128 (''ORDER_ACCEPTED '' @ show_int i @ [NL])"
  obtain don s3 where sd3: "sendTo self ?l s2 = (don, s3)" by fastforce
  have c2: "slot s2 self = Some c"
    using t'(2) c1 by simp
  have w3: "writes_only s2 s3"
    using sendTo_writes_only [OF c2] sd3 by (metis snd_conv)
  obtain c3 where c3: "slot s3 self = Some c3" "same_but_output c c3"
    using writes_only_Some(1) [OF w3 c2] by blast
  let ?ord = "\<lparr>oid = i, quantity = qty, price = prc, owner_fd = client_fd c, side = sd, instrument = inst\<rparr>"
  obtain fills b' m' where a: "addOrder (mem (world s3)) (book s3) ?ord = (fills, b', m')" by (metis prod_cases3)
  let ?s4 = "s3\<lparr>book := b', world := (world s3)\<lparr>mem := m'\<rparr>\<rparr>"
  have ok4: "exchange_ok ?s4"
  proof (rule addOrder_step_ok [OF writes_only_ok [OF w3 t'(1)] c3(1) _ _ _ _ _ _ _ _ a])
    show "logged_in c3"
      using same_but_output_fields [OF c3(2)] c by simp
    show "IdOverflow \<in> set (log (world s3)) \<or> 0 \<le> i \<and> next_order_id s3 = i + 1 \<and> book_ok i (book s3)"
      using t'(5) w3 by (auto simp: writes_only_def touches_def)
  qed (use same_but_output_fields [OF c3(2)] pos range in simp_all)
  have w5: "writes_only ?s4 (snd (notifyFills fills self don ?s4))"
    by (rule notifyFills_writes_only [of _ _ c3]) (simp add: c3)
  have "placeOrder sd name qty prc self s = (if \<not> got then replyTo self ''Internal server error'' ?s1
      else notifyFills fills self don ?s4)"
    unfolding placeOrder_def using inst pos al c1 t sd3 a by (simp add: Let_def)
  then show ?thesis
    using replyTo_ok [OF ok1 c1] writes_only_result [OF w5 ok4, of self c3] c3(1) by auto
qed

lemma cancel_book_ok:
  assumes ok: "exchange_ok s" and c: "cancelOrder (book s) i fd = (found, b')"
  shows "exchange_ok (s\<lparr>book := b'\<rparr>)"
proof -
  have owner: "owner_ok (s\<lparr>book := b'\<rparr>) fd = owner_ok s fd" for fd
    by (simp add: owner_ok_def)
  have "book_inv (s\<lparr>book := b'\<rparr>)"
    using exchange_okD(4) [OF ok] lists.cancel_keeps [of "next_order_id s" "book s" i fd]
      lists.cancel_orders [of "next_order_id s" "book s" i fd] c
    by (auto simp: book_inv_def owner)
  with ok show ?thesis
    by (simp add: exchange_ok_def names_unique_def)
qed

lemma cancelUserOrder_ok:
  assumes ok: "exchange_ok s" and c: "slot s self = Some c"
  shows "exchange_ok (snd (cancelUserOrder arg self s)) \<and> slot (snd (cancelUserOrder arg self s)) self \<noteq> None"
proof -
  obtain i rest where st: "strtol arg = (i, rest)" by fastforce
  obtain found b' where co: "cancelOrder (book s) i (client_fd c) = (found, b')" by fastforce
  show ?thesis
    using replyTo_ok [OF ok c] sendTo_ok [OF cancel_book_ok [OF ok co], of self c] st co c
    by (simp add: cancelUserOrder_def)
qed

section \<open>The commands leave the input side alone\<close>

text \<open>
  What \<open>communicate\<close> relies on while it cuts lines out of a connection's input buffer: a command opens and
  closes no connection, touches no input buffer, and consumes no answer of another system call.
\<close>

definition same_input :: "ClientConnection \<Rightarrow> ClientConnection \<Rightarrow> bool" where
  "same_input c c' \<longleftrightarrow>
     inbuf c' = inbuf c \<and> scanned_len c' = scanned_len c \<and> discarding c' = discarding c \<and>
     client_fd c' = client_fd c \<and> caddr c' = caddr c \<and> (closing c \<longrightarrow> closing c')"

definition same_scripts :: "os \<Rightarrow> os \<Rightarrow> bool" where
  "same_scripts w w' \<longleftrightarrow> reads w' = reads w \<and> accepts w' = accepts w \<and> kevents w' = kevents w \<and> fcntls w' = fcntls w"

definition serves :: "exchange \<Rightarrow> exchange \<Rightarrow> bool" where
  "serves s s' \<longleftrightarrow> list_all2 (rel_option same_input) (conns s) (conns s') \<and> same_scripts (world s) (world s')"

lemma same_input_refl [simp]: "same_input c c"
  by (simp add: same_input_def)

lemma rel_input_trans:
  "rel_option same_input a b \<Longrightarrow> rel_option same_input b c \<Longrightarrow> rel_option same_input a c"
  by (cases a; cases b; cases c) (auto simp: same_input_def)

lemma serves_refl [simp]: "serves s s"
  by (simp add: serves_def same_scripts_def list_all2_refl option.rel_refl)

lemma serves_trans:
  assumes "serves s s1" and "serves s1 s2"
  shows "serves s s2"
proof -
  have "list_all2 (rel_option same_input) (conns s) (conns s2)"
    by (rule list_all2_trans [OF rel_input_trans]) (use assms in \<open>auto simp: serves_def\<close>)
  with assms show ?thesis
    by (auto simp: serves_def same_scripts_def)
qed

lemma writes_only_serves: "writes_only s s' \<Longrightarrow> serves s s'"
  unfolding writes_only_def serves_def same_scripts_def touches_def
  by (auto elim!: list_all2_mono option.rel_mono_strong simp: same_input_def same_but_output_fields)

lemma serves_put: "slot s i = Some c \<Longrightarrow> same_input c c1 \<Longrightarrow> serves s (put i c1 s)"
  using slot_Some_less [of s i c]
  by (auto simp: serves_def same_scripts_def list_all2_conv_all_nth nth_list_update option.rel_refl curr_cap_def)

lemma serves_simps [simp]:
  "serves s (s\<lparr>book := b\<rparr>)" "serves s (s\<lparr>next_order_id := n\<rparr>)" "same_scripts (world s) w \<Longrightarrow> serves s (s\<lparr>world := w\<rparr>)"
  by (auto simp: serves_def same_scripts_def list_all2_refl option.rel_refl)

lemma serves_slot: "serves s s' \<Longrightarrow> rel_option same_input (slot s i) (slot s' i)"
  by (auto simp: slot_def curr_cap_def serves_def list_all2_conv_all_nth)

lemma serves_Some:
  assumes "serves s s'" and "slot s i = Some c"
  shows "\<exists>c'. slot s' i = Some c' \<and> same_input c c'"
  using serves_slot [OF assms(1), of i] assms(2) by (cases "slot s' i") auto

lemma sendTo_serves: "slot s i = Some c \<Longrightarrow> serves s (snd (sendTo i l s))"
  by (intro writes_only_serves sendTo_writes_only)

lemma replyTo_serves: "slot s i = Some c \<Longrightarrow> serves s (snd (replyTo i reason s))"
  by (intro writes_only_serves replyTo_writes_only)

lemma sendTo_serves_after: "serves s s1 \<Longrightarrow> slot s i = Some c \<Longrightarrow> serves s (snd (sendTo i l s1))"
  using serves_Some sendTo_serves serves_trans by metis

end
