(* ===== verification/Framing.thy ===== *)
theory Framing
  imports Exchange_Invariant
begin

text \<open>
  \<open>communicate\<close> of \<open>src/includes/io.c\<close>: bytes are read into a connection's input buffer and cut into lines.
  What is done with a line is a parameter, \<open>handle\<close>; the locale \<open>line_handler\<close> states what the loop
  relies on, and \<open>Protocol\<close> interprets it with \<open>processLine\<close>. The main result is that the loop does what a
  reader of single bytes does, so that it does not matter how TCP splits the stream.
\<close>

section \<open>The loops\<close>

type_synonym handler = "string \<Rightarrow> nat \<Rightarrow> exchange \<Rightarrow> bool \<times> exchange"

text \<open>The buffer with the newline, and a carriage return before it, overwritten by the terminator.\<close>

definition terminate_line :: "string \<Rightarrow> nat \<Rightarrow> nat \<Rightarrow> string" where
  "terminate_line buf consumed newline =
     (let line_len = newline - consumed; buf1 = buf[newline := NUL]
      in if line_len > 0 \<and> buf1 ! (consumed + (line_len - 1)) = CR then buf1[consumed + (line_len - 1) := NUL] else buf1)"

text \<open>
  The inner loop. The first component of the result is the value \<open>communicate\<close> returns from inside the
  loop, \<open>None\<close> when the loop runs out of newlines; the second is \<open>consumed\<close>.
\<close>

partial_function (option) scanLines ::
  "handler \<Rightarrow> nat \<Rightarrow> nat \<Rightarrow> nat \<Rightarrow> exchange \<Rightarrow> (bool option \<times> nat \<times> exchange) option" where
  "scanLines handle self consumed search s =
     (case slot s self of
        None \<Rightarrow> Some (Some True, consumed, snd (null_deref s))
      | Some c \<Rightarrow>
          (case memchr (inbuf c) search NL of
             None \<Rightarrow> Some (None, consumed, s)
           | Some newline \<Rightarrow>
               if discarding c then
                 scanLines handle self (newline + 1) (newline + 1) (put self (c\<lparr>discarding := False\<rparr>) s)
               else
                 (case handle (cstr (drop consumed (terminate_line (inbuf c) consumed newline))) self
                         (put self (c\<lparr>inbuf := terminate_line (inbuf c) consumed newline\<rparr>) s) of
                    (don, s2) \<Rightarrow>
                      if don then Some (Some True, newline + 1, s2)
                      else
                        (case slot s2 self of
                           None \<Rightarrow> Some (Some True, newline + 1, snd (null_deref s2))
                         | Some c2 \<Rightarrow>
                             if closing c2 then Some (Some False, newline + 1, s2)
                             else scanLines handle self (newline + 1) (newline + 1) s2))))"

text \<open>What follows the inner loop: the rest moves to the front, and a full buffer is given up.\<close>

definition settle :: "nat \<Rightarrow> nat \<Rightarrow> exchange \<Rightarrow> bool \<times> exchange" where
  "settle self consumed s =
     (case slot s self of
        None \<Rightarrow> null_deref s
      | Some c \<Rightarrow>
          let c1 = c\<lparr>inbuf := drop consumed (inbuf c), scanned_len := length (inbuf c) - consumed\<rparr>; s1 = put self c1 s
          in if length (inbuf c1) = INBUF_SIZE then
               (if discarding c1 then (False, put self (c1\<lparr>inbuf := [], scanned_len := 0\<rparr>) s1)
                else
                  let (failed, s2) = replyTo self ''Message too long'' s1
                  in if failed then (True, s2)
                     else
                       (case slot s2 self of
                          None \<Rightarrow> null_deref s2
                        | Some c2 \<Rightarrow> (False, put self (c2\<lparr>discarding := True, inbuf := [], scanned_len := 0\<rparr>) s2)))
             else (False, s1))"

partial_function (option) readLoop :: "handler \<Rightarrow> nat \<Rightarrow> exchange \<Rightarrow> (bool \<times> exchange) option" where
  "readLoop handle self s =
     (case slot s self of
        None \<Rightarrow> Some (null_deref s)
      | Some c \<Rightarrow>
          (case os_read (INBUF_SIZE - length (inbuf c)) (world s) of
             (answer, w) \<Rightarrow>
               (case answer of
                  ReadFailed e \<Rightarrow>
                    if e = EINTR then readLoop handle self (s\<lparr>world := w\<rparr>)
                    else if e = EAGAIN \<or> e = EWOULDBLOCK then Some (False, s\<lparr>world := w\<rparr>)
                    else Some (True, say (''Failed to read from client'' @ [NL]) (s\<lparr>world := w\<rparr>))
                | Read bytes \<Rightarrow>
                    if bytes = [] then Some (True, s\<lparr>world := w\<rparr>)
                    else
                      Option.bind
                        (scanLines handle self 0 (scanned_len c) (put self (c\<lparr>inbuf := inbuf c @ bytes\<rparr>) (s\<lparr>world := w\<rparr>)))
                        (\<lambda>(r, consumed, s2).
                           case r of
                             Some d \<Rightarrow> Some (d, s2)
                           | None \<Rightarrow>
                               (case settle self consumed s2 of
                                  (failed, s3) \<Rightarrow> if failed then Some (True, s3) else readLoop handle self s3)))))"

definition communicate_with :: "handler \<Rightarrow> nat \<Rightarrow> exchange \<Rightarrow> (bool \<times> exchange) option" where
  "communicate_with handle self s =
     (case slot s self of
        None \<Rightarrow> Some (null_deref s)
      | Some c \<Rightarrow> if closing c then Some (False, s) else readLoop handle self s)"

section \<open>The reader of single bytes\<close>

text \<open>
  The reference: the state is the partial line \<open>p\<close> and the exchange. A newline ends the line, one
  carriage return before it is dropped, and the line ends at its first NUL byte; the byte that makes a
  line \<open>INBUF_SIZE\<close> long is answered with an error, and the rest of that line is ignored.
\<close>

definition line_of :: "string \<Rightarrow> string" where
  "line_of p = cstr (if p \<noteq> [] \<and> last p = CR then butlast p else p)"

definition feed_byte :: "handler \<Rightarrow> nat \<Rightarrow> char \<Rightarrow> string \<Rightarrow> exchange \<Rightarrow> bool option \<times> string \<times> exchange" where
  "feed_byte handle self ch p t =
     (case slot t self of
        None \<Rightarrow> (Some True, [], snd (null_deref t))
      | Some c \<Rightarrow>
          if ch = NL then
            (if discarding c then (None, [], put self (c\<lparr>discarding := False\<rparr>) t)
             else
               let (don, t1) = handle (line_of p) self t
               in if don then (Some True, [], t1)
                  else
                    (case slot t1 self of
                       None \<Rightarrow> (Some True, [], snd (null_deref t1))
                     | Some c1 \<Rightarrow> (if closing c1 then Some False else None, [], t1)))
          else if length p + 1 < INBUF_SIZE then (None, p @ [ch], t)
          else if discarding c then (None, [], t)
          else
            let (failed, t1) = replyTo self ''Message too long'' t
            in if failed then (Some True, [], t1)
               else
                 (case slot t1 self of
                    None \<Rightarrow> (Some True, [], snd (null_deref t1))
                  | Some c1 \<Rightarrow> (None, [], put self (c1\<lparr>discarding := True\<rparr>) t1)))"

fun feed :: "handler \<Rightarrow> nat \<Rightarrow> string \<Rightarrow> string \<Rightarrow> exchange \<Rightarrow> bool option \<times> string \<times> exchange" where
  "feed handle self [] p t = (None, p, t)"
| "feed handle self (ch # chs) p t =
     (case feed_byte handle self ch p t of
        (None, p', t') \<Rightarrow> feed handle self chs p' t'
      | (Some d, p', t') \<Rightarrow> (Some d, p', t'))"

text \<open>The bytes a script of answers delivers before it ends or blocks, and the value returned then.\<close>

fun incoming :: "read_answer list \<Rightarrow> string" where
  "incoming (RData bytes # rs) = (if bytes = [] then [] else bytes @ incoming rs)"
| "incoming (RErr e # rs) = (if e = EINTR then incoming rs else [])"
| "incoming (REof # rs) = []"
| "incoming [] = []"

datatype ending = Blocked | EndOfStream | Broken

fun ending_of :: "read_answer list \<Rightarrow> ending" where
  "ending_of (RData bytes # rs) = (if bytes = [] then EndOfStream else ending_of rs)"
| "ending_of (RErr e # rs) =
     (if e = EINTR then ending_of rs else if e = EAGAIN \<or> e = EWOULDBLOCK then Blocked else Broken)"
| "ending_of (REof # rs) = EndOfStream"
| "ending_of [] = Blocked"

text \<open>The exchange without what the two readers hold differently: the input buffer and the script of \<open>read\<close>.\<close>

definition blank :: "ClientConnection \<Rightarrow> ClientConnection" where
  "blank c = c\<lparr>inbuf := [], scanned_len := 0\<rparr>"

definition forget :: "nat \<Rightarrow> exchange \<Rightarrow> exchange" where
  "forget self s =
     s\<lparr>conns := (conns s)[self := map_option blank (conns s ! self)], world := (world s)\<lparr>reads := []\<rparr>\<rparr>"

section \<open>Writing does not depend on the input side\<close>

abbreviation unread :: "os \<Rightarrow> os" where
  "unread w \<equiv> w\<lparr>reads := []\<rparr>"

lemma blank_simps [simp]:
  "pending (blank c) = pending c" "outlen (blank c) = outlen c" "client_fd (blank c) = client_fd c"
  "outbuf (blank c) = outbuf c" "ctype (blank c) = ctype c" "logged_in (blank c) = logged_in c"
  "username (blank c) = username c" "subscribedJNST (blank c) = subscribedJNST c"
  "subscribedIMCT (blank c) = subscribedIMCT c" "discarding (blank c) = discarding c" "closing (blank c) = closing c"
  "caddr (blank c) = caddr c" "blank (blank c) = blank c"
  "blank (c\<lparr>inbuf := x\<rparr>) = blank c" "blank (c\<lparr>scanned_len := n\<rparr>) = blank c"
  "blank c\<lparr>outbuf := b\<rparr> = blank (c\<lparr>outbuf := b\<rparr>)" "blank c\<lparr>discarding := d\<rparr> = blank (c\<lparr>discarding := d\<rparr>)"
  "blank c\<lparr>closing := d\<rparr> = blank (c\<lparr>closing := d\<rparr>)" "blank c\<lparr>subscribedJNST := d\<rparr> = blank (c\<lparr>subscribedJNST := d\<rparr>)"
  "blank c\<lparr>subscribedIMCT := d\<rparr> = blank (c\<lparr>subscribedIMCT := d\<rparr>)" "blank c\<lparr>ctype := t\<rparr> = blank (c\<lparr>ctype := t\<rparr>)"
  "blank c\<lparr>username := u\<rparr> = blank (c\<lparr>username := u\<rparr>)" "blank c\<lparr>logged_in := d\<rparr> = blank (c\<lparr>logged_in := d\<rparr>)"
  by (simp_all add: blank_def pending_def outlen_def)

lemma os_write_unread: "os_write fd bytes (unread w) = apsnd unread (os_write fd bytes w)"
  by (simp add: os_write_def emit_def split: list.split write_answer.split)

lemma write_retry_unread: "write_retry fd bytes (unread w) = apsnd unread (write_retry fd bytes w)"
proof (induction fd bytes w rule: write_retry.induct)
  case (1 fd bytes w)
  obtain r w1 where w1: "os_write fd bytes w = (r, w1)" by fastforce
  with os_write_unread [of fd bytes w] have w2: "os_write fd bytes (unread w) = (r, unread w1)" by simp
  show ?case
    using "1.IH" [OF w1 [symmetric]]
    by (subst (1 2) write_retry.simps) (simp add: w1 w2 split: io_result.split)
qed

lemma os_alloc_unread: "os_alloc (unread w) = apsnd unread (os_alloc w)"
  by (simp add: os_alloc_def split: prod.split)

lemma send_now_unread:
  "send_now c bytes (unread w) = apsnd (apsnd unread) (send_now c bytes w)"
  "send_now (blank c) bytes w = send_now c bytes w"
  by (simp_all add: send_now_def write_retry_unread split: prod.split io_result.split)

lemma enqueue_unread:
  "enqueue c bytes (unread w) = apsnd (apsnd unread) (enqueue c bytes w)"
  "enqueue (blank c) bytes w = apsnd (apfst blank) (enqueue c bytes w)"
  by (simp add: enqueue_def os_alloc_unread Let_def split: prod.split)
    (cases "outbuf c = None"; auto simp: enqueue_def Let_def split: prod.split)

lemma sendLine_unread:
  "sendLine c l (unread w) = apsnd (apsnd unread) (sendLine c l w)"
  "sendLine (blank c) l w = apsnd (apfst blank) (sendLine c l w)"
  by (simp_all add: sendLine_def sendToClient_def send_now_unread enqueue_unread Let_def split: prod.split)

lemma forget_slot [simp]:
  "slot (forget self s) j = (if j = self then map_option blank (slot s j) else slot s j)"
  by (auto simp: slot_def curr_cap_def forget_def nth_list_update)

lemma forget_fields [simp]:
  "curr_cap (forget self s) = curr_cap s" "book (forget self s) = book s"
  "next_order_id (forget self s) = next_order_id s" "world (forget self s) = unread (world s)"
  by (simp_all add: forget_def curr_cap_def)

lemma forget_forget [simp]: "forget self (forget self s) = forget self s"
  by (cases "self < length (conns s)") (simp_all add: forget_def option.map_comp comp_def list_update_beyond)

lemma forget_upd [simp]:
  "forget self (s\<lparr>world := w\<rparr>) = (forget self s)\<lparr>world := unread w\<rparr>"
  "forget self (s\<lparr>book := b\<rparr>) = (forget self s)\<lparr>book := b\<rparr>"
  "forget self (s\<lparr>next_order_id := n\<rparr>) = (forget self s)\<lparr>next_order_id := n\<rparr>"
  by (simp_all add: forget_def)

lemma forget_put:
  "forget self (put self c s) = put self (blank c) (forget self s)"
  "i \<noteq> self \<Longrightarrow> forget self (put i c s) = put i c (forget self s)"
  by (cases "self < length (conns s)"; simp add: forget_def put_def list_update_swap list_update_beyond)+

lemma emit_unread: "emit e (unread w) = unread (emit e w)"
  by (simp add: emit_def)

lemma forget_say: "forget self (say out s) = say out (forget self s)"
  by (simp add: emit_def)

lemma null_deref_forget: "null_deref (forget self s) = apsnd (forget self) (null_deref s)"
  by (simp add: null_deref_def emit_unread)

lemma on_conn_forget:
  assumes "\<And>c w. f c (unread w) = apsnd (apsnd unread) (f c w)"
    and "\<And>c w. f (blank c) w = apsnd (apfst blank) (f c w)"
  shows "on_conn i f (forget self s) = apsnd (forget self) (on_conn i f s)"
  by (auto simp: on_conn_def null_deref_forget assms forget_put split: option.split prod.split)

lemma sendTo_forget: "sendTo i l (forget self s) = apsnd (forget self) (sendTo i l s)"
  by (rule on_conn_forget) (simp_all add: sendLine_unread)

lemma replyTo_forget: "replyTo i reason (forget self s) = apsnd (forget self) (replyTo i reason s)"
  by (rule on_conn_forget) (simp_all add: replyError_def sendLine_unread)

section \<open>Lines in the buffer\<close>

lemma terminate_line_split:
  "terminate_line (pre @ line @ NL # rest) (length pre) (length pre + length line) =
   pre @ (if line \<noteq> [] \<and> last line = CR then butlast line @ [NUL] else line) @ NUL # rest"
proof (cases line rule: rev_cases)
  case (snoc l x)
  then show ?thesis
    by (simp add: terminate_line_def list_update_append nth_append Let_def)
qed (simp add: terminate_line_def list_update_append)

lemma cstr_terminated: "cstr (l @ NUL # rest) = cstr l"
  by (induction l) (simp_all add: cstr_def)

lemma terminated_line:
  "cstr (drop (length pre) (terminate_line (pre @ line @ NL # rest) (length pre) (length pre + length line))) = line_of line"
  unfolding terminate_line_split by (simp add: line_of_def cstr_terminated)

lemma terminated_rest:
  "drop (Suc (length pre + length line)) (terminate_line (pre @ line @ NL # rest) (length pre) (length pre + length line)) = rest"
  unfolding terminate_line_split by (cases line rule: rev_cases) auto

lemma terminated_length [simp]: "length (terminate_line buf consumed k) = length buf"
  by (simp add: terminate_line_def Let_def)

text \<open>A newline found by the inner loop ends a line that started at \<open>consumed\<close>.\<close>

lemma line_found:
  assumes "memchr buf search NL = Some k" and "consumed \<le> search" and "search \<le> length buf"
    and "NL \<notin> set (take (search - consumed) (drop consumed buf))"
  obtains pre line rest where "buf = pre @ line @ NL # rest" and "length pre = consumed" and "k = length pre + length line"
    and "NL \<notin> set line"
proof
  note m = iffD1 [OF memchr_Some [OF assms(3)] assms(1)]
  let ?line = "take (k - consumed) (drop consumed buf)"
  have "drop consumed buf = ?line @ NL # drop (Suc k) buf"
    using m assms(2) id_take_nth_drop [of "k - consumed" "drop consumed buf"] by (simp add: diff_less_mono)
  then show "buf = take consumed buf @ ?line @ NL # drop (Suc k) buf"
    by (metis append_take_drop_id)
  show "length (take consumed buf) = consumed" "k = length (take consumed buf) + length ?line"
    using m assms(2) by auto
  show "NL \<notin> set ?line"
  proof
    assume "NL \<in> set ?line"
    then obtain j where j: "j < k - consumed" "buf ! (consumed + j) = NL"
      using m assms(2) by (auto simp: in_set_conv_nth)
    show False
    proof (cases "consumed + j < search")
      case True
      then have "NL \<in> set (take (search - consumed) (drop consumed buf))"
        using j m assms(2) by (auto simp: in_set_conv_nth intro!: exI [of _ j])
      with assms(4) show False ..
    next
      case False
      with j m show False by auto
    qed
  qed
qed

section \<open>Feeding bytes\<close>

lemma feed_append:
  "feed h self (xs @ ys) p t =
     (case feed h self xs p t of (None, p', t') \<Rightarrow> feed h self ys p' t' | (Some d, p', t') \<Rightarrow> (Some d, p', t'))"
  by (induction xs arbitrary: p t) (auto split: prod.split option.split)

lemma feed_partial:
  "NL \<notin> set xs \<Longrightarrow> slot t self = Some c \<Longrightarrow> length p + length xs < INBUF_SIZE \<Longrightarrow> feed h self xs p t = (None, p @ xs, t)"
  by (induction xs arbitrary: p) (auto simp: feed_byte_def)

lemma feed_line:
  assumes "NL \<notin> set line" and "slot t self = Some c" and "length line < INBUF_SIZE"
  shows "feed h self (line @ NL # ys) [] t = feed h self (NL # ys) line t"
  using feed_partial [OF assms(1,2), of "[]" h] assms(3) by (simp add: feed_append)

lemma put_same: "slot s i = Some c \<Longrightarrow> put i c s = s"
  using slot_Some_less [of s i c] by (simp add: put_def curr_cap_def list_update_same_conv)

lemma forget_put_input:
  "slot s self = Some c \<Longrightarrow> blank c1 = blank c \<Longrightarrow> forget self (put self c1 s) = forget self s"
  by (metis forget_put(1) forget_slot option.map(2) put_same)

text \<open>
  \<open>served self s s'\<close>: bytes of connection \<open>self\<close> were served. No connection came or went, the input side of the
  others is as it was, and so are the scripts of the other system calls; the invariant was kept.
\<close>

definition served :: "nat \<Rightarrow> exchange \<Rightarrow> exchange \<Rightarrow> bool" where
  "served self s s' \<longleftrightarrow>
     curr_cap s' = curr_cap s \<and> (slot s' self = None \<longleftrightarrow> slot s self = None) \<and>
     (\<forall>j. j \<noteq> self \<longrightarrow> rel_option same_input (slot s j) (slot s' j)) \<and>
     same_scripts (unread (world s)) (unread (world s')) \<and> (exchange_ok s \<longrightarrow> exchange_ok s')"

lemma served_refl [simp]: "served self s s"
  by (simp add: served_def same_scripts_def option.rel_refl)

lemma served_trans: "served self s s1 \<Longrightarrow> served self s1 s2 \<Longrightarrow> served self s s2"
  unfolding served_def same_scripts_def by (metis (no_types) rel_input_trans)

lemma serves_cap: "serves s s' \<Longrightarrow> curr_cap s' = curr_cap s"
  by (auto simp: serves_def curr_cap_def dest: list_all2_lengthD)

lemma serves_served:
  assumes "serves s s'" and "exchange_ok s \<Longrightarrow> exchange_ok s'"
  shows "served self s s'"
proof -
  have "rel_option same_input (slot s j) (slot s' j)" for j
    by (rule serves_slot [OF assms(1)])
  moreover from this have "slot s' self = None \<longleftrightarrow> slot s self = None"
    by (metis option.rel_distinct(1,2) option.exhaust)
  ultimately show ?thesis
    using assms serves_cap [OF assms(1)] by (auto simp: served_def serves_def same_scripts_def)
qed

text \<open>Changes of the connection's own input side are harmless to the invariant.\<close>

lemma put_input_served:
  assumes c: "slot s self = Some c"
    and c1: "c1\<lparr>inbuf := inbuf c, scanned_len := scanned_len c, discarding := discarding c\<rparr> = c"
  shows "served self s (put self c1 s)"
proof -
  let ?f = "\<lambda>d :: ClientConnection. d\<lparr>inbuf := inbuf c, scanned_len := scanned_len c, discarding := discarding c\<rparr>"
  have same: "username c1 = username c" "logged_in c1 = logged_in c" "client_fd c1 = client_fd c" "outlen c1 = outlen c"
    "ctype c1 = ctype c" "subscribedJNST c1 = subscribedJNST c" "subscribedIMCT c1 = subscribedIMCT c"
    using arg_cong [OF c1, of username] arg_cong [OF c1, of logged_in] arg_cong [OF c1, of client_fd]
      arg_cong [OF c1, of outlen] arg_cong [OF c1, of ctype] arg_cong [OF c1, of subscribedJNST]
      arg_cong [OF c1, of subscribedIMCT]
    by (simp_all add: outlen_def pending_def)
  have "exchange_ok (put self c1 s)" if "exchange_ok s"
    using put_same_names [OF that c, of c1] exchange_okD(2) [OF that c] same by (simp add: conn_ok_def)
  then show ?thesis
    using slot_Some_less [OF c] c by (simp add: served_def same_scripts_def option.rel_refl)
qed

lemma say_served: "served self s (say out s)"
  by (rule serves_served) (simp_all add: same_scripts_def)

lemma unread_served:
  "served self s (s\<lparr>world := (world s)\<lparr>reads := rs\<rparr>\<rparr>)"
  by (auto simp: served_def same_scripts_def option.rel_refl exchange_ok_def names_unique_def book_inv_def owner_ok_def)

text \<open>After the inner loop: a buffer full of one line is the reader's overflow.\<close>

lemma overflow_feeds:
  assumes "NL \<notin> set xs" and "length xs = INBUF_SIZE" and "slot t self = Some c"
  shows "feed h self (xs @ ys) [] t =
    (if discarding c then feed h self ys [] t
     else
       case replyTo self ''Message too long'' t of
         (failed, t1) \<Rightarrow>
           if failed then (Some True, [], t1)
           else
             case slot t1 self of
               None \<Rightarrow> (Some True, [], snd (null_deref t1))
             | Some c1 \<Rightarrow> feed h self ys [] (put self (c1\<lparr>discarding := True\<rparr>) t1))"
proof -
  obtain zs x where xs: "xs = zs @ [x]"
    using assms(2) by (cases xs rule: rev_cases) (auto simp: config_defs)
  have "feed h self zs [] t = (None, zs, t)"
    using feed_partial [of zs t self c "[]" h] assms xs by simp
  with assms xs show ?thesis
    by (auto simp: feed_append feed_byte_def Let_def split: prod.split option.split)
qed

lemma settle_feeds:
  assumes c: "slot s self = Some c" and k: "k \<le> length (inbuf c)" "length (inbuf c) \<le> INBUF_SIZE"
    and nl: "NL \<notin> set (drop k (inbuf c))" and st: "settle self k s = (failed, s')"
  shows "served self s s'" and "reads (world s') = reads (world s)"
    and "failed \<Longrightarrow> feed h self (drop k (inbuf c) @ ys) [] (forget self s) = (Some True, [], forget self s')"
    and "\<not> failed \<Longrightarrow> \<exists>c'. slot s' self = Some c' \<and> scanned_len c' = length (inbuf c') \<and>
      length (inbuf c') < INBUF_SIZE \<and> NL \<notin> set (inbuf c') \<and>
      (\<forall>ys. feed h self (drop k (inbuf c) @ ys) [] (forget self s) = feed h self (inbuf c' @ ys) [] (forget self s'))"
proof -
  let ?c1 = "c\<lparr>inbuf := drop k (inbuf c), scanned_len := length (inbuf c) - k\<rparr>"
  let ?s1 = "put self ?c1 s"
  have s1: "slot ?s1 self = Some ?c1" "forget self ?s1 = forget self s"
    using slot_Some_less [OF c] forget_put_input [OF c, of ?c1] by (simp_all del: put_simps)
  have sv1: "served self s ?s1"
    by (rule put_input_served [OF c]) simp
  consider (rest) "length (inbuf ?c1) \<noteq> INBUF_SIZE" "failed = False" "s' = ?s1"
    | (skip) "length (inbuf ?c1) = INBUF_SIZE" "discarding c" "failed = False" "s' = put self (?c1\<lparr>inbuf := [], scanned_len := 0\<rparr>) ?s1"
    | (full) "length (inbuf ?c1) = INBUF_SIZE" "\<not> discarding c"
    using st c by (auto simp: settle_def Let_def split: if_splits)
  then have "served self s s' \<and> reads (world s') = reads (world s) \<and>
    (failed \<longrightarrow> (\<forall>ys. feed h self (drop k (inbuf c) @ ys) [] (forget self s) = (Some True, [], forget self s'))) \<and>
    (\<not> failed \<longrightarrow> (\<exists>c'. slot s' self = Some c' \<and> scanned_len c' = length (inbuf c') \<and>
      length (inbuf c') < INBUF_SIZE \<and> NL \<notin> set (inbuf c') \<and>
      (\<forall>ys. feed h self (drop k (inbuf c) @ ys) [] (forget self s) = feed h self (inbuf c' @ ys) [] (forget self s'))))"
  proof cases
    case rest
    with s1 sv1 k nl show ?thesis by (auto simp: rest)
  next
    case skip
    let ?c2 = "?c1\<lparr>inbuf := [], scanned_len := 0\<rparr>"
    have "served self ?s1 s'" "forget self s' = forget self s"
      unfolding skip(4) using s1 by (auto intro!: put_input_served [OF s1(1)] simp: forget_put_input [OF s1(1)] simp del: put_simps)
    moreover have "slot s' self = Some ?c2" "reads (world s') = reads (world s)"
      using slot_Some_less [OF c] unfolding skip(4) by simp_all
    moreover have "feed h self (drop k (inbuf c) @ ys) [] (forget self s) = feed h self ys [] (forget self s)" for ys
      using overflow_feeds [OF nl, of "forget self s" self "blank c"] skip c by simp
    ultimately show ?thesis
      using served_trans [OF sv1] skip by (auto simp: config_defs)
  next
    case full
    obtain f s2 where rep: "replyTo self ''Message too long'' ?s1 = (f, s2)" by fastforce
    have w: "writes_only ?s1 s2"
      using replyTo_writes_only [OF s1(1), of "''Message too long''"] rep by simp
    then obtain c2 where c2: "slot s2 self = Some c2" "same_but_output ?c1 c2"
      using writes_only_Some(1) [OF w s1(1)] by blast
    have sv2: "served self s s2"
      using served_trans [OF sv1 serves_served [OF writes_only_serves [OF w] writes_only_ok [OF w]]] .
    have rd: "reads (world s2) = reads (world s)"
      using w by (auto simp: writes_only_def touches_def)
    have fr: "replyTo self ''Message too long'' (forget self s) = (f, forget self s2)"
      using replyTo_forget [of self "''Message too long''" self ?s1] rep s1(2) by simp
    let ?c3 = "c2\<lparr>discarding := True, inbuf := [], scanned_len := 0\<rparr>"
    have fed: "feed h self (drop k (inbuf c) @ ys) [] (forget self s) =
        (if f then (Some True, [], forget self s2) else feed h self ys [] (forget self (put self ?c3 s2)))" for ys
      using overflow_feeds [OF nl, of "forget self s" self "blank c"] full c c2(1) by (simp add: fr forget_put)
    have res: "(failed, s') = (if f then (True, s2) else (False, put self ?c3 s2))"
      using st full rep c c2 by (auto simp: settle_def Let_def split: if_splits)
    have "slot (put self ?c3 s2) self = Some ?c3" "served self s2 (put self ?c3 s2)"
      using slot_Some_less [OF c2(1)] by (auto intro!: put_input_served [OF c2(1)])
    with res fed sv2 rd served_trans [OF sv2] show ?thesis
      by (cases f) (auto simp: config_defs)
  qed
  then show "served self s s'" "reads (world s') = reads (world s)"
    "failed \<Longrightarrow> feed h self (drop k (inbuf c) @ ys) [] (forget self s) = (Some True, [], forget self s')"
    "\<not> failed \<Longrightarrow> \<exists>c'. slot s' self = Some c' \<and> scanned_len c' = length (inbuf c') \<and>
      length (inbuf c') < INBUF_SIZE \<and> NL \<notin> set (inbuf c') \<and>
      (\<forall>ys. feed h self (drop k (inbuf c) @ ys) [] (forget self s) = feed h self (inbuf c' @ ys) [] (forget self s'))"
    by blast+
qed

section \<open>The script of \<open>read\<close>\<close>

fun answer_size :: "read_answer \<Rightarrow> nat" where
  "answer_size (RData bytes) = Suc (length bytes)"
| "answer_size REof = 1"
| "answer_size (RErr e) = 1"

abbreviation script_size :: "read_answer list \<Rightarrow> nat" where
  "script_size rs \<equiv> sum_list (map answer_size rs)"

lemma os_read_world: "os_read room w = (a, w') \<Longrightarrow> w' = w\<lparr>reads := reads w'\<rparr>"
  by (auto simp: os_read_def split: list.splits read_answer.splits)

lemma os_read_data:
  assumes "os_read room w = (Read bytes, w')" and "bytes \<noteq> []" and "0 < room"
  shows "incoming (reads w) = bytes @ incoming (reads w')" and "ending_of (reads w') = ending_of (reads w)"
    and "length bytes \<le> room" and "script_size (reads w') < script_size (reads w)"
  using assms by (auto simp: os_read_def split: list.splits read_answer.splits if_splits)

lemma os_read_eof:
  assumes "os_read room w = (Read [], w')" and "0 < room"
  shows "incoming (reads w) = []" and "ending_of (reads w) = EndOfStream"
  using assms by (auto simp: os_read_def split: list.splits read_answer.splits if_splits)

lemma os_read_failed:
  assumes "os_read room w = (ReadFailed e, w')"
  shows "e = EINTR \<Longrightarrow> incoming (reads w) = incoming (reads w') \<and> ending_of (reads w) = ending_of (reads w') \<and>
      script_size (reads w') < script_size (reads w)"
    and "e \<noteq> EINTR \<Longrightarrow> incoming (reads w) = [] \<and>
      ending_of (reads w) = (if e = EAGAIN \<or> e = EWOULDBLOCK then Blocked else Broken)"
  using assms by (auto simp: os_read_def split: list.splits read_answer.splits)

text \<open>What \<open>communicate\<close> is to have done when the reader of bytes ended in \<open>(r, p, t)\<close> and the script in \<open>e\<close>.\<close>

definition input_ready :: "ClientConnection \<Rightarrow> bool" where
  "input_ready c \<longleftrightarrow> scanned_len c = length (inbuf c) \<and> length (inbuf c) < INBUF_SIZE \<and> NL \<notin> set (inbuf c)"

definition agrees :: "nat \<Rightarrow> bool option \<times> string \<times> exchange \<Rightarrow> ending \<Rightarrow> bool \<Rightarrow> exchange \<Rightarrow> bool" where
  "agrees self result e don s' \<longleftrightarrow>
     (case result of
        (Some d, p, t) \<Rightarrow> don = d \<and> forget self s' = t \<and> (d \<or> (\<exists>c'. slot s' self = Some c' \<and> closing c'))
      | (None, p, t) \<Rightarrow>
          don = (e \<noteq> Blocked) \<and>
          forget self s' = (if e = Broken then say (''Failed to read from client'' @ [NL]) t else t) \<and>
          (\<exists>c'. slot s' self = Some c' \<and> inbuf c' = p \<and> input_ready c'))"

section \<open>The interface of a line handler\<close>

text \<open>
  What \<open>communicate\<close> relies on when it hands a line over: the invariant is kept, the input side of every
  connection is left alone, and the answer does not depend on what else is in the input buffer or on
  what \<open>read\<close> will deliver.
\<close>

locale line_handler =
  fixes handle :: handler
  assumes keeps: "exchange_ok s \<Longrightarrow> slot s self = Some c \<Longrightarrow> exchange_ok (snd (handle line self s))"
    and leaves_input: "slot s self = Some c \<Longrightarrow> serves s (snd (handle line self s))"
    and blind: "slot s self = Some c \<Longrightarrow> handle line self (forget self s) = apsnd (forget self) (handle line self s)"
begin

lemma handle_step:
  assumes "slot s self = Some c" and "handle line self s = (don, s')"
  shows "\<exists>c'. slot s' self = Some c' \<and> same_input c c'" and "served self s s'" and "reads (world s') = reads (world s)"
    and "handle line self (forget self s) = (don, forget self s')"
proof -
  have sv: "serves s s'"
    using leaves_input [OF assms(1), of line] assms(2) by simp
  then show "\<exists>c'. slot s' self = Some c' \<and> same_input c c'"
    using assms(1) by (rule serves_Some)
  show "served self s s'"
    using sv keeps [OF _ assms(1), of line] assms(2) by (intro serves_served) auto
  show "reads (world s') = reads (world s)"
    using sv by (simp add: serves_def same_scripts_def)
  show "handle line self (forget self s) = (don, forget self s')"
    using blind [OF assms(1), of line] assms(2) by simp
qed

text \<open>
  The inner loop ends, and what it did is what the reader of bytes does with the bytes from \<open>consumed\<close> on;
  \<open>k\<close> is the final value of \<open>consumed\<close>, and \<open>ys\<close> are bytes that come later.
\<close>

lemma scan_feeds:
  assumes "slot s self = Some c" and "consumed \<le> search" and "search \<le> length (inbuf c)"
    and "length (inbuf c) \<le> INBUF_SIZE" and "NL \<notin> set (take (search - consumed) (drop consumed (inbuf c)))"
  shows "\<exists>r k s'. scanLines handle self consumed search s = Some (r, k, s') \<and> served self s s' \<and>
      reads (world s') = reads (world s) \<and>
      (case r of
         Some d \<Rightarrow> \<forall>ys. feed handle self (drop consumed (inbuf c) @ ys) [] (forget self s) = (Some d, [], forget self s') \<and>
           (d \<or> (\<exists>c'. slot s' self = Some c' \<and> closing c'))
       | None \<Rightarrow> \<exists>c'. slot s' self = Some c' \<and> length (inbuf c') = length (inbuf c) \<and> consumed \<le> k \<and>
           k \<le> length (inbuf c') \<and> NL \<notin> set (drop k (inbuf c')) \<and>
           (\<forall>ys. feed handle self (drop consumed (inbuf c) @ ys) [] (forget self s) =
                 feed handle self (drop k (inbuf c') @ ys) [] (forget self s')))"
  using assms
proof (induction "length (inbuf c) - search" arbitrary: c s consumed search rule: less_induct)
  case less
  note c = less.prems(1) and bounds = less.prems(2-5)
  note unfold = scanLines.simps [of handle self consumed search s]
  show ?case
  proof (cases "memchr (inbuf c) search NL")
    case None
    then have "NL \<notin> set (drop search (inbuf c))"
      by (simp add: memchr_None)
    moreover have "drop consumed (inbuf c) = take (search - consumed) (drop consumed (inbuf c)) @ drop search (inbuf c)"
      using bounds(1) by (metis append_take_drop_id drop_drop le_add_diff_inverse2)
    ultimately have "NL \<notin> set (drop consumed (inbuf c))"
      using bounds(4) by (metis Un_iff set_append)
    with c None bounds show ?thesis
      by (subst unfold) auto
  next
    case (Some k)
    obtain pre line rest where buf: "inbuf c = pre @ line @ NL # rest" and pre: "length pre = consumed"
      and k: "k = length pre + length line" and line: "NL \<notin> set line"
      using line_found [OF Some bounds(1,2,4)] .
    have short: "length line < INBUF_SIZE"
      using buf bounds(3) by simp
    have mk: "search \<le> k" "k < length (inbuf c)"
      using iffD1 [OF memchr_Some [OF bounds(2)] Some] by auto
    have fed: "feed handle self (drop consumed (inbuf c) @ ys) [] (forget self s) =
        feed handle self (NL # rest @ ys) line (forget self s)" for ys
      using feed_line [OF line _ short, of "forget self s" self "blank c" handle "rest @ ys"] c buf pre by simp
    have next_part: "\<exists>r k' s'. scanLines handle self (k + 1) (k + 1) s1 = Some (r, k', s') \<and> served self s s' \<and>
        reads (world s') = reads (world s) \<and>
        (case r of
           Some d \<Rightarrow> \<forall>ys. feed handle self (drop consumed (inbuf c) @ ys) [] (forget self s) = (Some d, [], forget self s') \<and>
             (d \<or> (\<exists>c'. slot s' self = Some c' \<and> closing c'))
         | None \<Rightarrow> \<exists>c'. slot s' self = Some c' \<and> length (inbuf c') = length (inbuf c) \<and> consumed \<le> k' \<and>
             k' \<le> length (inbuf c') \<and> NL \<notin> set (drop k' (inbuf c')) \<and>
             (\<forall>ys. feed handle self (drop consumed (inbuf c) @ ys) [] (forget self s) =
                   feed handle self (drop k' (inbuf c') @ ys) [] (forget self s')))"
      if c1: "slot s1 self = Some c1" and len: "length (inbuf c1) = length (inbuf c)" and rest: "drop (k + 1) (inbuf c1) = rest"
        and sv: "served self s s1" "reads (world s1) = reads (world s)"
        and f: "\<And>ys. feed handle self (NL # rest @ ys) line (forget self s) = feed handle self (rest @ ys) [] (forget self s1)"
      for s1 c1
    proof -
      have "length (inbuf c1) - (k + 1) < length (inbuf c) - search" "k + 1 \<le> length (inbuf c1)" "length (inbuf c1) \<le> INBUF_SIZE"
        using mk len bounds(3) by auto
      note H = less.hyps [OF this(1) c1 le_refl this(2,3), unfolded rest]
      have "NL \<notin> set (take (k + 1 - (k + 1)) (drop (k + 1) (inbuf c1)))"
        by simp
      from H [OF this [unfolded rest]] obtain r k' s' where
        IH: "scanLines handle self (k + 1) (k + 1) s1 = Some (r, k', s')" "served self s1 s'" "reads (world s') = reads (world s1)"
        "case r of
           Some d \<Rightarrow> \<forall>ys. feed handle self (rest @ ys) [] (forget self s1) = (Some d, [], forget self s') \<and>
             (d \<or> (\<exists>c'. slot s' self = Some c' \<and> closing c'))
         | None \<Rightarrow> \<exists>c'. slot s' self = Some c' \<and> length (inbuf c') = length (inbuf c1) \<and> k + 1 \<le> k' \<and>
             k' \<le> length (inbuf c') \<and> NL \<notin> set (drop k' (inbuf c')) \<and>
             (\<forall>ys. feed handle self (rest @ ys) [] (forget self s1) = feed handle self (drop k' (inbuf c') @ ys) [] (forget self s'))"
        by (elim exE conjE) (rule that)
      show ?thesis
        using IH served_trans [OF sv(1) IH(2)] sv(2) len mk(1) bounds(1) unfolding fed f
        by (intro exI [of _ r] exI [of _ k'] exI [of _ s']) (auto split: option.splits)
    qed
    show ?thesis
    proof (cases "discarding c")
      case True
      let ?c1 = "c\<lparr>discarding := False\<rparr>"
      have "feed handle self (NL # rest @ ys) line (forget self s) = feed handle self (rest @ ys) [] (forget self (put self ?c1 s))" for ys
        using c True by (simp add: feed_byte_def forget_put)
      moreover have "served self s (put self ?c1 s)"
        by (rule put_input_served [OF c]) simp
      ultimately show ?thesis
        using next_part [of "put self ?c1 s" ?c1] slot_Some_less [OF c] True c Some buf k
        by (subst unfold) (simp add: put_simps)
    next
      case False
      let ?c1 = "c\<lparr>inbuf := terminate_line (inbuf c) consumed k\<rparr>"
      let ?s1 = "put self ?c1 s"
      obtain don s2 where h: "handle (line_of line) self ?s1 = (don, s2)" by fastforce
      have c1: "slot ?s1 self = Some ?c1"
        using slot_Some_less [OF c] by simp
      note st = handle_step [OF c1 h]
      obtain c2 where c2: "slot s2 self = Some c2" "inbuf c2 = inbuf ?c1"
        using st(1) by (auto simp: same_input_def)
      have f1: "forget self ?s1 = forget self s"
        by (rule forget_put_input [OF c]) simp
      have fb: "feed_byte handle self NL line (forget self s) =
          (if don then (Some True, [], forget self s2) else (if closing c2 then Some False else None, [], forget self s2))"
        using c False st(4) c2(1) by (simp add: feed_byte_def f1)
      have sv: "served self s s2"
        by (rule served_trans [OF put_input_served [OF c] st(2)]) simp
      have rd: "reads (world s2) = reads (world s)"
        using st(3) by simp
      have h': "handle (cstr (drop consumed (terminate_line (inbuf c) consumed k))) self ?s1 = (don, s2)"
        using h terminated_line [of pre line rest] buf pre k by simp
      have step: "scanLines handle self consumed search s =
          (if don then Some (Some True, k + 1, s2)
           else if closing c2 then Some (Some False, k + 1, s2) else scanLines handle self (k + 1) (k + 1) s2)"
        using c Some False h' c2(1) by (subst unfold) simp
      have "drop (k + 1) (inbuf c2) = rest"
        using terminated_rest [of pre line rest] buf pre k c2(2) by simp
      with next_part [OF c2(1) _ _ sv rd] c2 fb fed sv rd show ?thesis
        unfolding step by auto
    qed
  qed
qed

lemma readLoop_feeds:
  assumes "slot s self = Some c" and "input_ready c"
  shows "\<exists>don s'. readLoop handle self s = Some (don, s') \<and> served self s s' \<and>
    agrees self (feed handle self (inbuf c @ incoming (reads (world s))) [] (forget self s)) (ending_of (reads (world s))) don s'"
  using assms
proof (induction "script_size (reads (world s))" arbitrary: s c rule: less_induct)
  case less
  note c = less.prems(1)
  have ready: "scanned_len c = length (inbuf c)" "length (inbuf c) < INBUF_SIZE" "NL \<notin> set (inbuf c)"
    using less.prems(2) by (auto simp: input_ready_def)
  note unfold = readLoop.simps [of handle self s]
  have here: "feed handle self (inbuf c) [] (forget self s) = (None, inbuf c, forget self s)"
    using feed_partial [OF ready(3), of "forget self s" self "blank c" "[]" handle] c ready(2) by simp
  obtain a w where rd: "os_read (INBUF_SIZE - length (inbuf c)) (world s) = (a, w)" by fastforce
  have room: "0 < INBUF_SIZE - length (inbuf c)"
    using ready(2) by simp
  let ?s1 = "s\<lparr>world := w\<rparr>"
  have w: "w = (world s)\<lparr>reads := reads w\<rparr>"
    using os_read_world [OF rd] .
  have sv1: "served self s ?s1"
    using unread_served [of self s "reads w"] w by simp
  have f1: "forget self ?s1 = forget self s"
    by (subst w) (simp add: forget_def)
  have c1: "slot ?s1 self = Some c"
    using c by simp
  show ?case
  proof (cases a)
    case (ReadFailed e)
    note F = os_read_failed [OF rd [unfolded ReadFailed]]
    show ?thesis
    proof (cases "e = EINTR")
      case True
      note F = F(1) [OF True]
      have "script_size (reads (world ?s1)) < script_size (reads (world s))"
        using F by simp
      from less.hyps [OF this c1 less.prems(2)] obtain don s' where
        "readLoop handle self ?s1 = Some (don, s')" "served self ?s1 s'"
        "agrees self (feed handle self (inbuf c @ incoming (reads w)) [] (forget self s)) (ending_of (reads w)) don s'"
        by (auto simp: f1 simp del: forget_upd)
      with F served_trans [OF sv1] c rd ReadFailed True show ?thesis
        by (subst unfold) auto
    next
      case False
      note F = F(2) [OF False]
      let ?broken = "\<not> (e = EAGAIN \<or> e = EWOULDBLOCK)" and ?out = "''Failed to read from client'' @ [NL]"
      let ?s' = "if ?broken then say ?out ?s1 else ?s1"
      have run: "readLoop handle self s = Some (?broken, ?s')"
        using c rd ReadFailed False by (subst unfold) simp
      have "served self s ?s'"
        using served_trans [OF sv1 say_served] sv1 by (simp only: simp_thms split: if_split)
      moreover have "forget self ?s' = (if ?broken then say ?out (forget self s) else forget self s)"
        by (cases ?broken) (use f1 forget_say [of self ?out ?s1] in \<open>simp_all only: refl simp_thms if_True if_False\<close>)
      moreover have "slot ?s' self = Some c"
        using c1 by (simp split: if_split)
      ultimately show ?thesis
        unfolding run using F here less.prems(2) by (simp add: agrees_def)
    qed
  next
    case (Read bytes)
    show ?thesis
    proof (cases "bytes = []")
      case True
      with os_read_eof [OF rd [unfolded Read True] room] c rd Read here sv1 f1 c1 less.prems(2) show ?thesis
        by (subst unfold) (auto simp: agrees_def)
    next
      case False
      note D = os_read_data [OF rd [unfolded Read] False room]
      let ?c2 = "c\<lparr>inbuf := inbuf c @ bytes\<rparr>"
      let ?s2 = "put self ?c2 ?s1"
      have c2: "slot ?s2 self = Some ?c2"
        using slot_Some_less [OF c] by simp
      have sv2: "served self s ?s2"
        by (rule served_trans [OF sv1 put_input_served [OF c1]]) simp
      have f2: "forget self ?s2 = forget self s"
        using forget_put_input [OF c1, of ?c2] f1 by simp
      have pre: "scanned_len c \<le> length (inbuf ?c2)" "length (inbuf ?c2) \<le> INBUF_SIZE"
        "NL \<notin> set (take (scanned_len c - 0) (drop 0 (inbuf ?c2)))"
        using ready D(3) by auto
      obtain r k s3 where sc: "scanLines handle self 0 (scanned_len c) ?s2 = Some (r, k, s3)" "served self ?s2 s3"
        "reads (world s3) = reads (world ?s2)"
        and res: "case r of
         Some d \<Rightarrow> \<forall>ys. feed handle self (drop 0 (inbuf ?c2) @ ys) [] (forget self ?s2) = (Some d, [], forget self s3) \<and>
           (d \<or> (\<exists>c'. slot s3 self = Some c' \<and> closing c'))
       | None \<Rightarrow> \<exists>c'. slot s3 self = Some c' \<and> length (inbuf c') = length (inbuf ?c2) \<and> 0 \<le> k \<and>
           k \<le> length (inbuf c') \<and> NL \<notin> set (drop k (inbuf c')) \<and>
           (\<forall>ys. feed handle self (drop 0 (inbuf ?c2) @ ys) [] (forget self ?s2) =
                 feed handle self (drop k (inbuf c') @ ys) [] (forget self s3))"
        using scan_feeds [OF c2 _ pre] by blast
      have sv3: "served self s s3"
        by (rule served_trans [OF sv2 sc(2)])
      show ?thesis
      proof (cases r)
        case (Some d)
        with res have "feed handle self (inbuf c @ incoming (reads (world s))) [] (forget self s) = (Some d, [], forget self s3)"
          "d \<or> (\<exists>c'. slot s3 self = Some c' \<and> closing c')"
          unfolding D(1) f2 by auto
        with Some sc(1) c rd Read False sv3 show ?thesis
          by (subst unfold) (auto simp: agrees_def)
      next
        case None
        with res obtain c3 where c3: "slot s3 self = Some c3" "length (inbuf c3) = length (inbuf ?c2)" "k \<le> length (inbuf c3)"
          "NL \<notin> set (drop k (inbuf c3))"
          and fed: "\<And>ys. feed handle self ((inbuf c @ bytes) @ ys) [] (forget self s) =
                 feed handle self (drop k (inbuf c3) @ ys) [] (forget self s3)"
          unfolding f2 by auto
        obtain failed s4 where st: "settle self k s3 = (failed, s4)" by fastforce
        have len3: "length (inbuf c3) \<le> INBUF_SIZE"
          using pre(2) c3(2) by simp
        note S = settle_feeds [OF c3(1,3) len3 c3(4) st]
        have sv4: "served self s s4"
          by (rule served_trans [OF sv3 S(1)])
        have step: "readLoop handle self s = (if failed then Some (True, s4) else readLoop handle self s4)"
          using c rd Read False sc(1) None st by (subst unfold) simp
        show ?thesis
        proof (cases failed)
          case True
          with S(3) [of handle] fed [of "incoming (reads w)"] D(1) sv4 step show ?thesis
            by (auto simp: agrees_def)
        next
          case False2: False
          then obtain c4 where c4: "slot s4 self = Some c4" "input_ready c4"
            and fed4: "\<And>ys. feed handle self (drop k (inbuf c3) @ ys) [] (forget self s3) = feed handle self (inbuf c4 @ ys) [] (forget self s4)"
            using S(4) [of handle] by (auto simp: input_ready_def)
          have rd4: "reads (world s4) = reads w"
            using S(2) sc(3) by simp
          then have "script_size (reads (world s4)) < script_size (reads (world s))"
            using D(4) by simp
          from less.hyps [OF this c4] obtain don s' where
            "readLoop handle self s4 = Some (don, s')" "served self s4 s'"
            "agrees self (feed handle self (inbuf c4 @ incoming (reads w)) [] (forget self s4)) (ending_of (reads w)) don s'"
            using rd4 by auto
          with served_trans [OF sv4] step False2 fed [of "incoming (reads w)"] fed4 D(1,2) show ?thesis
            by auto
        qed
      qed
    qed
  qed
qed

text \<open>A connection that is not served again is one that is closing.\<close>

lemma communicate_served:
  assumes "slot s self = Some c" and "closing c \<or> input_ready c"
  obtains don s' where "communicate_with handle self s = Some (don, s')" and "served self s s'"
    and "\<not> don \<Longrightarrow> \<exists>c'. slot s' self = Some c' \<and> (closing c' \<or> input_ready c')"
proof (cases "closing c")
  case True
  with assms that [of False s] show ?thesis
    by (simp add: communicate_with_def)
next
  case False
  then obtain don s' where run: "readLoop handle self s = Some (don, s')" "served self s s'"
    and agr: "agrees self (feed handle self (inbuf c @ incoming (reads (world s))) [] (forget self s)) (ending_of (reads (world s))) don s'"
    using readLoop_feeds assms by blast
  have "\<exists>c'. slot s' self = Some c' \<and> (closing c' \<or> input_ready c')" if "\<not> don"
    using agr that by (auto simp: agrees_def split: prod.splits option.splits)
  with run False assms(1) that show ?thesis
    by (simp add: communicate_with_def)
qed

text \<open>However the bytes were split into reads, and whatever the buffer held back, the outcome is the same.\<close>

lemma segmentation:
  assumes c: "slot s self = Some c" "closing c \<or> input_ready c" and d: "slot t self = Some d" "closing d \<or> input_ready d"
    and same: "forget self s = forget self t"
    and stream: "inbuf c @ incoming (reads (world s)) = inbuf d @ incoming (reads (world t))"
    and ending: "ending_of (reads (world s)) = ending_of (reads (world t))"
  obtains don s' t' where "communicate_with handle self s = Some (don, s')"
    and "communicate_with handle self t = Some (don, t')" and "forget self s' = forget self t'"
    and "don \<or> (\<exists>c' d'. slot s' self = Some c' \<and> slot t' self = Some d' \<and> (closing c' \<and> closing d' \<or> inbuf c' = inbuf d'))"
proof -
  have eq: "blank c = blank d"
    using arg_cong [OF same, of "\<lambda>x. slot x self"] c(1) d(1) by simp
  then have cl: "closing c = closing d"
    by (metis blank_simps(11))
  show thesis
  proof (cases "closing c")
    case True
    with that [of False s t] c d cl same show thesis
      by (simp add: communicate_with_def)
  next
    case False
    let ?r = "feed handle self (inbuf c @ incoming (reads (world s))) [] (forget self s)"
    obtain don s' where s': "readLoop handle self s = Some (don, s')" "agrees self ?r (ending_of (reads (world s))) don s'"
      using readLoop_feeds [OF c(1)] c(2) False by blast
    obtain don2 t' where t': "readLoop handle self t = Some (don2, t')" "agrees self ?r (ending_of (reads (world s))) don2 t'"
      using readLoop_feeds [OF d(1)] d(2) False cl same stream ending by auto
    have "don2 = don" and fg: "forget self s' = forget self t'"
      using s'(2) t'(2) by (auto simp: agrees_def split: prod.splits option.splits)
    moreover have "don \<or> (\<exists>c' d'. slot s' self = Some c' \<and> slot t' self = Some d' \<and> (closing c' \<and> closing d' \<or> inbuf c' = inbuf d'))"
      using s'(2) t'(2) by (auto simp: agrees_def split: prod.splits option.splits)
    ultimately show thesis
      using that [of don s' t'] s'(1) t'(1) False cl c(1) d(1) by (simp add: communicate_with_def)
  qed
qed

end

end
