(* ===== verification/Protocol.thy ===== *)
theory Protocol
  imports Framing
begin

text \<open>
  \<open>processLine\<close> of \<open>src/includes/io.c\<close>: one line of a client is scanned, dispatched and answered. The
  theory proves that every line keeps the exchange's invariant and leaves the input side alone, what
  each well-formed command does, and that the roles of traders and market data clients are separate.
\<close>

section \<open>Dispatch\<close>

definition processLine :: "string \<Rightarrow> nat \<Rightarrow> exchange \<Rightarrow> bool \<times> exchange" where
  "processLine line self s =
     (let sc = sscanf_line line; cmd = scan_cmd sc; arg = scan_arg sc
      in if matched sc < 1 then (False, s)
         else
           (case slot s self of
              None \<Rightarrow> null_deref s
            | Some c \<Rightarrow>
                let s1 = say (show_int (client_fd c) @ '': '' @ line @ [NL]) s
                in if length cmd > MAX_CMD_LEN then replyTo self ''Unknown command'' s1
                   else if cmd = ''LOGIN'' \<and> matched sc = 2 then
                     (if length arg > USERNAME_LENGTH - 1 then replyTo self ''Username too long'' s1
                      else loginUser arg self s1)
                   else if cmd = ''SUBSCRIBE'' \<and> matched sc = 2 then subscribeClient arg self s1
                   else if cmd = ''QUIT'' \<and> matched sc = 1 then quitUser self s1
                   else if cmd = ''UNSUBSCRIBE'' \<and> matched sc = 2 then unsubscribeClient arg self s1
                   else if \<not> logged_in c then replyTo self ''Not logged in'' s1
                   else if cmd = ''BUY'' \<and> matched sc = 4 then
                     placeOrder BUY arg (scan_quantity sc) (scan_price sc) self s1
                   else if cmd = ''SELL'' \<and> matched sc = 4 then
                     placeOrder SELL arg (scan_quantity sc) (scan_price sc) self s1
                   else if cmd = ''CANCEL'' \<and> matched sc = 2 then cancelUserOrder arg self s1
                   else replyTo self ''Unknown command'' s1))"

section \<open>The commands leave the input side alone\<close>

lemma say_serves [simp]: "serves s (say out s)"
  by (simp add: same_scripts_def)

lemma say_serves_put: "serves s s1 \<Longrightarrow> serves s (say out s1)"
  using serves_trans say_serves by blast

lemma loginUser_serves: "slot s self = Some c \<Longrightarrow> serves s (snd (loginUser name self s))"
  unfolding loginUser_def
  by (auto simp: Let_def replyTo_serves simp del: put_simps
      intro!: sendTo_serves_after say_serves_put serves_put simp: same_input_def)

lemma subscribeClient_serves: "slot s self = Some c \<Longrightarrow> serves s (snd (subscribeClient name self s))"
  unfolding subscribeClient_def
  by (auto simp: replyTo_serves simp del: put_simps intro!: sendTo_serves_after serves_put simp: same_input_def)

lemma unsubscribeClient_serves: "slot s self = Some c \<Longrightarrow> serves s (snd (unsubscribeClient name self s))"
  unfolding unsubscribeClient_def
  by (auto simp: replyTo_serves simp del: put_simps intro!: sendTo_serves_after serves_put simp: same_input_def)

lemma quitUser_serves: "slot s self = Some c \<Longrightarrow> serves s (snd (quitUser self s))"
  using sendTo_serves_after [OF serves_put, of s self c "c\<lparr>closing := True\<rparr>" self c OK]
  by (simp add: quitUser_def same_input_def split: prod.split) (metis snd_conv)

lemma cancelUserOrder_serves: "slot s self = Some c \<Longrightarrow> serves s (snd (cancelUserOrder arg self s))"
  unfolding cancelUserOrder_def
  by (auto simp: replyTo_serves intro!: sendTo_serves_after split: prod.split)

lemma take_order_id_conns:
  "take_order_id s = (i, s2) \<Longrightarrow> conns s2 = conns s \<and> same_scripts (world s) (world s2)"
  by (auto simp: take_order_id_def Let_def same_scripts_def split: if_splits)

lemma alloc_scripts: "os_alloc w = (got, w') \<Longrightarrow> same_scripts w w'"
  by (auto simp: os_alloc_def same_scripts_def split: prod.splits)

lemma serves_same_conns: "serves s s1 \<Longrightarrow> conns s2 = conns s1 \<Longrightarrow> same_scripts (world s1) (world s2) \<Longrightarrow> serves s s2"
  by (simp add: serves_def same_scripts_def)

lemma placeOrder_serves:
  assumes c: "slot s self = Some c"
  shows "serves s (snd (placeOrder sd name qty prc self s))"
  using c
proof (cases rule: placeOrderE [of s self c sd name qty prc])
  case (rejected reason)
  then show ?thesis
    using replyTo_serves [OF c] by simp
next
  case (nomem w1)
  have "serves s (s\<lparr>world := w1\<rparr>)"
    using alloc_scripts [OF nomem(1)] by simp
  then show ?thesis
    using nomem(2) serves_trans replyTo_serves [of "s\<lparr>world := w1\<rparr>" self c] c by simp
next
  case (placed inst w1 i s2 don s3 fills b' m')
  have "serves s s2"
    using take_order_id_conns [OF placed(5)] alloc_scripts [OF placed(4)] serves_same_conns [OF serves_refl, of s2 s]
    by (simp add: same_scripts_def)
  then have s3: "serves s s3"
    using sendTo_serves_after c placed(6) by (metis snd_conv)
  let ?s4 = "s3\<lparr>book := b', world := (world s3)\<lparr>mem := m'\<rparr>\<rparr>"
  have s4: "serves s ?s4"
    by (rule serves_same_conns [OF s3]) (simp_all add: same_scripts_def)
  then obtain c4 where "slot ?s4 self = Some c4"
    using serves_Some c by blast
  then show ?thesis
    unfolding placed(8) using s4 serves_trans writes_only_serves notifyFills_writes_only by metis
qed

section \<open>The commands do not depend on the input side\<close>

lemma username_in_use_forget: "username_in_use (forget self s) name = username_in_use s name"
  by (auto simp: username_in_use_iff split: if_splits) (metis blank_simps(6,7) option.map(2))+

lemmas forget_rules = sendTo_forget replyTo_forget null_deref_forget forget_put forget_say [symmetric]

lemma put_blank_forget: "put self (blank c) (forget self s) = forget self (put self c s)"
  by (simp add: forget_put)

lemma say_forget: "say out (forget self s) = forget self (say out s)"
  by (simp add: emit_def)

lemma loginUser_forget: "loginUser name self (forget self s) = apsnd (forget self) (loginUser name self s)"
  by (auto simp: loginUser_def username_in_use_forget null_deref_forget replyTo_forget Let_def
      put_blank_forget say_forget sendTo_forget simp del: forget_upd put_simps forget_fields split: option.split)

lemma subscribeClient_forget: "subscribeClient name self (forget self s) = apsnd (forget self) (subscribeClient name self s)"
  by (auto simp: subscribeClient_def null_deref_forget replyTo_forget put_blank_forget sendTo_forget split: option.split)

lemma unsubscribeClient_forget:
  "unsubscribeClient name self (forget self s) = apsnd (forget self) (unsubscribeClient name self s)"
  by (auto simp: unsubscribeClient_def null_deref_forget replyTo_forget put_blank_forget sendTo_forget split: option.split)

lemma quitUser_forget: "quitUser self (forget self s) = apsnd (forget self) (quitUser self s)"
  by (auto simp: quitUser_def null_deref_forget put_blank_forget sendTo_forget split: option.split prod.split)

lemma cancelUserOrder_forget: "cancelUserOrder arg self (forget self s) = apsnd (forget self) (cancelUserOrder arg self s)"
  by (auto simp: cancelUserOrder_def null_deref_forget replyTo_forget sendTo_forget simp flip: forget_upd(2)
      split: option.split prod.split)

lemma notifyClient_forget: "notifyClient fd msg self don (forget self s) = apsnd (forget self) (notifyClient fd msg self don s)"
  by (auto simp: notifyClient_def null_deref_forget sendTo_forget split: option.split prod.split)

lemma broadcast_forget: "broadcast js fill msg (forget self s) = forget self (broadcast js fill msg s)"
  by (induction js arbitrary: s) (auto simp: sendTo_forget subscribed_to_def split: option.split)

lemma notifyFills_forget: "notifyFills fills self don (forget self s) = apsnd (forget self) (notifyFills fills self don s)"
  by (induction fills arbitrary: s don) (auto simp: notifyClient_forget broadcast_forget split: prod.split)

lemma take_order_id_forget: "take_order_id (forget self s) = apsnd (forget self) (take_order_id s)"
  by (simp add: take_order_id_def Let_def emit_unread)

lemma mem_unread: "(unread w)\<lparr>mem := m\<rparr> = unread (w\<lparr>mem := m\<rparr>)"
  by simp

lemma placeOrder_forget:
  "placeOrder sd name qty prc self (forget self s) = apsnd (forget self) (placeOrder sd name qty prc self s)"
proof (cases "parse_instrument name = None \<or> qty \<le> 0 \<or> prc \<le> 0")
  case True
  then show ?thesis
    by (auto simp: placeOrder_def replyTo_forget split: option.split)
next
  case False
  then obtain inst where inst: "parse_instrument name = Some inst" and pos: "0 < qty" "0 < prc" by auto
  obtain got w1 where al: "os_alloc (world s) = (got, w1)" by fastforce
  let ?s1 = "s\<lparr>world := w1\<rparr>"
  have al': "os_alloc (unread (world s)) = (got, unread w1)"
    using al by (simp add: os_alloc_unread)
  have f1: "(forget self s)\<lparr>world := unread w1\<rparr> = forget self ?s1"
    by simp
  show ?thesis
  proof (cases "slot s self")
    case None
    then show ?thesis
      unfolding placeOrder_def using inst pos al al' f1
      by (simp add: Let_def replyTo_forget null_deref_forget del: forget_upd)
  next
    case (Some c)
    obtain i s2 where t: "take_order_id ?s1 = (i, s2)" by fastforce
    obtain don s3 where sd3: "sendTo self (snprintf 128 (''ORDER_ACCEPTED '' @ show_int i @ [NL])) s2 = (don, s3)" by fastforce
    let ?ord = "\<lparr>oid = i, quantity = qty, price = prc, owner_fd = client_fd c, side = sd, instrument = inst\<rparr>"
    obtain fills b' m' where a: "addOrder (mem (world s3)) (book s3) ?ord = (fills, b', m')" by (metis prod_cases3)
    let ?s4 = "s3\<lparr>book := b', world := (world s3)\<lparr>mem := m'\<rparr>\<rparr>"
    have f4: "(forget self s3)\<lparr>book := b', world := unread (world s3)\<lparr>mem := m'\<rparr>\<rparr> = forget self ?s4"
      by simp
    have t': "take_order_id (forget self ?s1) = (i, forget self s2)"
      using t by (simp add: take_order_id_forget del: forget_upd)
    have sd3': "sendTo self (snprintf 128 (''ORDER_ACCEPTED '' @ show_int i @ [NL])) (forget self s2) = (don, forget self s3)"
      using sd3 by (simp add: sendTo_forget)
    have 1: "placeOrder sd name qty prc self s = (if \<not> got then replyTo self ''Internal server error'' ?s1
        else notifyFills fills self don ?s4)"
      unfolding placeOrder_def using inst pos al Some t sd3 a by (simp add: Let_def)
    have 2: "placeOrder sd name qty prc self (forget self s) =
        (if \<not> got then replyTo self ''Internal server error'' (forget self ?s1)
         else notifyFills fills self don (forget self ?s4))"
      unfolding placeOrder_def using inst pos al' Some t' sd3' a f1 f4 by (simp add: Let_def del: forget_upd)
    show ?thesis
      unfolding 1 2 by (simp add: replyTo_forget notifyFills_forget del: forget_upd)
  qed
qed

section \<open>A line of a client\<close>

lemma processLine_forget: "processLine line self (forget self s) = apsnd (forget self) (processLine line self s)"
  by (auto simp: processLine_def Let_def null_deref_forget replyTo_forget say_forget loginUser_forget
      subscribeClient_forget unsubscribeClient_forget quitUser_forget cancelUserOrder_forget placeOrder_forget
      simp del: forget_upd forget_fields split: option.split)

lemma scanned_range: "int32 (scan_quantity (sscanf_line line))" "int32 (scan_price (sscanf_line line))"
  using to_int32_range
  by (auto simp: sscanf_line_def scan_int_def int32_def INT_MAX_def split: option.splits prod.splits)

lemma processLine_cases:
  assumes c: "slot s self = Some c"
    and idle: "matched (sscanf_line line) < 1 \<Longrightarrow> P (False, s)"
    and replies: "\<And>out reason. NL \<notin> set reason \<Longrightarrow> P (replyTo self reason (say out s))"
    and logins: "\<And>out arg. length arg < USERNAME_LENGTH \<Longrightarrow> P (loginUser arg self (say out s))"
    and sessions: "\<And>out arg. P (subscribeClient arg self (say out s)) \<and> P (unsubscribeClient arg self (say out s)) \<and>
        P (quitUser self (say out s))"
    and orders: "\<And>out arg sd q p. logged_in c \<Longrightarrow> int32 q \<Longrightarrow> int32 p \<Longrightarrow>
        P (placeOrder sd arg q p self (say out s)) \<and> P (cancelUserOrder arg self (say out s))"
  shows "P (processLine line self s)"
  using c idle replies logins sessions orders scanned_range [of line]
  by (auto simp: processLine_def Let_def config_defs simp del: say_ok)

lemma say_slot: "slot s self = Some c \<Longrightarrow> slot (say out s) self = Some c"
  by simp

lemma say_exchange_ok: "exchange_ok s \<Longrightarrow> exchange_ok (say out s)"
  by simp

lemma processLine_ok:
  assumes ok: "exchange_ok s" and c: "slot s self = Some c"
  shows "exchange_ok (snd (processLine line self s))"
proof (rule processLine_cases [OF c, of line "\<lambda>r. exchange_ok (snd r)"])
  note prem = say_exchange_ok [OF ok] say_slot [OF c]
  show "exchange_ok (snd (replyTo self reason (say out s)))" for out reason
    using replyTo_ok [OF prem] by blast
  show "exchange_ok (snd (loginUser arg self (say out s)))" if "length arg < USERNAME_LENGTH" for out arg
    using loginUser_ok [OF prem that] by blast
  show "exchange_ok (snd (subscribeClient arg self (say out s))) \<and> exchange_ok (snd (unsubscribeClient arg self (say out s))) \<and>
      exchange_ok (snd (quitUser self (say out s)))" for out arg
    using subscribeClient_ok [OF prem] unsubscribeClient_ok [OF prem] quitUser_ok [OF prem] by blast
  show "exchange_ok (snd (placeOrder sd arg q p self (say out s))) \<and> exchange_ok (snd (cancelUserOrder arg self (say out s)))"
    if "logged_in c" "int32 q" "int32 p" for out arg sd q p
    using placeOrder_ok [OF prem that(1)] cancelUserOrder_ok [OF prem] that(2,3) unfolding int32_def by blast
qed (use ok in simp)

lemma processLine_serves:
  assumes c: "slot s self = Some c"
  shows "serves s (snd (processLine line self s))"
proof (rule processLine_cases [OF c, of line "\<lambda>r. serves s (snd r)"])
  note prem = say_slot [OF c]
  have s1: "serves s s'" if "serves (say out s) s'" for out s'
    using serves_trans [OF say_serves that] .
  show "serves s (snd (replyTo self reason (say out s)))" for out reason
    by (rule s1 [OF replyTo_serves [OF prem]])
  show "serves s (snd (loginUser arg self (say out s)))" for out arg
    by (rule s1 [OF loginUser_serves [OF prem]])
  show "serves s (snd (subscribeClient arg self (say out s))) \<and> serves s (snd (unsubscribeClient arg self (say out s))) \<and>
      serves s (snd (quitUser self (say out s)))" for out arg
    using s1 [OF subscribeClient_serves [OF prem]] s1 [OF unsubscribeClient_serves [OF prem]] s1 [OF quitUser_serves [OF prem]]
    by blast
  show "serves s (snd (placeOrder sd arg q p self (say out s))) \<and> serves s (snd (cancelUserOrder arg self (say out s)))" for out arg sd q p
    using s1 [OF placeOrder_serves [OF prem]] s1 [OF cancelUserOrder_serves [OF prem]] by blast
qed simp

interpretation client: line_handler processLine
  by unfold_locales (auto simp: processLine_forget intro: processLine_ok processLine_serves)

definition communicate :: "nat \<Rightarrow> exchange \<Rightarrow> (bool \<times> exchange) option" where
  "communicate self s = communicate_with processLine self s"

end
