(* ===== verification/Server.thy ===== *)
theory Server
  imports Protocol
begin

text \<open>
  Connections come and go: \<open>src/includes/server.c\<close> and \<open>removeClient\<close> of \<open>io.c\<close>. The invariant of the
  whole server is kept by every event, and a descriptor that is used again starts with a clean slate.
\<close>

section \<open>Removing a connection\<close>

definition take_slot :: "nat \<Rightarrow> exchange \<Rightarrow> exchange" where
  "take_slot i s = s\<lparr>conns := (conns s)[i := None]\<rparr>"

definition peer :: "ClientConnection \<Rightarrow> string" where
  "peer c = inet_ntoa (sin_addr (caddr c)) @ '':'' @ show_nat (ntohs (sin_port (caddr c)))"

definition removeClient :: "nat \<Rightarrow> nat \<Rightarrow> exchange \<Rightarrow> exchange" where
  "removeClient fd kq s =
     (let s1 = s\<lparr>book := detachClientOrders (book s) (int fd)\<rparr>;
          (err, w) = os_kevent (FiltersDeleted (int fd)) (world s1);
          s2 = s1\<lparr>world := w\<rparr>;
          s3 = (case err of
                  None \<Rightarrow> s2
                | Some e \<Rightarrow>
                    if e \<noteq> ENOENT then say (''Failed to remove client socket from kqueue: '' @ strerror e @ [NL]) s2 else s2);
          s4 = (case slot s3 fd of
                  None \<Rightarrow> s3
                | Some c \<Rightarrow>
                    let t1 = (if closing c then s3\<lparr>world := emit (ShutdownWrite (int fd)) (world s3)\<rparr> else s3);
                        t2 = (if logged_in c
                              then say (''Client '' @ peer c @ '' (user '' @ username c @ '') disconnected'' @ [NL]) t1
                              else say (''Client '' @ peer c @ '' disconnected'' @ [NL]) t1)
                    in take_slot fd t2)
      in s4\<lparr>world := emit (Closed (int fd)) (world s4)\<rparr>)"

section \<open>New connections\<close>

definition setNonBlocking :: "nat \<Rightarrow> os \<Rightarrow> os" where
  "setNonBlocking fd w =
     (let (got, w1) = os_fcntl w
      in if got then let (set_ok, w2) = os_fcntl w1 in if set_ok then emit (SetNonBlocking (int fd)) w2 else w2
         else w1)"

text \<open>The doubling loop of \<open>growConns\<close>; it does not end when the capacity is 0.\<close>

partial_function (option) double_cap :: "nat \<Rightarrow> nat \<Rightarrow> nat option" where
  "double_cap fd new_cap = (if fd \<ge> new_cap then double_cap fd (new_cap * 2) else Some new_cap)"

definition growConns :: "nat \<Rightarrow> exchange \<Rightarrow> (bool \<times> exchange) option" where
  "growConns fd s =
     (case double_cap fd (curr_cap s) of
        None \<Rightarrow> None
      | Some new_cap \<Rightarrow>
          let (got, w) = os_alloc (world s); s1 = s\<lparr>world := w\<rparr>
          in Some (if \<not> got then (False, say (''Failed to grow connection table'' @ [NL]) s1)
                   else (True, s1\<lparr>conns := conns s1 @ replicate (new_cap - curr_cap s1) None\<rparr>)))"

text \<open>A slot outside the table cannot be written to; the code never tries, which the event marks.\<close>

definition registerClient :: "nat \<Rightarrow> nat \<Rightarrow> sockaddr_in \<Rightarrow> exchange \<Rightarrow> bool \<times> exchange" where
  "registerClient fd kq addr s =
     (let (got, w) = os_alloc (world s); s1 = s\<lparr>world := w\<rparr>
      in if fd \<ge> curr_cap s then (False, s1\<lparr>world := emit NullDeref w\<rparr>)
         else if \<not> got then
           let s2 = say (''Failed to allocate client connection'' @ [NL]) (take_slot fd s1)
           in (False, s2\<lparr>world := emit (Closed (int fd)) (world s2)\<rparr>)
         else
           let s2 = put fd (new_client fd addr) s1;
               (err, w2) = os_kevent (FiltersAdded (int fd)) (world s2);
               s3 = s2\<lparr>world := w2\<rparr>
           in if err \<noteq> None then
                let s4 = take_slot fd (say (''Failed to add client socket to kqueue'' @ [NL]) s3)
                in (False, s4\<lparr>world := emit (Closed (int fd)) (world s4)\<rparr>)
              else (True, s3))"

text \<open>The descriptors that are open: those of the connections, and the server's own, \<open>base\<close>.\<close>

definition open_fds :: "nat list \<Rightarrow> exchange \<Rightarrow> nat list" where
  "open_fds base s = base @ filter (\<lambda>i. slot s i \<noteq> None) [0..<curr_cap s]"

partial_function (option) acceptClients :: "nat list \<Rightarrow> nat \<Rightarrow> exchange \<Rightarrow> exchange option" where
  "acceptClients base kq s =
     (case os_accept (open_fds base s) (world s) of
        (answer, w) \<Rightarrow>
          (case answer of
             AcceptFailed e \<Rightarrow>
               if e = EINTR \<or> e = ECONNABORTED then acceptClients base kq (s\<lparr>world := w\<rparr>)
               else if e \<noteq> EAGAIN \<and> e \<noteq> EWOULDBLOCK then
                 Some (say (''Failed to accept client connection: '' @ strerror e @ [NL]) (s\<lparr>world := w\<rparr>))
               else Some (s\<lparr>world := w\<rparr>)
           | Accepted fd addr \<Rightarrow>
               if fd \<ge> curr_cap s then
                 (case growConns fd (s\<lparr>world := setNonBlocking fd w\<rparr>) of
                    None \<Rightarrow> None
                  | Some (grown, s2) \<Rightarrow>
                      if \<not> grown then acceptClients base kq (s2\<lparr>world := emit (Closed (int fd)) (world s2)\<rparr>)
                      else acceptClients base kq (snd (registerClient fd kq addr s2)))
               else acceptClients base kq (snd (registerClient fd kq addr (s\<lparr>world := setNonBlocking fd w\<rparr>)))))"

section \<open>Events\<close>

datatype filter_kind = EVFILT_READ | EVFILT_WRITE

text \<open>A \<open>struct kevent\<close> as \<open>kevent\<close> returns it; the two booleans are the flags \<open>EV_ERROR\<close> and \<open>EV_EOF\<close>.\<close>

record kevent =
  ident :: nat
  kfilter :: filter_kind
  ev_error :: bool
  ev_eof :: bool

definition flushSlot :: "nat \<Rightarrow> exchange \<Rightarrow> bool \<times> exchange" where
  "flushSlot fd s = on_conn fd flushToClient s"

definition handleClientEvent :: "kevent \<Rightarrow> nat \<Rightarrow> exchange \<Rightarrow> exchange option" where
  "handleClientEvent ev kq s =
     (let fd = ident ev
      in if fd \<ge> curr_cap s \<or> slot s fd = None then Some s
         else
           let done0 = (ev_error ev \<or> (kfilter ev = EVFILT_WRITE \<and> ev_eof ev));
               (done1, s1) = (if \<not> done0 \<and> kfilter ev = EVFILT_WRITE then flushSlot fd s else (done0, s))
           in case (if \<not> done1 \<and> kfilter ev = EVFILT_READ then communicate fd s1 else Some (done1, s1)) of
                None \<Rightarrow> None
              | Some (don, s2) \<Rightarrow> Some (if don then removeClient fd kq s2 else s2))"

section \<open>The invariant of the server\<close>

definition server_ok :: "nat list \<Rightarrow> exchange \<Rightarrow> bool" where
  "server_ok base s \<longleftrightarrow>
     exchange_ok s \<and> (\<forall>i c. slot s i = Some c \<longrightarrow> closing c \<or> input_ready c) \<and> (\<forall>i \<in> set base. slot s i = None)"

lemma exchange_ok_world:
  assumes "exchange_ok s" and "NullDeref \<notin> set (log w)" and "IdOverflow \<in> set (log (world s)) \<Longrightarrow> IdOverflow \<in> set (log w)"
  shows "exchange_ok (s\<lparr>world := w\<rparr>)"
  using assms by (auto simp: exchange_ok_def names_unique_def book_inv_def owner_ok_def)

text \<open>A step of the world that adds no error to the log and leaves the script of \<open>accept\<close> alone.\<close>

definition quiet :: "os \<Rightarrow> os \<Rightarrow> bool" where
  "quiet w w' \<longleftrightarrow>
     (\<exists>es. log w' = log w @ es \<and> NullDeref \<notin> set es \<and> IdOverflow \<notin> set es) \<and> accepts w' = accepts w"

lemma quiet_refl [simp]: "quiet w w"
  by (simp add: quiet_def)

lemma quiet_trans: "quiet w w1 \<Longrightarrow> quiet w1 w2 \<Longrightarrow> quiet w w2"
  by (force simp: quiet_def)

lemma quiet_emit: "quiet w w1 \<Longrightarrow> e \<noteq> NullDeref \<Longrightarrow> e \<noteq> IdOverflow \<Longrightarrow> quiet w (emit e w1)"
  by (auto simp: quiet_def)

lemma quiet_calls:
  "os_kevent e w = (err, w') \<Longrightarrow> e \<noteq> NullDeref \<Longrightarrow> e \<noteq> IdOverflow \<Longrightarrow> quiet w w'"
  "os_alloc w = (got, w') \<Longrightarrow> quiet w w'"
  "quiet w (setNonBlocking fd w)"
  by (auto simp: os_kevent_def os_alloc_def setNonBlocking_def os_fcntl_def quiet_def Let_def
      split: list.splits option.splits prod.splits)

lemma exchange_ok_quiet: "exchange_ok s \<Longrightarrow> quiet (world s) w \<Longrightarrow> exchange_ok (s\<lparr>world := w\<rparr>)"
  by (rule exchange_ok_world) (auto simp: quiet_def exchange_ok_def)

lemma quiet_events: "quiet w w' \<Longrightarrow> IdOverflow \<in> set (log w') \<longleftrightarrow> IdOverflow \<in> set (log w)"
  by (auto simp: quiet_def)

lemma take_slot_simps [simp]:
  "curr_cap (take_slot i s) = curr_cap s" "book (take_slot i s) = book s" "world (take_slot i s) = world s"
  "next_order_id (take_slot i s) = next_order_id s" "slot (take_slot i s) j = (if j = i then None else slot s j)"
  by (auto simp: take_slot_def slot_def curr_cap_def)

lemma no_owner:
  assumes "exchange_ok s" and "slot s i = None"
  shows "IdOverflow \<in> set (log (world s)) \<or> int i \<notin> owner_fd ` set (resting (book s))"
  using exchange_okD(4) [OF assms(1)] assms(2) by (auto simp: book_inv_def owner_ok_def)

lemma take_slot_ok:
  assumes ok: "exchange_ok s" and free: "IdOverflow \<in> set (log (world s)) \<or> int i \<notin> owner_fd ` set (resting (book s))"
  shows "exchange_ok (take_slot i s)"
proof -
  have "owner_ok (take_slot i s) fd" if "owner_ok s fd" "fd \<noteq> int i" for fd
    using that by (auto simp: owner_ok_def)
  then have "book_inv (take_slot i s)"
    using exchange_okD(4) [OF ok] free by (auto simp: book_inv_def image_iff)
  with ok show ?thesis
    by (auto simp: exchange_ok_def names_unique_def split: if_splits)
qed

lemma detach_book_ok:
  assumes ok: "exchange_ok s"
  shows "exchange_ok (s\<lparr>book := detachClientOrders (book s) fd\<rparr>)"
proof -
  let ?s = "s\<lparr>book := detachClientOrders (book s) fd\<rparr>"
  have owner: "owner_ok ?s x = owner_ok s x" for x
    by (simp add: owner_ok_def)
  have "book_inv ?s"
    using exchange_okD(4) [OF ok] lists.detach_keeps [of "next_order_id s" "book s" fd]
    by (auto simp: book_inv_def owner lists.detach_orders) (simp add: owner_ok_def)
  with ok show ?thesis
    by (simp add: exchange_ok_def names_unique_def)
qed

section \<open>The effect of each operation\<close>

lemma removeClient_effect [frame_simps]:
  shows "slot (removeClient fd kq s) j = (if j = fd then None else slot s j)"
    and "book (removeClient fd kq s) = detachClientOrders (book s) (int fd)"
    and "curr_cap (removeClient fd kq s) = curr_cap s"
    and "next_order_id (removeClient fd kq s) = next_order_id s"
    and "quiet (world s) (world (removeClient fd kq s))"
proof -
  obtain err w where k: "os_kevent (FiltersDeleted (int fd)) (world s) = (err, w)" by fastforce
  note q = quiet_calls(1) [OF k]
  show "slot (removeClient fd kq s) j = (if j = fd then None else slot s j)"
    "book (removeClient fd kq s) = detachClientOrders (book s) (int fd)"
    "curr_cap (removeClient fd kq s) = curr_cap s"
    "next_order_id (removeClient fd kq s) = next_order_id s"
    using k by (auto simp: removeClient_def Let_def split: option.split)
  show "quiet (world s) (world (removeClient fd kq s))"
    using k q by (auto simp: removeClient_def Let_def intro!: quiet_emit split: option.split)
qed

lemma conns_eqI:
  assumes "curr_cap s = curr_cap t" and "\<And>j. slot s j = slot t j"
  shows "conns s = conns t"
proof (rule nth_equalityI)
  show "length (conns s) = length (conns t)"
    using assms(1) by (simp add: curr_cap_def)
  show "conns s ! i = conns t ! i" if "i < length (conns s)" for i
    using assms(2) [of i] assms(1) that by (simp add: slot_def curr_cap_def)
qed

lemma removeClient_ok:
  assumes ok: "exchange_ok s"
  shows "exchange_ok (removeClient fd kq s)"
proof -
  let ?s1 = "s\<lparr>book := detachClientOrders (book s) (int fd)\<rparr>"
  let ?t = "(take_slot fd ?s1)\<lparr>world := world (removeClient fd kq s)\<rparr>"
  have "int fd \<notin> owner_fd ` set (resting (book ?s1))"
    using lists.detached_owns_nothing [of "int fd" "book s"] by (simp add: lists.owners_def)
  then have "exchange_ok (take_slot fd ?s1)"
    using take_slot_ok [OF detach_book_ok [OF ok]] by blast
  then have "exchange_ok ?t"
    by (rule exchange_ok_quiet) (simp add: frame_simps)
  moreover have "removeClient fd kq s = ?t"
    by (rule exchange.equality) (auto simp: frame_simps intro!: conns_eqI)
  ultimately show ?thesis by simp
qed

lemma double_cap_total:
  "0 < cap \<Longrightarrow> \<exists>n. double_cap fd cap = Some n \<and> fd < n \<and> cap \<le> n \<and> (\<exists>k. n = cap * 2 ^ k) \<and> (n = cap \<or> n \<le> 2 * fd)"
proof (induction "fd + 1 - cap" arbitrary: cap rule: less_induct)
  case less
  show ?case
  proof (cases "cap \<le> fd")
    case True
    then have "fd + 1 - cap * 2 < fd + 1 - cap"
      using less.prems by linarith
    from less.hyps [OF this] less.prems obtain n k where
      "double_cap fd (cap * 2) = Some n" "fd < n" "cap * 2 \<le> n" "n = cap * 2 * 2 ^ k" "n = cap * 2 \<or> n \<le> 2 * fd"
      by auto
    with True show ?thesis
      by (subst double_cap.simps) (auto intro!: exI [of _ "Suc k"])
  next
    case False
    then show ?thesis
      by (subst double_cap.simps) (auto intro!: exI [of _ 0])
  qed
qed

lemma grown_slot: "slot (s\<lparr>conns := conns s @ replicate n None\<rparr>) j = slot s j"
  by (auto simp: slot_def curr_cap_def nth_append)

lemma growConns_total:
  assumes ok: "exchange_ok s"
  obtains grown s' where "growConns fd s = Some (grown, s')" and "exchange_ok s'" and "\<And>j. slot s' j = slot s j"
    and "grown \<Longrightarrow> fd < curr_cap s'" and "curr_cap s \<le> curr_cap s'" and "book s' = book s"
    and "quiet (world s) (world s')" and "\<not> grown \<Longrightarrow> curr_cap s' = curr_cap s"
proof -
  obtain n where n: "double_cap fd (curr_cap s) = Some n" "fd < n" "curr_cap s \<le> n"
    using double_cap_total exchange_okD(1) [OF ok] by blast
  obtain got w where al: "os_alloc (world s) = (got, w)" by fastforce
  let ?s1 = "s\<lparr>world := w\<rparr>"
  have ok1: "exchange_ok ?s1"
    using ok quiet_calls(2) [OF al] by (rule exchange_ok_quiet)
  show thesis
  proof (cases got)
    case True
    let ?s2 = "?s1\<lparr>conns := conns ?s1 @ replicate (n - curr_cap ?s1) None\<rparr>"
    have cap: "curr_cap ?s2 = n"
      using n(3) by (simp add: curr_cap_def)
    have sl: "slot ?s2 j = slot s j" for j
      using grown_slot [of ?s1 _ j] by simp
    have "exchange_ok ?s2"
      using ok1 n(2) unfolding exchange_ok_def names_unique_def book_inv_def owner_ok_def cap sl by simp
    from that [OF _ this] sl cap n True al quiet_calls(2) [OF al] show thesis
      by (simp add: growConns_def Let_def)
  next
    case False
    let ?s2 = "say (''Failed to grow connection table'' @ [NL]) ?s1"
    have "exchange_ok ?s2"
      using ok1 by (simp only: say_ok)
    from that [OF _ this] n al False quiet_emit [OF quiet_calls(2) [OF al]] show thesis
      by (simp add: growConns_def Let_def)
  qed
qed

lemma put_new_ok:
  assumes ok: "exchange_ok s" and i: "i < curr_cap s" "slot s i = None" and c: "conn_ok i c" "\<not> logged_in c"
  shows "exchange_ok (put i c s)"
proof -
  have "owner_ok (put i c s) fd" if "owner_ok s fd" for fd
    using that i by (auto simp: owner_ok_def)
  then have "book_inv (put i c s)"
    using exchange_okD(4) [OF ok] by (auto simp: book_inv_def)
  with ok i c show ?thesis
    by (auto simp: exchange_ok_def names_unique_def split: if_splits)
qed

lemma new_client_ok: "conn_ok fd (new_client fd addr)" "\<not> logged_in (new_client fd addr)" "input_ready (new_client fd addr)"
  by (simp_all add: conn_ok_def new_client_def outlen_def pending_def input_ready_def config_defs)

lemma registerClient_effect:
  assumes ok: "exchange_ok s" and fd: "fd < curr_cap s" "slot s fd = None" and r: "registerClient fd kq addr s = (done, s')"
  shows "exchange_ok s'" and "quiet (world s) (world s')" and "book s' = book s" and "curr_cap s' = curr_cap s"
    and "next_order_id s' = next_order_id s"
    and "slot s' j = (if done \<and> j = fd then Some (new_client fd addr) else slot s j)"
proof -
  obtain got w where al: "os_alloc (world s) = (got, w)" by fastforce
  obtain err w2 where k: "os_kevent (FiltersAdded (int fd)) w = (err, w2)" by fastforce
  note qa = quiet_calls(2) [OF al] and qk = quiet_calls(1) [OF k, simplified]
  have q2: "quiet (world s) w2"
    using qa qk by (rule quiet_trans)
  have base: "book s' = book s \<and> curr_cap s' = curr_cap s \<and> next_order_id s' = next_order_id s \<and>
      slot s' j = (if done \<and> j = fd then Some (new_client fd addr) else slot s j)" for j
    using r al k fd by (auto simp: registerClient_def Let_def split: if_splits)
  then show "book s' = book s" "curr_cap s' = curr_cap s" "next_order_id s' = next_order_id s"
    "slot s' j = (if done \<and> j = fd then Some (new_client fd addr) else slot s j)"
    by blast+
  show q: "quiet (world s) (world s')"
    using r al k qa q2 fd(1) by (auto simp: registerClient_def Let_def intro!: quiet_emit split: if_splits)
  let ?t = "(if done then put fd (new_client fd addr) s else s)\<lparr>world := world s'\<rparr>"
  have "exchange_ok (if done then put fd (new_client fd addr) s else s)"
    using put_new_ok [OF ok fd new_client_ok(1,2)] ok by simp
  then have "exchange_ok ?t"
    by (rule exchange_ok_quiet) (use q in simp)
  moreover have "conns s' = conns ?t"
    by (rule conns_eqI) (use base fd in auto)
  then have "s' = ?t"
    using base by (intro exchange.equality) auto
  ultimately show "exchange_ok s'" by simp
qed

text \<open>
  \<open>accepted base s s'\<close>: new connections were added, on descriptors that were free; they are in their
  initial state. The rest of the exchange is as it was.
\<close>

definition accepted :: "nat list \<Rightarrow> exchange \<Rightarrow> exchange \<Rightarrow> bool" where
  "accepted base s s' \<longleftrightarrow>
     curr_cap s \<le> curr_cap s' \<and> book s' = book s \<and> next_order_id s' = next_order_id s \<and>
     (\<forall>j. slot s' j = slot s j \<or> slot s j = None \<and> j \<notin> set base \<and> (\<exists>addr. slot s' j = Some (new_client j addr)))"

lemma accepted_refl [simp]: "accepted base s s"
  by (simp add: accepted_def)

lemma accepted_trans: "accepted base s s1 \<Longrightarrow> accepted base s1 s2 \<Longrightarrow> accepted base s s2"
  unfolding accepted_def by (metis (no_types, lifting) option.distinct(1) order_trans)

lemma accepted_world [simp]: "accepted base s (s'\<lparr>world := w\<rparr>) = accepted base s s'"
  by (simp add: accepted_def)

lemma open_fds_iff: "fd \<notin> set (open_fds base s) \<Longrightarrow> fd \<notin> set base \<and> slot s fd = None"
  by (auto simp: open_fds_def slot_def)

lemma acceptClients_total:
  assumes "exchange_ok s"
  shows "\<exists>s'. acceptClients base kq s = Some s' \<and> exchange_ok s' \<and> accepted base s s' \<and> quiet ((world s)\<lparr>accepts := []\<rparr>) ((world s')\<lparr>accepts := []\<rparr>)"
  using assms
proof (induction "length (accepts (world s))" arbitrary: s rule: less_induct)
  case less
  note unfold = acceptClients.simps [of base kq s]
  let ?goal = "\<lambda>s s'. exchange_ok s' \<and> accepted base s s' \<and> quiet ((world s)\<lparr>accepts := []\<rparr>) ((world s')\<lparr>accepts := []\<rparr>)"
  obtain a w where acc: "os_accept (open_fds base s) (world s) = (a, w)" by fastforce
  note A = os_accept_world [OF acc]
  have log: "log w = log (world s)"
    by (subst A(1)) simp
  let ?s0 = "s\<lparr>world := w\<rparr>"
  have ok0: "exchange_ok ?s0"
    using less.prems log by (intro exchange_ok_world) (auto simp: exchange_ok_def)
  have again: "\<exists>s'. acceptClients base kq s1 = Some s' \<and> ?goal s s'"
    if "exchange_ok s1" "accepted base s s1" "quiet w (world s1)" "accepts (world s) \<noteq> []" for s1
  proof -
    have "length (accepts (world s1)) < length (accepts (world s))"
      using that(3) A(2) [OF that(4)] by (simp add: quiet_def)
    from less.hyps [OF this that(1)] obtain s' where s': "acceptClients base kq s1 = Some s'" "?goal s1 s'"
      by blast
    have "quiet ((world s)\<lparr>accepts := []\<rparr>) ((world s1)\<lparr>accepts := []\<rparr>)"
      using that(3) log by (auto simp: quiet_def)
    moreover have "quiet ((world s1)\<lparr>accepts := []\<rparr>) ((world s')\<lparr>accepts := []\<rparr>)"
      using s'(2) by (auto simp: quiet_def)
    ultimately have "quiet ((world s)\<lparr>accepts := []\<rparr>) ((world s')\<lparr>accepts := []\<rparr>)"
      by (rule quiet_trans)
    with s' accepted_trans [OF that(2)] show ?thesis by blast
  qed
  show ?case
  proof (cases a)
    case (AcceptFailed e)
    show ?thesis
    proof (cases "e = EINTR \<or> e = ECONNABORTED")
      case True
      have ne: "accepts (world s) \<noteq> []"
      proof
        assume "accepts (world s) = []"
        with A(3) AcceptFailed True show False by auto
      qed
      have "accepted base s ?s0" "quiet w (world ?s0)"
        by simp_all
      from again [OF ok0 this ne] show ?thesis
        using acc AcceptFailed True by (subst unfold) simp
    next
      case False
      let ?out = "''Failed to accept client connection: '' @ strerror e @ [NL]"
      have "exchange_ok (say ?out ?s0)"
        using ok0 by (simp only: say_ok)
      moreover have "quiet ((world s)\<lparr>accepts := []\<rparr>) (w\<lparr>accepts := []\<rparr>)"
        "quiet ((world s)\<lparr>accepts := []\<rparr>) ((emit (Printed ?out) w)\<lparr>accepts := []\<rparr>)"
        using log by (auto simp: quiet_def)
      ultimately show ?thesis
        using acc AcceptFailed False ok0 by (subst unfold) simp
    qed
  next
    case (Accepted fd addr)
    have ne: "accepts (world s) \<noteq> []"
    proof
      assume "accepts (world s) = []"
      with A(3) Accepted show False by simp
    qed
    have free: "fd \<notin> set base" "slot s fd = None"
      using open_fds_iff [OF A(4) [OF Accepted]] by auto
    let ?s1 = "s\<lparr>world := setNonBlocking fd w\<rparr>"
    have q1: "quiet w (world ?s1)"
      by (simp add: quiet_calls(3))
    have ok1: "exchange_ok ?s1"
      using exchange_ok_quiet [OF ok0, of "world ?s1"] q1 by simp
    have reg: "\<exists>s'. acceptClients base kq (snd (registerClient fd kq addr s2)) = Some s' \<and> ?goal s s'"
      if s2: "exchange_ok s2" "fd < curr_cap s2" "\<And>j. slot s2 j = slot s j" "book s2 = book s"
        "next_order_id s2 = next_order_id s" "curr_cap s \<le> curr_cap s2" "quiet w (world s2)" for s2
    proof -
      obtain don s3 where r: "registerClient fd kq addr s2 = (don, s3)" by fastforce
      have "slot s2 fd = None"
        using free s2(3) by simp
      note R = registerClient_effect [OF s2(1,2) this r]
      have "accepted base s s3"
        using R(3-6) s2(3-6) free by (auto simp: accepted_def)
      with again [OF R(1)] quiet_trans [OF s2(7) R(2)] ne r show ?thesis
        by simp
    qed
    show ?thesis
    proof (cases "fd < curr_cap s")
      case True
      from reg [OF ok1] True q1 show ?thesis
        using acc Accepted by (subst unfold) simp
    next
      case False
      obtain grown s2 where g: "growConns fd ?s1 = Some (grown, s2)" "exchange_ok s2" "\<And>j. slot s2 j = slot ?s1 j"
        "grown \<Longrightarrow> fd < curr_cap s2" "curr_cap ?s1 \<le> curr_cap s2" "book s2 = book ?s1" "quiet (world ?s1) (world s2)"
        "\<not> grown \<Longrightarrow> curr_cap s2 = curr_cap ?s1"
        using growConns_total [OF ok1, of fd] by metis
      have n: "next_order_id s2 = next_order_id s"
        using g(1) by (auto simp: growConns_def Let_def split: option.splits prod.splits if_splits)
      have q2: "quiet w (world s2)"
        using q1 g(7) by (rule quiet_trans)
      show ?thesis
      proof (cases grown)
        case True
        from reg [OF g(2)] g True n q2 show ?thesis
          using acc Accepted False by (subst unfold) simp
      next
        case False2: False
        let ?s3 = "s2\<lparr>world := emit (Closed (int fd)) (world s2)\<rparr>"
        have q3: "quiet (world s2) (world ?s3)"
          using quiet_emit [OF quiet_refl] by simp
        have "exchange_ok ?s3" "accepted base s ?s3" "quiet w (world ?s3)"
          using exchange_ok_quiet [OF g(2), of "world ?s3"] q3 g n quiet_trans [OF q2 q3] by (auto simp: accepted_def)
        from again [OF this ne] show ?thesis
          using acc Accepted False False2 g(1) by (subst unfold) simp
      qed
    qed
  qed
qed

section \<open>Every event keeps the invariant\<close>

lemma acceptClients_ok:
  assumes ok: "server_ok base s"
  obtains s' where "acceptClients base kq s = Some s'" and "server_ok base s'" and "accepted base s s'"
proof -
  obtain s' where s': "acceptClients base kq s = Some s'" "exchange_ok s'" "accepted base s s'"
    using acceptClients_total [of s base kq] ok by (auto simp: server_ok_def)
  have "closing c \<or> input_ready c" if "slot s' i = Some c" for i c
    using s'(3) ok that new_client_ok(3) unfolding accepted_def server_ok_def by (metis option.inject)
  moreover have "slot s' i = None" if "i \<in> set base" for i
    using s'(3) ok that unfolding accepted_def server_ok_def by metis
  ultimately have "server_ok base s'"
    using s'(2) by (simp add: server_ok_def)
  with s' that show thesis by blast
qed

lemma served_ok:
  assumes ok: "server_ok base s" and sv: "served fd s s'"
    and self: "\<exists>c'. slot s' fd = Some c' \<and> (closing c' \<or> input_ready c')" and fd: "slot s fd \<noteq> None"
  shows "server_ok base s'"
proof -
  have rel: "rel_option same_input (slot s j) (slot s' j)" if "j \<noteq> fd" for j
    using sv that by (simp add: served_def)
  have "closing c \<or> input_ready c" if c: "slot s' i = Some c" for i c
  proof (cases "i = fd")
    case False
    with rel [of i] c obtain d where "slot s i = Some d" "same_input d c"
      by (cases "slot s i") auto
    with ok show ?thesis
      by (auto simp: server_ok_def same_input_def input_ready_def)
  qed (use self c in auto)
  moreover have "slot s' i = None" if "i \<in> set base" for i
  proof -
    have "slot s i = None" "i \<noteq> fd"
      using ok that fd by (auto simp: server_ok_def)
    with rel [of i] show ?thesis
      by (cases "slot s' i") auto
  qed
  ultimately show ?thesis
    using ok sv by (simp add: server_ok_def served_def)
qed

lemma served_removed_ok:
  assumes ok: "server_ok base s" and sv: "served fd s s'"
  shows "server_ok base (removeClient fd kq s')"
proof -
  have ex: "exchange_ok (removeClient fd kq s')"
    using ok sv by (intro removeClient_ok) (simp add: server_ok_def served_def)
  have rel: "rel_option same_input (slot s j) (slot s' j)" if "j \<noteq> fd" for j
    using sv that by (simp add: served_def)
  have "closing c \<or> input_ready c" if "slot s' i = Some c" "i \<noteq> fd" for i c
    using rel [OF that(2)] that(1) ok
    by (cases "slot s i") (auto simp: server_ok_def same_input_def input_ready_def)
  moreover have "slot s' i = None" if "i \<in> set base" "i \<noteq> fd" for i
    using rel [OF that(2)] that(1) ok by (cases "slot s' i") (auto simp: server_ok_def)
  ultimately show ?thesis
    using ex by (auto simp: server_ok_def frame_simps split: if_splits)
qed

lemma flushSlot_effect:
  assumes c: "slot s fd = Some c" and f: "flushSlot fd s = (don, s')"
  shows "writes_only s s'" and "served fd s s'" and "\<exists>c'. slot s' fd = Some c' \<and> same_but_output c c'"
proof -
  have same: "same_but_output c c' \<and> touches UNIV w w'" if "flushToClient c w = (failed, c', w')" for c w failed c' w'
  proof -
    note E = flushToClient_effect [OF that]
    have "c'\<lparr>outbuf := None\<rparr> = c\<lparr>outbuf := None\<rparr>"
      by (rule truncated) (use E in blast)
    moreover have "touches UNIV w w'"
      using E touches_mono by blast
    moreover have "outlen c' \<le> outlen c"
      using E by blast
    ultimately show ?thesis
      unfolding same_but_output_def by simp
  qed
  have "writes_only s (snd (on_conn fd flushToClient s))"
    using c by (rule on_conn_writes_only) (rule same)
  then show wo: "writes_only s s'"
    using f by (simp add: flushSlot_def)
  show "served fd s s'"
    using serves_served [OF writes_only_serves [OF wo] writes_only_ok [OF wo]] .
  show "\<exists>c'. slot s' fd = Some c' \<and> same_but_output c c'"
    by (rule writes_only_Some(1) [OF wo c])
qed

lemma handleClientEvent_ok:
  assumes ok: "server_ok base s"
  obtains s' where "handleClientEvent ev kq s = Some s'" and "server_ok base s'"
proof (cases "slot s (ident ev)")
  case None
  with ok that show thesis
    by (simp add: handleClientEvent_def)
next
  case (Some c)
  let ?fd = "ident ev"
  have ex: "exchange_ok s" and ready: "closing c \<or> input_ready c"
    using ok Some by (auto simp: server_ok_def)
  have fd: "?fd < curr_cap s"
    using slot_Some_less [OF Some] by simp
  consider (broken) "ev_error ev \<or> (kfilter ev = EVFILT_WRITE \<and> ev_eof ev)"
    | (writable) "\<not> (ev_error ev \<or> (kfilter ev = EVFILT_WRITE \<and> ev_eof ev))" "kfilter ev = EVFILT_WRITE"
    | (readable) "\<not> (ev_error ev \<or> (kfilter ev = EVFILT_WRITE \<and> ev_eof ev))" "kfilter ev = EVFILT_READ"
    using filter_kind.exhaust by blast
  then show thesis
  proof cases
    case broken
    then have "handleClientEvent ev kq s = Some (removeClient ?fd kq s)"
      using Some fd by (auto simp: handleClientEvent_def Let_def)
    with served_removed_ok [OF ok served_refl] that show thesis by blast
  next
    case writable
    obtain don s1 where f: "flushSlot ?fd s = (don, s1)" by fastforce
    note F = flushSlot_effect [OF Some f]
    have "\<exists>c'. slot s1 ?fd = Some c' \<and> (closing c' \<or> input_ready c')"
      using F(3) ready same_but_output_fields by (fastforce simp: input_ready_def)
    then have "server_ok base s1"
      using served_ok [OF ok F(2)] Some by simp
    moreover have "handleClientEvent ev kq s = Some (if don then removeClient ?fd kq s1 else s1)"
      using writable Some fd f by (auto simp: handleClientEvent_def Let_def)
    ultimately show thesis
      using served_removed_ok [OF ok F(2)] that by (cases don) auto
  next
    case readable
    obtain don s1 where C: "communicate ?fd s = Some (don, s1)" "served ?fd s s1"
      "\<not> don \<Longrightarrow> \<exists>c'. slot s1 ?fd = Some c' \<and> (closing c' \<or> input_ready c')"
      using client.communicate_served [OF Some ready] unfolding communicate_def by metis
    have "handleClientEvent ev kq s = Some (if don then removeClient ?fd kq s1 else s1)"
      using readable Some fd C(1) by (auto simp: handleClientEvent_def Let_def)
    then show thesis
      using served_removed_ok [OF ok C(2)] served_ok [OF ok C(2) C(3)] Some that by (cases don) auto
  qed
qed

end
