(* ===== verification/Exchange_Server.thy ===== *)
theory Exchange_Server
  imports Server
begin

text \<open>
  The program \<open>src/exchange_server.c\<close>: its command line, its set-up, the event loop and the shutdown. The
  step relation \<open>server_step\<close> lets the kernel deliver any event at any time with any answers; the
  invariant of the server is proved for every reachable state.
\<close>

section \<open>The event loop\<close>

fun handleEvents :: "nat \<Rightarrow> nat list \<Rightarrow> nat \<Rightarrow> kevent list \<Rightarrow> exchange \<Rightarrow> exchange option" where
  "handleEvents server_fd base kq [] s = Some s"
| "handleEvents server_fd base kq (ev # evs) s =
     (case (if ident ev = server_fd then acceptClients base kq s else handleClientEvent ev kq s) of
        None \<Rightarrow> None
      | Some s1 \<Rightarrow> handleEvents server_fd base kq evs s1)"

text \<open>
  A pass of the loop: it finds \<open>running\<close> cleared, or \<open>kevent\<close> fails, or it returns events. When the passes
  are used up, the server still waits; the boolean tells whether the loop was left.
\<close>

datatype pass = Stopped | WaitFailed errno | Events "kevent list"

fun serverLoop :: "nat \<Rightarrow> nat list \<Rightarrow> nat \<Rightarrow> pass list \<Rightarrow> exchange \<Rightarrow> (bool \<times> exchange) option" where
  "serverLoop server_fd base kq [] s = Some (False, s)"
| "serverLoop server_fd base kq (Stopped # ps) s = Some (True, s)"
| "serverLoop server_fd base kq (WaitFailed e # ps) s =
     (if e = EINTR then serverLoop server_fd base kq ps s
      else Some (True, say (''Failed to wait for events: '' @ strerror e @ [NL]) s))"
| "serverLoop server_fd base kq (Events evs # ps) s =
     (case handleEvents server_fd base kq (take MAX_EVENTS evs) s of
        None \<Rightarrow> None
      | Some s1 \<Rightarrow> serverLoop server_fd base kq ps s1)"

fun closeAll :: "nat \<Rightarrow> nat list \<Rightarrow> exchange \<Rightarrow> exchange" where
  "closeAll kq [] s = s"
| "closeAll kq (i # is) s = closeAll kq is (if slot s i \<noteq> None then removeClient i kq s else s)"

definition shutdownServer :: "nat \<Rightarrow> nat \<Rightarrow> exchange \<Rightarrow> exchange" where
  "shutdownServer server_fd kq s =
     (let s1 = say (''Shutting down, closing '' @ show_nat (curr_cap s) @ '' connection slots'' @ [NL]) s;
          s2 = (closeAll kq [0..<curr_cap s1] s1)\<lparr>conns := []\<rparr>;
          s3 = s2\<lparr>world := emit (Closed (int kq)) (emit (Closed (int server_fd)) (world s2))\<rparr>
      in say (''Exchange server closed successfully'' @ [NL]) s3)"

section \<open>The program\<close>

text \<open>The answers of the set-up calls; \<open>pton\<close> says which texts \<open>inet_pton\<close> takes for an address.\<close>

record startup =
  sigpipe_ok :: bool
  sigint_ok :: bool
  sigterm_ok :: bool
  socket_fd :: "nat option"
  pton :: "string \<Rightarrow> bool"
  sockopt_ok :: bool
  bind_ok :: bool
  listen_ok :: bool
  kqueue_fd :: "nat option"

datatype outcome = Exited int os | Waiting exchange

definition parse_port :: "string option \<Rightarrow> int option" where
  "parse_port arg =
     (case arg of
        None \<Rightarrow> Some PORT
      | Some text \<Rightarrow>
          let (v, rest) = strtol text
          in if rest \<noteq> [] \<or> v \<le> 0 \<or> v > 65535 then None else Some v)"

definition main_arg :: "nat \<Rightarrow> string list \<Rightarrow> string option" where
  "main_arg i argv = (if length argv > i then Some (argv ! i) else None)"

definition fail :: "string \<Rightarrow> os \<Rightarrow> outcome option" where
  "fail reason w = Some (Exited 1 (print (reason @ [NL]) w))"

definition init_exchange :: "os \<Rightarrow> exchange" where
  "init_exchange w = \<lparr>conns = replicate MIN_CAPACITY None, book = initOrderbook, next_order_id = 0, world = w\<rparr>"

text \<open>From \<open>initOrderbook\<close> on, with the listening socket in place.\<close>

definition serve :: "nat \<Rightarrow> startup \<Rightarrow> pass list \<Rightarrow> os \<Rightarrow> outcome option" where
  "serve server_fd su ps w =
     (case kqueue_fd su of
        None \<Rightarrow> fail ''Failed to create kqueue instance'' w
      | Some kq \<Rightarrow>
          let (err, w1) = os_kevent (FiltersAdded (int server_fd)) w
          in if err \<noteq> None then fail ''Failed to add server socket to kqueue'' w1
             else
               let (got, w2) = os_alloc w1
               in if \<not> got then fail ''Failed to allocate connection table'' w2
                  else
                    (case serverLoop server_fd [0, 1, 2, server_fd, kq] kq ps (init_exchange w2) of
                       None \<Rightarrow> None
                     | Some (left, s) \<Rightarrow>
                         Some (if left then Exited 0 (world (shutdownServer server_fd kq s)) else Waiting s)))"

definition main :: "string list \<Rightarrow> startup \<Rightarrow> pass list \<Rightarrow> os \<Rightarrow> outcome option" where
  "main argv su ps w =
     (if \<not> sigpipe_ok su then fail ''Failed to ignore SIGPIPE'' w
      else if \<not> sigint_ok su \<or> \<not> sigterm_ok su then fail ''Failed to install shutdown handler'' w
      else
        (case parse_port (main_arg 2 argv) of
           None \<Rightarrow> fail (''Invalid port: '' @ argv ! 2) w
         | Some port \<Rightarrow>
             (case socket_fd su of
                None \<Rightarrow> fail ''Failed to create socket'' w
              | Some server_fd \<Rightarrow>
                  let host = main_arg 1 argv
                  in if \<not> (case host of None \<Rightarrow> True | Some h \<Rightarrow> pton su h) then fail (''Invalid bind address: '' @ argv ! 1) w
                     else if \<not> sockopt_ok su then fail ''Failed to set socket options'' w
                     else
                       let w1 = setNonBlocking server_fd w
                       in if \<not> bind_ok su then fail ''Failed to bind socket'' w1
                          else if \<not> listen_ok su then fail ''Failed to listen on socket'' w1
                          else
                            serve server_fd su ps
                              (print (''Listening on '' @ (case host of None \<Rightarrow> ''0.0.0.0'' | Some h \<Rightarrow> h) @ '':'' @
                                      show_int port @ [NL]) w1))))"

section \<open>Every run of the loop is safe\<close>

lemma init_exchange_ok: "NullDeref \<notin> set (log w) \<Longrightarrow> server_ok base (init_exchange w)"
  using initOrderbook_ok
  by (auto simp: server_ok_def exchange_ok_def init_exchange_def slot_def curr_cap_def names_unique_def book_inv_def
      MIN_CAPACITY_def INT_MAX_def resting_def initOrderbook_def enum_list_ref_def)

lemma handleEvents_ok:
  "server_ok base s \<Longrightarrow> \<exists>s'. handleEvents server_fd base kq evs s = Some s' \<and> server_ok base s'"
proof (induction evs arbitrary: s)
  case (Cons ev evs)
  obtain s1 where "(if ident ev = server_fd then acceptClients base kq s else handleClientEvent ev kq s) = Some s1"
    "server_ok base s1"
    using acceptClients_ok [OF Cons.prems] handleClientEvent_ok [OF Cons.prems] by metis
  with Cons.IH [of s1] show ?case by simp
qed simp

lemma say_server_ok: "server_ok base s \<Longrightarrow> server_ok base (say out s)"
  by (simp add: server_ok_def)

lemma serverLoop_ok:
  "server_ok base s \<Longrightarrow> \<exists>left s'. serverLoop server_fd base kq ps s = Some (left, s') \<and> server_ok base s'"
proof (induction ps arbitrary: s)
  case (Cons p ps)
  show ?case
  proof (cases p)
    case (WaitFailed e)
    with Cons say_server_ok show ?thesis by auto
  next
    case (Events evs)
    with handleEvents_ok [OF Cons.prems, of server_fd kq "take MAX_EVENTS evs"] Cons.IH show ?thesis by auto
  qed (use Cons in \<open>auto simp: ex_bool_eq\<close>)
qed (simp add: ex_bool_eq)

section \<open>Reachable states\<close>

text \<open>Between events the kernel may have any answers ready.\<close>

definition answers_changed :: "os \<Rightarrow> os \<Rightarrow> bool" where
  "answers_changed w w' \<longleftrightarrow> log w' = log w"

inductive server_step :: "nat list \<Rightarrow> nat \<Rightarrow> exchange \<Rightarrow> exchange \<Rightarrow> bool" for base kq where
  kernel: "answers_changed (world s) w \<Longrightarrow> server_step base kq s (s\<lparr>world := w\<rparr>)"
| accept: "acceptClients base kq s = Some s' \<Longrightarrow> server_step base kq s s'"
| client: "handleClientEvent ev kq s = Some s' \<Longrightarrow> server_step base kq s s'"

inductive reachable :: "nat list \<Rightarrow> nat \<Rightarrow> exchange \<Rightarrow> bool" for base kq where
  init: "log w = [] \<Longrightarrow> reachable base kq (init_exchange w)"
| step: "reachable base kq s \<Longrightarrow> server_step base kq s s' \<Longrightarrow> reachable base kq s'"

inductive_cases server_stepE: "server_step base kq s s'"

lemma server_step_ok: "server_step base kq s s' \<Longrightarrow> server_ok base s \<Longrightarrow> server_ok base s'"
proof (elim server_stepE)
  fix w assume "server_ok base s" "s' = s\<lparr>world := w\<rparr>" "answers_changed (world s) w"
  then show "server_ok base s'"
    using exchange_ok_world [of s w] by (auto simp: server_ok_def answers_changed_def exchange_ok_def)
next
  assume "server_ok base s" "acceptClients base kq s = Some s'"
  then show "server_ok base s'"
    using acceptClients_ok by (metis option.inject)
next
  fix ev assume "server_ok base s" "handleClientEvent ev kq s = Some s'"
  then show "server_ok base s'"
    using handleClientEvent_ok by (metis option.inject)
qed

lemma reachable_ok: "reachable base kq s \<Longrightarrow> server_ok base s"
  by (induction rule: reachable.induct) (auto intro: init_exchange_ok server_step_ok)

section \<open>Shutdown and start\<close>

lemma closeAll_ok: "exchange_ok s \<Longrightarrow> exchange_ok (closeAll kq is s)"
  by (induction "is" arbitrary: s) (auto intro: removeClient_ok)

lemma closeAll_effect [frame_simps]:
  "slot (closeAll kq is s) j = (if j \<in> set is then None else slot s j)"
  "curr_cap (closeAll kq is s) = curr_cap s"
  by (induction "is" arbitrary: s) (auto simp: frame_simps)

lemma shutdown_log: "exchange_ok s \<Longrightarrow> NullDeref \<notin> set (log (world (shutdownServer server_fd kq s)))"
  using exchange_okD(5) [OF closeAll_ok, of "say out s" for out] by (simp add: shutdownServer_def Let_def)

lemma serve_safe:
  assumes "NullDeref \<notin> set (log w)"
  shows "\<exists>out. serve server_fd su ps w = Some out \<and>
    (case out of Exited code w' \<Rightarrow> (code = 0 \<or> code = 1) \<and> NullDeref \<notin> set (log w') | Waiting s \<Rightarrow> \<exists>base. server_ok base s)"
proof (cases "kqueue_fd su")
  case None
  with assms show ?thesis by (simp add: serve_def fail_def)
next
  case (Some kq)
  obtain err w1 where k: "os_kevent (FiltersAdded (int server_fd)) w = (err, w1)" by fastforce
  obtain got w2 where al: "os_alloc w1 = (got, w2)" by fastforce
  have n1: "NullDeref \<notin> set (log w1)"
    using quiet_calls(1) [OF k] assms by (auto simp: quiet_def)
  have n2: "NullDeref \<notin> set (log w2)"
    using quiet_calls(2) [OF al] n1 by (auto simp: quiet_def)
  let ?base = "[0, 1, 2, server_fd, kq]"
  obtain left s where l: "serverLoop server_fd ?base kq ps (init_exchange w2) = Some (left, s)" "server_ok ?base s"
    using serverLoop_ok [OF init_exchange_ok [OF n2]] by blast
  then have "NullDeref \<notin> set (log (world (shutdownServer server_fd kq s)))"
    by (intro shutdown_log) (simp add: server_ok_def)
  with Some k al n1 n2 l show ?thesis
    by (auto simp: serve_def fail_def Let_def)
qed

end
