(* ===== verification/Reports.thy ===== *)
theory Reports
  imports Protocol
begin

text \<open>
  Who is told what. Every send of the server extends the byte streams of the connections by whole lines;
  this theory says which lines a command sends to which connection, and derives the properties of the
  protocol that a client can observe.
\<close>

section \<open>Deliveries\<close>

text \<open>
  \<open>lines_sent C ms s s'\<close>: connection \<open>j\<close> was sent some of the lines \<open>ms j\<close>, in their order and nothing else.
  It was sent all of them if \<open>j\<close> is in \<open>C\<close>, and also if there is room: no write fails for good, and its output
  buffer can hold all the lines. \<open>delivers\<close> adds that nothing but output changed.
\<close>

definition room :: "exchange \<Rightarrow> ClientConnection \<Rightarrow> string list \<Rightarrow> bool" where
  "room s c ls \<longleftrightarrow> reliable (world s) \<and> outlen c + length (concat ls) \<le> OUTBUF_SIZE"

definition lines_sent :: "nat set \<Rightarrow> (nat \<Rightarrow> string list) \<Rightarrow> exchange \<Rightarrow> exchange \<Rightarrow> bool" where
  "lines_sent C ms s s' \<longleftrightarrow>
     set (writes (world s')) \<subseteq> set (writes (world s)) \<and>
     (\<forall>j c. slot s j = Some c \<longrightarrow>
        (\<exists>c' ls. slot s' j = Some c' \<and> subseq ls (ms j) \<and> (j \<in> C \<or> room s c (ms j) \<longrightarrow> ls = ms j) \<and>
           outlen c' \<le> outlen c + length (concat (ms j)) \<and> stream c' (world s') = stream c (world s) @ concat ls))"

lemma lines_sentD:
  assumes "lines_sent C ms s s'" and "slot s j = Some c"
  obtains c' ls where "slot s' j = Some c'" and "subseq ls (ms j)" and "j \<in> C \<or> room s c (ms j) \<longrightarrow> ls = ms j"
    and "outlen c' \<le> outlen c + length (concat (ms j))" and "stream c' (world s') = stream c (world s) @ concat ls"
  using assms unfolding lines_sent_def by blast

lemma room_later:
  assumes "room s c (ls @ ks)" and "lines_sent C ms s s'" and "outlen c' \<le> outlen c + length (concat ls)"
  shows "room s c ls" and "room s' c' ks"
  using assms reliable_mono [of "world s" "world s'"] by (auto simp: room_def lines_sent_def)

definition delivers :: "nat set \<Rightarrow> (nat \<Rightarrow> string list) \<Rightarrow> exchange \<Rightarrow> exchange \<Rightarrow> bool" where
  "delivers C ms s s' \<longleftrightarrow>
     writes_only s s' \<and> set (mem (world s')) \<subseteq> set (mem (world s)) \<and> lines_sent C ms s s'"

lemma lines_sent_refl: "lines_sent C (\<lambda>j. []) s s"
  by (auto simp: lines_sent_def)

lemma lines_sent_trans:
  assumes "lines_sent C ms s s1" and "lines_sent C ns s1 s2"
  shows "lines_sent C (\<lambda>j. ms j @ ns j) s s2"
  unfolding lines_sent_def
proof (intro conjI allI impI)
  show "set (writes (world s2)) \<subseteq> set (writes (world s))"
    using assms by (auto simp: lines_sent_def)
  fix j c assume c: "slot s j = Some c"
  obtain c1 ls1 where 1: "slot s1 j = Some c1" "subseq ls1 (ms j)" "j \<in> C \<or> room s c (ms j) \<longrightarrow> ls1 = ms j"
    "outlen c1 \<le> outlen c + length (concat (ms j))" "stream c1 (world s1) = stream c (world s) @ concat ls1"
    using lines_sentD [OF assms(1) c] .
  obtain c2 ls2 where 2: "slot s2 j = Some c2" "subseq ls2 (ns j)" "j \<in> C \<or> room s1 c1 (ns j) \<longrightarrow> ls2 = ns j"
    "outlen c2 \<le> outlen c1 + length (concat (ns j))" "stream c2 (world s2) = stream c1 (world s1) @ concat ls2"
    using lines_sentD [OF assms(2) 1(1)] .
  show "\<exists>c' ls. slot s2 j = Some c' \<and> subseq ls (ms j @ ns j) \<and> (j \<in> C \<or> room s c (ms j @ ns j) \<longrightarrow> ls = ms j @ ns j) \<and>
      outlen c' \<le> outlen c + length (concat (ms j @ ns j)) \<and> stream c' (world s2) = stream c (world s) @ concat ls"
    using 1 2 room_later [OF _ assms(1) 1(4), of "ns j"]
    by (intro exI [of _ c2] exI [of _ "ls1 @ ls2"]) (auto simp: list_emb_append_mono)
qed

lemma lines_sent_cong:
  assumes "lines_sent C ms s s'" and "\<And>j. slot s j \<noteq> None \<Longrightarrow> ms j = ns j"
  shows "lines_sent C ns s s'"
proof -
  have "ms j = ns j" if "slot s j = Some c" for j c
    using assms(2) that by simp
  with assms(1) show ?thesis
    unfolding lines_sent_def by auto
qed

lemma lines_sent_mono: "lines_sent C ms s s' \<Longrightarrow> D \<subseteq> C \<Longrightarrow> lines_sent D ms s s'"
  unfolding lines_sent_def by (blast dest: subsetD)

lemma lines_sent_quiet:
  assumes "\<And>j c. slot s j = Some c \<Longrightarrow> \<exists>c'. slot s' j = Some c' \<and> pending c' = pending c \<and> client_fd c' = client_fd c"
    and "\<And>fd. sent fd (world s') = sent fd (world s)" and "writes (world s') = writes (world s)"
  shows "lines_sent C (\<lambda>j. []) s s'"
  unfolding lines_sent_def
proof (intro conjI allI impI)
  show "set (writes (world s')) \<subseteq> set (writes (world s))"
    by (simp add: assms(3))
  fix j c assume "slot s j = Some c"
  then obtain c' where "slot s' j = Some c'" "pending c' = pending c" "client_fd c' = client_fd c"
    using assms(1) by blast
  then show "\<exists>c' ls. slot s' j = Some c' \<and> subseq ls [] \<and> (j \<in> C \<or> room s c [] \<longrightarrow> ls = []) \<and>
      outlen c' \<le> outlen c + length (concat []) \<and> stream c' (world s') = stream c (world s) @ concat ls"
    by (intro exI [of _ c'] exI [of _ "[]"]) (simp add: stream_def outlen_def assms(2))
qed

text \<open>What comes before or after without sending anything.\<close>

lemma lines_sent_before: "lines_sent C (\<lambda>j. []) s s1 \<Longrightarrow> lines_sent C ms s1 s2 \<Longrightarrow> lines_sent C ms s s2"
  using lines_sent_trans [of C "\<lambda>j. []" s s1 ms s2] by simp

lemma lines_sent_after: "lines_sent C ms s s1 \<Longrightarrow> lines_sent C (\<lambda>j. []) s1 s2 \<Longrightarrow> lines_sent C ms s s2"
  using lines_sent_trans [of C ms s s1 "\<lambda>j. []" s2] by simp

lemma delivers_refl: "delivers C (\<lambda>j. []) s s"
  by (simp add: delivers_def lines_sent_refl)

lemma delivers_trans: "delivers C ms s s1 \<Longrightarrow> delivers C ns s1 s2 \<Longrightarrow> delivers C (\<lambda>j. ms j @ ns j) s s2"
  unfolding delivers_def using writes_only_trans lines_sent_trans by blast

lemma delivers_mono: "delivers C ms s s' \<Longrightarrow> D \<subseteq> C \<Longrightarrow> delivers D ms s s'"
  unfolding delivers_def using lines_sent_mono by blast

lemma delivers_cong: "delivers C ms s s' \<Longrightarrow> (\<And>j. slot s j \<noteq> None \<Longrightarrow> ms j = ns j) \<Longrightarrow> delivers C ns s s'"
  unfolding delivers_def using lines_sent_cong by blast

text \<open>
  A state in which sends can be reasoned about: connections know their descriptor, which the invariant
  gives, and the allocator does not fail.
\<close>

definition calm :: "exchange \<Rightarrow> bool" where
  "calm s \<longleftrightarrow> (\<forall>j c. slot s j = Some c \<longrightarrow> client_fd c = int j) \<and> False \<notin> set (mem (world s))"

lemma exchange_ok_calm: "exchange_ok s \<Longrightarrow> False \<notin> set (mem (world s)) \<Longrightarrow> calm s"
  using exchange_okD(2) by (auto simp: calm_def conn_ok_def)

lemma calmD: "calm s \<Longrightarrow> slot s j = Some c \<Longrightarrow> client_fd c = int j" "calm s \<Longrightarrow> False \<notin> set (mem (world s))"
  by (auto simp: calm_def)

lemma calm_delivers:
  assumes "calm s" and "delivers C ms s s'"
  shows "calm s'"
proof -
  have "client_fd c' = int j" if "slot s' j = Some c'" for j c'
    using assms that writes_only_Some(2) same_but_output_fields(1) calmD(1) unfolding delivers_def by metis
  with assms show ?thesis
    by (auto simp: calm_def delivers_def)
qed

lemma sendTo_delivers:
  assumes calm: "calm s" and i: "slot s i = Some c"
    and len: "length l \<le> OUTBUF_SIZE" and sent: "sendTo i l s = (failed, s')"
  shows "delivers (if failed then {j. j \<noteq> i} else UNIV) (\<lambda>j. if j = i then [l] else []) s s'"
  unfolding delivers_def
proof (intro conjI)
  show wo: "writes_only s s'"
    using sendTo_writes_only [OF i, of l] sent by simp
  obtain c1 w1 where sl: "sendLine c l (world s) = (failed, c1, w1)" and s': "s' = put i c1 s\<lparr>world := w1\<rparr>"
    using sent i by (auto simp: on_conn_def split: prod.splits)
  show "set (mem (world s')) \<subseteq> set (mem (world s))"
    using out.memory [OF sl] s' by simp
  show "lines_sent (if failed then {j. j \<noteq> i} else UNIV) (\<lambda>j. if j = i then [l] else []) s s'"
    unfolding lines_sent_def
  proof (intro conjI allI impI)
    show "set (writes (world s')) \<subseteq> set (writes (world s))"
      using out.script [OF sl] s' by simp
    fix j d assume d: "slot s j = Some d"
    obtain d' where d': "slot s' j = Some d'" "same_but_output d d'"
      using writes_only_Some(1) [OF wo d] by blast
    let ?ms = "if j = i then [l] else []"
    show "\<exists>c' ls. slot s' j = Some c' \<and> subseq ls ?ms \<and>
        (j \<in> (if failed then {j. j \<noteq> i} else UNIV) \<or> room s d ?ms \<longrightarrow> ls = ?ms) \<and>
        outlen c' \<le> outlen d + length (concat ?ms) \<and> stream c' (world s') = stream d (world s) @ concat ls"
    proof (cases "j = i")
      case True
      then have dc: "d = c" "d' = c1"
        using d i d' s' slot_Some_less [OF i] by auto
      have "\<not> room s d [l]" if failed
        using out.refused [of c l "world s" c1 w1] sl that calmD(2) [OF calm] by (auto simp: room_def dc)
      with True dc d' s' out.grows [OF sl] out.delivered [of c l "world s" c1 w1] out.dropped [of c l "world s" c1 w1] sl
        calmD(2) [OF calm] len show ?thesis
        by (intro exI [of _ c1] exI [of _ "if failed then [] else [l]"]) (cases failed; simp)
    next
      case False
      then have same: "d' = d"
        using d d' s' by simp
      have "client_fd c = int i" "client_fd d = int j"
        using calmD(1) [OF calm] i d by auto
      with False have "client_fd d \<notin> {client_fd c}" by simp
      then have "sent (client_fd d) w1 = sent (client_fd d) (world s)"
        using touches_sent_other [OF out.quiet [OF sl]] by blast
      then have "stream d (world s') = stream d (world s)"
        by (simp add: stream_def s')
      with False d' same show ?thesis
        by (intro exI [of _ d] exI [of _ "[]"]) simp
    qed
  qed
qed

lemma delivers_slot: "delivers C ms s s' \<Longrightarrow> slot s j = Some c \<Longrightarrow> \<exists>c'. slot s' j = Some c' \<and> same_but_output c c'"
  unfolding delivers_def using writes_only_Some(1) by blast

definition expects_trade :: "exchange \<Rightarrow> Fill \<Rightarrow> nat \<Rightarrow> bool" where
  "expects_trade s f j \<longleftrightarrow>
     (case slot s j of None \<Rightarrow> False | Some c \<Rightarrow> ctype c = market \<and> subscribed_to c (finstrument f))"

lemma expects_trade_same:
  assumes "delivers C ms s s'"
  shows "expects_trade s' f j = expects_trade s f j"
proof (cases "slot s j")
  case None
  moreover have "slot s' j = None"
    using assms None writes_only_Some(3) by (auto simp: delivers_def)
  ultimately show ?thesis by (simp add: expects_trade_def)
next
  case (Some c)
  then obtain c' where "slot s' j = Some c'" "same_but_output c c'"
    using delivers_slot [OF assms] by blast
  with Some show ?thesis
    by (simp add: expects_trade_def subscribed_to_def same_but_output_fields)
qed

lemma fill_msg_length: "length (fill_msg kind f) \<le> OUTBUF_SIZE"
  by (simp add: fill_msg_def snprintf_def config_defs)

lemma notifyClient_delivers:
  assumes calm: "calm s" and self: "slot s self = Some c" and len: "length msg \<le> OUTBUF_SIZE"
    and n: "notifyClient fd msg self don s = (don', s')"
  shows "delivers (if don' then {} else {self}) (\<lambda>j. if int j = fd then [msg] else []) s s'" and "don \<Longrightarrow> don'"
proof -
  have "delivers (if don' then {} else {self}) (\<lambda>j. if int j = fd then [msg] else []) s s' \<and> (don \<longrightarrow> don')"
  proof (cases "fd < 0 \<or> fd \<ge> int (curr_cap s) \<or> slot s (nat fd) = None")
    case True
    then have "s' = s" "don' = don"
      using n by (auto simp: notifyClient_def)
    moreover have "delivers C (\<lambda>j. if int j = fd then [msg] else []) s s" for C
      by (rule delivers_cong [OF delivers_refl]) (use True in \<open>auto simp: slot_def split: if_splits\<close>)
    ultimately show ?thesis by simp
  next
    case False
    then obtain d where d: "slot s (nat fd) = Some d" by auto
    obtain failed s1 where sent: "sendTo (nat fd) msg s = (failed, s1)" by fastforce
    note D = sendTo_delivers [OF calm d len sent]
    have ms: "(\<lambda>j. if j = nat fd then [msg] else []) = (\<lambda>j. if int j = fd then [msg] else [])"
      using False by (auto simp: fun_eq_iff)
    obtain c1 where c1: "slot s1 self = Some c1" "same_but_output c c1"
      using delivers_slot [OF D self] by blast
    have fd: "client_fd c1 = int self"
      using same_but_output_fields [OF c1(2)] calmD(1) [OF calm self] by simp
    have res: "don' = (don \<or> (fd = int self \<and> failed))" "s' = s1"
      using n False sent c1(1) fd by (auto simp: notifyClient_def)
    have "(if don' then {} else {self}) \<subseteq> (if failed then {j. j \<noteq> nat fd} else UNIV)"
      using res False by (auto split: if_splits)
    from delivers_mono [OF D this] res show ?thesis
      unfolding ms by simp
  qed
  then show "delivers (if don' then {} else {self}) (\<lambda>j. if int j = fd then [msg] else []) s s'" "don \<Longrightarrow> don'"
    by blast+
qed

lemma broadcast_delivers:
  "calm s \<Longrightarrow> distinct js \<Longrightarrow> length msg \<le> OUTBUF_SIZE \<Longrightarrow>
   delivers {j. \<not> expects_trade s f j} (\<lambda>j. if j \<in> set js \<and> expects_trade s f j then [msg] else []) s (broadcast js f msg s)"
proof (induction js arbitrary: s)
  case (Cons i js)
  show ?case
  proof (cases "expects_trade s f i")
    case False
    then have skip: "broadcast (i # js) f msg s = broadcast js f msg s"
      by (auto simp: expects_trade_def split: option.splits)
    show ?thesis
      unfolding skip by (rule delivers_cong [OF Cons.IH]) (use Cons.prems False in auto)
  next
    case True
    then obtain c where c: "slot s i = Some c" "ctype c = market" "subscribed_to c (finstrument f)"
      by (auto simp: expects_trade_def split: option.splits)
    obtain failed s1 where sent: "sendTo i msg s = (failed, s1)" by fastforce
    have D: "delivers {j. \<not> expects_trade s f j} (\<lambda>j. if j = i then [msg] else []) s s1"
      by (rule delivers_mono [OF sendTo_delivers [OF Cons.prems(1) c(1) Cons.prems(3) sent]]) (use True in auto)
    note same = expects_trade_same [OF D]
    have "delivers {j. \<not> expects_trade s f j} (\<lambda>j. if j \<in> set js \<and> expects_trade s f j then [msg] else []) s1 (broadcast js f msg s1)"
      using Cons.IH [OF calm_delivers [OF Cons.prems(1) D]] Cons.prems by (simp add: same)
    note both = delivers_trans [OF D this]
    have go: "broadcast (i # js) f msg s = broadcast js f msg s1"
      using c sent by simp
    show ?thesis
      unfolding go by (rule delivers_cong [OF both]) (use Cons.prems(2) True in auto)
  qed
qed (simp add: delivers_refl)

text \<open>The lines that a list of fills means for connection \<open>j\<close>: its purchases, its sales, and the trades it follows.\<close>

definition fill_lines :: "exchange \<Rightarrow> Fill \<Rightarrow> nat \<Rightarrow> string list" where
  "fill_lines s f j =
     (if buy_client_fd f = int j then [fill_msg ''BOUGHT'' f] else []) @
     (if sell_client_fd f = int j then [fill_msg ''SOLD'' f] else []) @
     (if expects_trade s f j then [fill_msg ''TRADE'' f] else [])"

definition report_lines :: "exchange \<Rightarrow> Fill list \<Rightarrow> nat \<Rightarrow> string list" where
  "report_lines s fills j = concat (map (\<lambda>f. fill_lines s f j) fills)"

lemma notifyFills_delivers:
  assumes "calm s" and "slot s self = Some c" and "ctype c \<noteq> market" and "notifyFills fills self don s = (don', s')"
  shows "delivers (if don' then {} else {self}) (report_lines s fills) s s' \<and> (don \<longrightarrow> don')"
  using assms
proof (induction fills arbitrary: s don c)
  case Nil
  then show ?case
    by (simp add: report_lines_def delivers_refl)
next
  case (Cons f fills)
  obtain d1 s1 where 1: "notifyClient (buy_client_fd f) (fill_msg ''BOUGHT'' f) self don s = (d1, s1)" by fastforce
  note D1 = notifyClient_delivers [OF Cons.prems(1,2) fill_msg_length 1]
  note calm1 = calm_delivers [OF Cons.prems(1) D1(1)]
  obtain c1 where c1: "slot s1 self = Some c1" "same_but_output c c1"
    using delivers_slot [OF D1(1) Cons.prems(2)] by blast
  obtain d2 s2 where 2: "notifyClient (sell_client_fd f) (fill_msg ''SOLD'' f) self d1 s1 = (d2, s2)" by fastforce
  note D2 = notifyClient_delivers [OF calm1 c1(1) fill_msg_length 2]
  note calm2 = calm_delivers [OF calm1 D2(1)]
  let ?s3 = "broadcast [0..<curr_cap s2] f (fill_msg ''TRADE'' f) s2"
  note D3 = broadcast_delivers [OF calm2, of "[0..<curr_cap s2]" "fill_msg ''TRADE'' f" f, simplified fill_msg_length distinct_upt simp_thms]
  have rest: "notifyFills fills self d2 ?s3 = (don', s')"
    using Cons.prems(4) 1 2 by simp
  obtain c2 where c2: "slot s2 self = Some c2" "same_but_output c1 c2"
    using delivers_slot [OF D2(1) c1(1)] by blast
  obtain c3 where c3: "slot ?s3 self = Some c3" "same_but_output c2 c3"
    using delivers_slot [OF D3 c2(1)] by blast
  have "ctype c3 \<noteq> market"
    using Cons.prems(3) same_but_output_fields(2) c1(2) c2(2) c3(2) by metis
  then have IH: "delivers (if don' then {} else {self}) (report_lines ?s3 fills) ?s3 s'" "d2 \<longrightarrow> don'"
    using Cons.IH [OF calm_delivers [OF calm2 D3] c3(1) _ rest] by blast+
  have trade: "expects_trade s2 f j = expects_trade s f j" "expects_trade ?s3 g j = expects_trade s g j" for g j
    using expects_trade_same [OF D1(1)] expects_trade_same [OF D2(1)] expects_trade_same [OF D3] by blast+
  let ?C = "if don' then {} else {self}"
  have "\<not> expects_trade s2 f self"
    using c2 Cons.prems(3) same_but_output_fields(2) c1(2) by (auto simp: expects_trade_def)
  then have D3': "delivers ?C (\<lambda>j. if j \<in> set [0..<curr_cap s2] \<and> expects_trade s2 f j then [fill_msg ''TRADE'' f] else []) s2 ?s3"
    by (intro delivers_mono [OF D3]) auto
  have D2': "delivers ?C (\<lambda>j. if int j = sell_client_fd f then [fill_msg ''SOLD'' f] else []) s1 s2"
    using IH(2) by (intro delivers_mono [OF D2(1)]) auto
  have D1': "delivers ?C (\<lambda>j. if int j = buy_client_fd f then [fill_msg ''BOUGHT'' f] else []) s s1"
    using IH(2) D2(2) by (intro delivers_mono [OF D1(1)]) auto
  note all = delivers_trans [OF D1' delivers_trans [OF D2' delivers_trans [OF D3' IH(1)]]]
  have "delivers ?C (report_lines s (f # fills)) s s'"
  proof (rule delivers_cong [OF all])
    fix j assume "slot s j \<noteq> None"
    then have "j < curr_cap s2"
      using slot_Some_less writes_only_cap D1(1) D2(1) unfolding delivers_def by (metis option.exhaust)
    then show "(if int j = buy_client_fd f then [fill_msg ''BOUGHT'' f] else []) @
        (if int j = sell_client_fd f then [fill_msg ''SOLD'' f] else []) @
        (if j \<in> set [0..<curr_cap s2] \<and> expects_trade s2 f j then [fill_msg ''TRADE'' f] else []) @ report_lines ?s3 fills j =
        report_lines s (f # fills) j"
      by (auto simp: report_lines_def fill_lines_def trade)
  qed
  then show ?case
    using IH(2) D2(2) D1(2) by blast
qed

section \<open>The reply to a command\<close>

definition accepted_line :: "int \<Rightarrow> string" where
  "accepted_line i = snprintf 128 (''ORDER_ACCEPTED '' @ show_int i @ [NL])"

definition cancelled_line :: "int \<Rightarrow> string" where
  "cancelled_line i = snprintf 128 (''ORDER_CANCELLED '' @ show_int i @ [NL])"

definition error_line :: "string \<Rightarrow> string" where
  "error_line reason = snprintf 64 (''ERROR '' @ reason @ [NL])"

definition is_reply :: "string \<Rightarrow> bool" where
  "is_reply l \<longleftrightarrow> l = OK \<or> (\<exists>reason. NL \<notin> set reason \<and> l = error_line reason) \<or> (\<exists>i. l = accepted_line i \<or> l = cancelled_line i)"

lemma reply_length: "is_reply l \<Longrightarrow> length l \<le> OUTBUF_SIZE"
  by (auto simp: is_reply_def OK_def error_line_def accepted_line_def cancelled_line_def snprintf_def config_defs)

lemma is_reply_intros [simp]: "is_reply OK" "NL \<notin> set reason \<Longrightarrow> is_reply (error_line reason)" "is_reply (accepted_line i)" "is_reply (cancelled_line i)"
  by (auto simp: is_reply_def)

lemma replyTo_sendTo: "replyTo i reason s = sendTo i (error_line reason) s"
  by (simp add: replyError_def error_line_def)

text \<open>The notifications start with another letter than every reply does.\<close>

definition is_report :: "string \<Rightarrow> bool" where
  "is_report l \<longleftrightarrow> (\<exists>kind f. kind \<in> {''BOUGHT'', ''SOLD'', ''TRADE''} \<and> l = fill_msg kind f)"

lemma report_is_report: "l \<in> set (report_lines s fills j) \<Longrightarrow> is_report l"
  by (auto simp: report_lines_def fill_lines_def is_report_def split: if_splits)

text \<open>
  \<open>answered self s (don, s')\<close>: first one reply goes to the client; then, only if it is the acknowledgement of
  an order, come the notifications of executions, to this client or to others. A client that is not given up
  gets all of this, and one with room for the reply gets the reply even when it is given up after it, as
  on \<open>QUIT\<close>.
\<close>

definition answered :: "nat \<Rightarrow> exchange \<Rightarrow> bool \<times> exchange \<Rightarrow> bool" where
  "answered self s r \<longleftrightarrow>
     (case r of
        (don, s') \<Rightarrow>
          \<exists>rep ms s1. is_reply rep \<and> ((\<exists>i. rep = accepted_line i) \<or> ms = (\<lambda>j. [])) \<and> (\<forall>j. \<forall>l \<in> set (ms j). is_report l) \<and>
            lines_sent (if don then {} else {self}) (\<lambda>j. if j = self then [rep] else []) s s1 \<and>
            lines_sent (if don then {} else {self}) ms s1 s')"

lemma answeredI:
  "is_reply rep \<Longrightarrow> (\<exists>i. rep = accepted_line i) \<or> ms = (\<lambda>j. []) \<Longrightarrow> \<forall>j. \<forall>l \<in> set (ms j). is_report l \<Longrightarrow>
   lines_sent (if don then {} else {self}) (\<lambda>j. if j = self then [rep] else []) s s1 \<Longrightarrow>
   lines_sent (if don then {} else {self}) ms s1 s' \<Longrightarrow> answered self s (don, s')"
  unfolding answered_def prod.case by blast

lemma answeredE:
  assumes "answered self s (don, s')"
  obtains rep ms s1 where "is_reply rep" and "(\<exists>i. rep = accepted_line i) \<or> ms = (\<lambda>j. [])"
    and "\<forall>j. \<forall>l \<in> set (ms j). is_report l"
    and "lines_sent (if don then {} else {self}) (\<lambda>j. if j = self then [rep] else []) s s1"
    and "lines_sent (if don then {} else {self}) ms s1 s'"
  using assms unfolding answered_def prod.case by blast

lemma send_answered:
  assumes calm: "calm s1" and c: "slot s1 self = Some c1" and q: "\<And>C. lines_sent C (\<lambda>j. []) s s1" and l: "is_reply l"
  shows "answered self s (sendTo self l s1)"
proof -
  obtain failed s2 where sent: "sendTo self l s1 = (failed, s2)" by fastforce
  have "lines_sent (if failed then {} else {self}) (\<lambda>j. if j = self then [l] else []) s1 s2"
    using sendTo_delivers [OF calm c reply_length [OF l] sent] unfolding delivers_def
    by (auto intro: lines_sent_mono)
  from lines_sent_before [OF q this] show ?thesis
    unfolding sent by (intro answeredI [OF l _ _ _ lines_sent_refl]) simp_all
qed

lemma answered_after:
  assumes "\<And>C. lines_sent C (\<lambda>j. []) s s1" and "answered self s1 r"
  shows "answered self s r"
proof -
  obtain don s' where r: "r = (don, s')" by fastforce
  obtain rep ms s2 where a: "is_reply rep" "(\<exists>i. rep = accepted_line i) \<or> ms = (\<lambda>j. [])"
    "\<forall>j. \<forall>l \<in> set (ms j). is_report l"
    "lines_sent (if don then {} else {self}) (\<lambda>j. if j = self then [rep] else []) s1 s2"
    "lines_sent (if don then {} else {self}) ms s2 s'"
    using assms(2) unfolding r by (rule answeredE) blast
  show ?thesis
    unfolding r by (rule answeredI [OF a(1-3) lines_sent_before [OF assms(1) a(4)] a(5)])
qed

lemma say_calm: "calm s \<Longrightarrow> calm (say out s)"
  by (simp add: calm_def)

lemma say_sent: "lines_sent C (\<lambda>j. []) s (say out s)"
  by (rule lines_sent_quiet) simp_all

lemma put_calm: "calm s \<Longrightarrow> slot s i = Some c \<Longrightarrow> client_fd c1 = client_fd c \<Longrightarrow> calm (put i c1 s)"
  by (auto simp: calm_def split: if_splits)

lemma put_sent:
  "slot s i = Some c \<Longrightarrow> client_fd c1 = client_fd c \<Longrightarrow> pending c1 = pending c \<Longrightarrow> lines_sent C (\<lambda>j. []) s (put i c1 s)"
  using slot_Some_less [of s i c] by (intro lines_sent_quiet) auto

lemma put_answered:
  assumes "calm s" and "slot s self = Some c" and "client_fd c1 = client_fd c" and "pending c1 = pending c" and "is_reply l"
  shows "answered self s (sendTo self l (put self c1 s))"
    and "answered self s (sendTo self l (say out (put self c1 s)))"
proof -
  have c1: "slot (put self c1 s) self = Some c1"
    using slot_Some_less [OF assms(2)] by simp
  note calm1 = put_calm [OF assms(1-3)] and q = put_sent [OF assms(2-4)]
  show "answered self s (sendTo self l (put self c1 s))"
    by (rule send_answered [OF calm1 c1 q assms(5)])
  show "answered self s (sendTo self l (say out (put self c1 s)))"
    by (rule send_answered [OF say_calm [OF calm1] say_slot [OF c1] lines_sent_after [OF q say_sent] assms(5)])
qed

lemma reply_answered: "calm s \<Longrightarrow> slot s self = Some c \<Longrightarrow> NL \<notin> set reason \<Longrightarrow> answered self s (replyTo self reason s)"
  unfolding replyTo_sendTo by (rule send_answered) (auto intro: lines_sent_refl)

lemma pending_update [simp]:
  "pending (c\<lparr>ctype := t\<rparr>) = pending c" "pending (c\<lparr>logged_in := b\<rparr>) = pending c" "pending (c\<lparr>username := u\<rparr>) = pending c"
  "pending (c\<lparr>closing := b\<rparr>) = pending c" "pending (c\<lparr>subscribedJNST := b\<rparr>) = pending c"
  "pending (c\<lparr>subscribedIMCT := b\<rparr>) = pending c" "pending (c\<lparr>inbuf := x\<rparr>) = pending c"
  "pending (c\<lparr>scanned_len := k\<rparr>) = pending c" "pending (c\<lparr>discarding := b\<rparr>) = pending c"
  by (simp_all add: pending_def)

lemma loginUser_answered:
  assumes "calm s" and "slot s self = Some c"
  shows "answered self s (loginUser name self s)"
  using reply_answered [OF assms] put_answered(2) [OF assms]
  by (simp add: loginUser_def assms(2) Let_def del: put_simps)

lemma subscribeClient_answered:
  assumes "calm s" and "slot s self = Some c"
  shows "answered self s (subscribeClient name self s)" and "answered self s (unsubscribeClient name self s)"
  using reply_answered [OF assms] put_answered(1) [OF assms]
  by (simp_all add: subscribeClient_def unsubscribeClient_def assms(2) del: put_simps)

lemma answered_given_up:
  assumes "answered self s (failed, s')" and "failed \<longrightarrow> don"
  shows "answered self s (don, s')"
proof -
  have sub: "(if don then {} else {self}) \<subseteq> (if failed then {} else {self})"
    using assms(2) by auto
  obtain rep ms s1 where a: "is_reply rep" "(\<exists>i. rep = accepted_line i) \<or> ms = (\<lambda>j. [])"
    "\<forall>j. \<forall>l \<in> set (ms j). is_report l"
    "lines_sent (if failed then {} else {self}) (\<lambda>j. if j = self then [rep] else []) s s1"
    "lines_sent (if failed then {} else {self}) ms s1 s'"
    using assms(1) by (rule answeredE) blast
  show ?thesis
    by (rule answeredI [OF a(1-3) lines_sent_mono [OF a(4) sub] lines_sent_mono [OF a(5) sub]])
qed

lemma quitUser_answered:
  assumes "calm s" and "slot s self = Some c"
  shows "answered self s (quitUser self s)"
  using put_answered(1) [OF assms, of "c\<lparr>closing := True\<rparr>" OK]
  by (auto simp: quitUser_def assms(2) simp del: put_simps split: prod.split intro: answered_given_up)

lemma cancelUserOrder_answered:
  assumes "calm s" and "slot s self = Some c"
  shows "answered self s (cancelUserOrder arg self s)"
proof -
  have "answered self s (sendTo self (cancelled_line i) (s\<lparr>book := b\<rparr>))" for i b
    using assms by (intro send_answered [of _ _ c]) (auto simp: calm_def intro: lines_sent_quiet)
  then show ?thesis
    using reply_answered [OF assms] by (auto simp: cancelUserOrder_def assms(2) cancelled_line_def split: prod.split)
qed

section \<open>Trades are reported\<close>

lemma addOrder_calm:
  assumes "False \<notin> set m" and "addOrder m b ord = (fs, b', m')"
  shows "addOrder [] b ord = (fs, b', snd (snd (addOrder [] b ord)))"
proof -
  obtain fs2 b2 m2 where a: "addOrder [] b ord = (fs2, b2, m2)" by (metis prod_cases3)
  have "fs2 = fs"
    using addOrder_fills_complete [OF a] addOrder_fills_complete [OF assms(2,1)] by simp
  moreover have "b2 = b'"
    by (rule book_eqI) (simp add: addOrder_list [OF a] addOrder_list [OF assms(2)])
  ultimately show ?thesis
    using a by simp
qed

lemma expects_trade_slot: "(\<And>j. slot s' j = slot s j) \<Longrightarrow> expects_trade s' f j = expects_trade s f j"
  by (simp add: expects_trade_def)

lemma report_lines_cong: "(\<And>f j. expects_trade s' f j = expects_trade s f j) \<Longrightarrow> report_lines s' fills = report_lines s fills"
  by (simp add: report_lines_def fill_lines_def fun_eq_iff)

lemma notifyFills_book: "book (snd (notifyFills fills self don s)) = book s \<and>
    next_order_id (snd (notifyFills fills self don s)) = next_order_id s" if "slot s self \<noteq> None"
  using that notifyFills_writes_only by (auto simp: writes_only_def)

lemma placeOrder_reported:
  assumes calm: "calm s" and c: "slot s self = Some c" "ctype c \<noteq> market" and inst: "parse_instrument name = Some inst"
    and pos: "0 < qty" "0 < prc" and run: "placeOrder sd name qty prc self s = (don, s')"
    and a: "addOrder [] (book s)
        \<lparr>oid = next_order_id s, quantity = qty, price = prc, owner_fd = int self, side = sd, instrument = inst\<rparr> = (fills, b', m')"
  shows "book s' = b'" and "next_order_id s' = to_int32 (next_order_id s + 1)"
    and "\<exists>s1. lines_sent (if don then {} else {self}) (\<lambda>j. if j = self then [accepted_line (next_order_id s)] else []) s s1 \<and>
       lines_sent (if don then {} else {self}) (report_lines s fills) s1 s'"
proof -
  obtain got w1 where al: "os_alloc (world s) = (got, w1)" by fastforce
  have w1: "got" "False \<notin> set (mem w1)" "log w1 = log (world s)" "writes w1 = writes (world s)"
    using al calmD(2) [OF calm] by (cases "mem (world s)"; auto simp: os_alloc_def)+
  let ?s1 = "s\<lparr>world := w1\<rparr>"
  obtain i s2 where t: "take_order_id ?s1 = (i, s2)" by fastforce
  have s2: "i = next_order_id s" "slot s2 j = slot s j" "book s2 = book s" "next_order_id s2 = to_int32 (next_order_id s + 1)"
    "mem (world s2) = mem w1" "sent fd (world s2) = sent fd (world s)" "writes (world s2) = writes (world s)" for j fd
    using t w1(3,4) by (auto simp: take_order_id_def Let_def slot_def curr_cap_def sent_def split: if_splits)
  have calm2: "calm s2"
    using calm w1(2) by (simp add: calm_def s2)
  have q2: "lines_sent C (\<lambda>j. []) s s2" for C
    by (rule lines_sent_quiet) (simp_all add: s2)
  obtain don3 s3 where sent: "sendTo self (accepted_line i) s2 = (don3, s3)" by fastforce
  have c2: "slot s2 self = Some c"
    using c s2(2) by simp
  note D3 = sendTo_delivers [OF calm2 c2 reply_length [OF is_reply_intros(3)] sent]
  obtain c3 where c3: "slot s3 self = Some c3" "same_but_output c c3"
    using delivers_slot [OF D3 c2] by blast
  have calm3: "calm s3"
    by (rule calm_delivers [OF calm2 D3])
  have same3: "book s3 = book s2" "next_order_id s3 = next_order_id s2"
    using D3 by (auto simp: delivers_def writes_only_def)
  let ?ord = "\<lparr>oid = i, quantity = qty, price = prc, owner_fd = client_fd c, side = sd, instrument = inst\<rparr>"
  obtain fs b4 m4 where add: "addOrder (mem (world s3)) (book s3) ?ord = (fs, b4, m4)" by (metis prod_cases3)
  have "client_fd c = int self"
    using calmD(1) [OF calm c(1)] .
  then have fs: "fs = fills" "b4 = b'"
    using addOrder_calm [OF calmD(2) [OF calm3] add] a s2 same3 by auto
  let ?s4 = "s3\<lparr>book := b4, world := (world s3)\<lparr>mem := m4\<rparr>\<rparr>"
  have m4: "False \<notin> set m4"
    using calmD(2) [OF calm3] addOrder_mem_subset [OF add] by blast
  have calm4: "calm ?s4"
    using calm3 m4 by (simp add: calm_def)
  have q4: "lines_sent C (\<lambda>j. []) s3 ?s4" for C
    by (rule lines_sent_quiet) simp_all
  have run': "placeOrder sd name qty prc self s = notifyFills fs self don3 ?s4"
    unfolding placeOrder_def using inst pos al w1(1) c t sent add by (simp add: Let_def accepted_line_def)
  have c4: "slot ?s4 self = Some c3" "ctype c3 \<noteq> market"
    using c3 c(2) same_but_output_fields by auto
  note D5 = notifyFills_delivers [OF calm4 c4, of fs don3 don s', folded run', OF run]
  have expects: "expects_trade ?s4 f j = expects_trade s f j" for f j
    using expects_trade_same [OF D3, of f j] expects_trade_slot [of s2 s f j] expects_trade_slot [of ?s4 s3 f j] s2(2) by simp
  have "lines_sent (if don then {} else {self}) (\<lambda>j. if j = self then [accepted_line i] else []) s2 s3"
    using D3 D5 unfolding delivers_def by (auto intro: lines_sent_mono)
  note accepted = lines_sent_after [OF lines_sent_before [OF q2 this] q4]
  have "report_lines ?s4 fs = report_lines s fills"
    by (simp only: report_lines_cong [OF expects] fs(1))
  then have "lines_sent (if don then {} else {self}) (report_lines s fills) ?s4 s'"
    using D5 by (simp only: delivers_def)
  with accepted
  show "\<exists>s1. lines_sent (if don then {} else {self}) (\<lambda>j. if j = self then [accepted_line (next_order_id s)] else []) s s1 \<and>
       lines_sent (if don then {} else {self}) (report_lines s fills) s1 s'"
    unfolding s2(1) by blast
  show "book s' = b'" "next_order_id s' = to_int32 (next_order_id s + 1)"
    using notifyFills_book [of ?s4 self fs don3] c4(1) run run' fs s2 same3 by auto
qed

lemma placeOrder_answered:
  assumes calm: "calm s" and c: "slot s self = Some c" "ctype c \<noteq> market"
  shows "answered self s (placeOrder sd name qty prc self s)"
proof (cases "parse_instrument name = None \<or> qty \<le> 0 \<or> prc \<le> 0")
  case True
  then show ?thesis
    using reply_answered [OF calm c(1)] by (auto simp: placeOrder_def split: option.split)
next
  case False
  then obtain inst where inst: "parse_instrument name = Some inst" and pos: "0 < qty" "0 < prc" by auto
  obtain don s' where run: "placeOrder sd name qty prc self s = (don, s')" by fastforce
  obtain fills b' m' where a: "addOrder [] (book s)
      \<lparr>oid = next_order_id s, quantity = qty, price = prc, owner_fd = int self, side = sd, instrument = inst\<rparr> = (fills, b', m')"
    by (metis prod_cases3)
  obtain s1 where "lines_sent (if don then {} else {self}) (\<lambda>j. if j = self then [accepted_line (next_order_id s)] else []) s s1"
    "lines_sent (if don then {} else {self}) (report_lines s fills) s1 s'"
    using placeOrder_reported(3) [OF calm c inst pos run a] by blast
  from answeredI [OF _ _ _ this] report_is_report show ?thesis
    unfolding run by auto
qed

section \<open>Properties of the protocol\<close>

text \<open>
  C13. Unless the allocator fails, every line with a word in it is answered with one reply, which its
  sender gets unless its buffer is full or a write fails, even if the connection is closed next; only
  the acknowledgement of an order is followed by more lines, and those are BOUGHT, SOLD and TRADE
  lines.
\<close>

theorem every_line_answered:
  assumes "exchange_ok s" and "False \<notin> set (mem (world s))" and "slot s self = Some c"
    and "1 \<le> matched (sscanf_line line)"
  shows "answered self s (processLine line self s)"
proof (rule processLine_cases [OF assms(3), of line "answered self s"])
  have calm: "calm (say out s)" for out
    by (rule say_calm [OF exchange_ok_calm [OF assms(1,2)]])
  have c: "slot (say out s) self = Some c" for out
    by (rule say_slot [OF assms(3)])
  note after = answered_after [OF say_sent]
  show "answered self s (replyTo self reason (say out s))" if "NL \<notin> set reason" for out reason
    by (rule after [OF reply_answered [OF calm c that]])
  show "answered self s (loginUser arg self (say out s))" for out arg
    by (rule after [OF loginUser_answered [OF calm c]])
  show "answered self s (subscribeClient arg self (say out s)) \<and> answered self s (unsubscribeClient arg self (say out s)) \<and>
      answered self s (quitUser self (say out s))" for out arg
    using after [OF subscribeClient_answered(1) [OF calm c]] after [OF subscribeClient_answered(2) [OF calm c]]
      after [OF quitUser_answered [OF calm c]] by blast
  show "answered self s (placeOrder sd arg q p self (say out s)) \<and> answered self s (cancelUserOrder arg self (say out s))"
    if "logged_in c" for out arg sd q p
  proof -
    have "ctype c \<noteq> market"
      using exchange_okD(2) [OF assms(1,3)] that by (auto simp: conn_ok_def)
    then show ?thesis
      using after [OF placeOrder_answered [OF calm c]] after [OF cancelUserOrder_answered [OF calm c]] by blast
  qed
qed (use assms(4) in simp)

end
