(* ===== verification/Sessions.thy ===== *)
theory Sessions
  imports Reports
begin

text \<open>
  The commands one by one: how a line is parsed, who may send it, what it does to the sender's
  connection and to the book, and what the reply is.
\<close>

section \<open>Frames\<close>

lemma on_conn_frame [simp]:
  "book (snd (on_conn i f s)) = book s" "next_order_id (snd (on_conn i f s)) = next_order_id s"
  "j \<noteq> i \<Longrightarrow> slot (snd (on_conn i f s)) j = slot s j" "curr_cap (snd (on_conn i f s)) = curr_cap s"
  by (auto simp: on_conn_def null_deref_def split: option.split prod.split)

lemma session_frame:
  assumes "slot s self = Some c"
  shows "book (snd (loginUser name self s)) = book s \<and> next_order_id (snd (loginUser name self s)) = next_order_id s \<and>
      (\<forall>j. j \<noteq> self \<longrightarrow> slot (snd (loginUser name self s)) j = slot s j)"
    and "book (snd (subscribeClient name self s)) = book s \<and> next_order_id (snd (subscribeClient name self s)) = next_order_id s \<and>
      (\<forall>j. j \<noteq> self \<longrightarrow> slot (snd (subscribeClient name self s)) j = slot s j)"
    and "book (snd (unsubscribeClient name self s)) = book s \<and>
      next_order_id (snd (unsubscribeClient name self s)) = next_order_id s \<and>
      (\<forall>j. j \<noteq> self \<longrightarrow> slot (snd (unsubscribeClient name self s)) j = slot s j)"
    and "book (snd (quitUser self s)) = book s \<and> next_order_id (snd (quitUser self s)) = next_order_id s \<and>
      (\<forall>j. j \<noteq> self \<longrightarrow> slot (snd (quitUser self s)) j = slot s j)"
  using assms by (simp_all add: loginUser_def subscribeClient_def unsubscribeClient_def quitUser_def Let_def case_prod_beta)

lemma sendTo_output: "slot s i = Some d \<Longrightarrow> slot s j = Some c \<Longrightarrow> \<exists>c'. slot (snd (sendTo i l s)) j = Some c' \<and> same_but_output c c'"
  using writes_only_Some(1) [OF sendTo_writes_only] .

lemma placeOrder_output:
  assumes c: "slot s self = Some c" and d: "slot s j = Some d"
  shows "\<exists>d'. slot (snd (placeOrder sd name qty prc self s)) j = Some d' \<and> same_but_output d d'"
  using c
proof (cases rule: placeOrderE [of s self c sd name qty prc])
  case (rejected reason)
  then show ?thesis
    using writes_only_Some(1) [OF replyTo_writes_only [OF c] d] by simp
next
  case (nomem w1)
  then show ?thesis
    using writes_only_Some(1) [OF replyTo_writes_only [of "s\<lparr>world := w1\<rparr>" self c], of j d] c d by simp
next
  case (placed inst w1 i s2 don s3 fills b' m')
  have s2: "slot s2 k = slot s k" for k
    using take_order_id_conns [OF placed(5)] by (simp add: slot_def curr_cap_def)
  have w3: "writes_only s2 s3"
    using sendTo_writes_only [of s2 self c] c s2 placed(6) by (metis snd_conv)
  obtain d3 where d3: "slot s3 j = Some d3" "same_but_output d d3"
    using writes_only_Some(1) [OF w3] d s2 by metis
  let ?s4 = "s3\<lparr>book := b', world := (world s3)\<lparr>mem := m'\<rparr>\<rparr>"
  obtain c3 where "slot s3 self = Some c3"
    using writes_only_Some(1) [OF w3] c s2 by metis
  then have "writes_only ?s4 (snd (notifyFills fills self don ?s4))"
    by (intro notifyFills_writes_only) simp
  from writes_only_Some(1) [OF this, of j d3] d3 show ?thesis
    unfolding placed(8) using same_but_output_trans by fastforce
qed

lemma cancelUserOrder_output:
  assumes c: "slot s self = Some c" and d: "slot s j = Some d"
  shows "\<exists>d'. slot (snd (cancelUserOrder arg self s)) j = Some d' \<and> same_but_output d d'"
proof -
  have "\<exists>d'. slot (snd (sendTo self l (s\<lparr>book := b\<rparr>))) j = Some d' \<and> same_but_output d d'" for l b
    by (rule sendTo_output [of _ _ c]) (use c d in simp_all)
  then show ?thesis
    using writes_only_Some(1) [OF replyTo_writes_only [OF c] d] c by (auto simp: cancelUserOrder_def split: prod.split)
qed

section \<open>Parsing\<close>

lemma token_show: "int32 v \<Longrightarrow> token (show_int v)"
  using length_show_int [of v] show_nat_digits isdigit_not_space
  by (auto simp: token_def show_int_def list_all_iff isspace_def)

lemma scan_int_wide:
  assumes "rest = [] \<or> \<not> isdigit (hd rest)" and "list_all isspace sp"
  shows "scan_int (sp @ show_int v @ rest) = Some (to_int32 (clamp_long v), rest)"
  using scan_number_show [OF assms, of v] by (simp add: scan_int_def)

lemma sscanf_four_wide:
  assumes "token w" and "token a" and "rest = [] \<or> \<not> isdigit (hd rest)"
  shows "sscanf_line (w @ '' '' @ a @ '' '' @ show_int q @ '' '' @ show_int p @ rest) =
    Scan4 w a (to_int32 (clamp_long q)) (to_int32 (clamp_long p))"
  using scan_word_token [OF assms(1), of "[]" "'' '' @ a @ '' '' @ show_int q @ '' '' @ show_int p @ rest"]
    scan_word_token [OF assms(2), of "'' ''" "'' '' @ show_int q @ '' '' @ show_int p @ rest"]
    scan_int_wide [of "'' '' @ show_int p @ rest" "'' ''" q] scan_int_wide [of rest "'' ''" p] assms
  by (simp add: sscanf_line_def)

definition echo :: "string \<Rightarrow> nat \<Rightarrow> exchange \<Rightarrow> exchange" where
  "echo line self s = (case slot s self of None \<Rightarrow> s | Some c \<Rightarrow> say (show_int (client_fd c) @ '': '' @ line @ [NL]) s)"

lemma keyword_tokens: "token ''LOGIN''" "token ''SUBSCRIBE''" "token ''UNSUBSCRIBE''" "token ''QUIT''" "token ''BUY''"
  "token ''SELL''" "token ''CANCEL''"
  by (simp_all add: token_def isspace_def)

lemma digit_hd_blank: "CHR '' '' # xs = [] \<or> \<not> isdigit (hd (CHR '' '' # xs))"
  by simp

lemma processLine_order:
  assumes "slot s self = Some c" and "logged_in c" and "token name" and "rest = [] \<or> \<not> isdigit (hd rest)"
  shows "processLine (''BUY '' @ name @ '' '' @ show_int q @ '' '' @ show_int p @ rest) self s =
      placeOrder BUY name (to_int32 (clamp_long q)) (to_int32 (clamp_long p)) self
        (echo (''BUY '' @ name @ '' '' @ show_int q @ '' '' @ show_int p @ rest) self s)"
    and "processLine (''SELL '' @ name @ '' '' @ show_int q @ '' '' @ show_int p @ rest) self s =
      placeOrder SELL name (to_int32 (clamp_long q)) (to_int32 (clamp_long p)) self
        (echo (''SELL '' @ name @ '' '' @ show_int q @ '' '' @ show_int p @ rest) self s)"
  using assms sscanf_four_wide [OF keyword_tokens(5) assms(3,4), of q p] sscanf_four_wide [OF keyword_tokens(6) assms(3,4), of q p]
  by (simp_all add: processLine_def echo_def Let_def config_defs)

section \<open>A small exchange\<close>

text \<open>Three connections: a trader, a subscriber of JNST and a fresh one; the trader has a sell order resting.\<close>

abbreviation new_conn :: "nat \<Rightarrow> ClientConnection" where
  "new_conn i \<equiv> new_client i \<lparr>sin_addr = 0, sin_port = 0\<rparr>"

definition sample_trader :: ClientConnection where
  "sample_trader = (new_conn 0)\<lparr>ctype := trader, logged_in := True, username := ''alice''\<rparr>"

definition sample_market :: ClientConnection where
  "sample_market = (new_conn 1)\<lparr>ctype := market, subscribedJNST := True\<rparr>"

definition sample_exchange :: exchange where
  "sample_exchange =
     \<lparr>conns = [Some sample_trader, Some sample_market, Some (new_conn 2)],
      book = initOrderbook\<lparr>jnst_sell_orders :=
        [\<lparr>oid = 0, quantity = 3, price = 100, owner_fd = 0, side = SELL, instrument = JNST\<rparr>]\<rparr>,
      next_order_id = 1, world = idle_os\<rparr>"

lemma sample_slots [simp]:
  "slot sample_exchange 0 = Some sample_trader" "slot sample_exchange 1 = Some sample_market"
  "slot sample_exchange (Suc 0) = Some sample_market" "slot sample_exchange 2 = Some (new_conn 2)"
  by (simp_all add: sample_exchange_def slot_def curr_cap_def)

lemma sample_slots_iff:
  "slot sample_exchange i = Some c \<longleftrightarrow>
     i = 0 \<and> c = sample_trader \<or> i = 1 \<and> c = sample_market \<or> i = 2 \<and> c = new_conn 2"
  by (auto simp: sample_exchange_def slot_def curr_cap_def less_Suc_eq nth_Cons split: nat.splits if_splits)

lemma sample_fields [simp]:
  "logged_in sample_trader" "ctype sample_trader = trader" "\<not> logged_in sample_market" "ctype sample_market = market"
  "subscribedJNST sample_market" "\<not> subscribedIMCT sample_market" "\<not> logged_in (new_conn i)" "ctype (new_conn i) = none"
  "username sample_trader = ''alice''" "mem (world sample_exchange) = []" "log (world sample_exchange) = []"
  "next_order_id sample_exchange = 1" "\<not> closing (new_conn i)" "\<not> subscribedJNST sample_trader" "\<not> subscribedIMCT sample_trader"
  by (simp_all add: sample_trader_def sample_market_def new_client_def sample_exchange_def idle_os_def)

lemma sample_exchange_ok: "exchange_ok sample_exchange"
proof -
  have b: "book_ok 1 (book sample_exchange)"
    by code_simp
  have r: "resting (book sample_exchange) = [\<lparr>oid = 0, quantity = 3, price = 100, owner_fd = 0, side = SELL, instrument = JNST\<rparr>]"
    by code_simp
  have "curr_cap sample_exchange = 3"
    by code_simp
  moreover have "conn_ok i c" if "slot sample_exchange i = Some c" for i c
    using that unfolding sample_slots_iff
    by (auto simp: conn_ok_def sample_trader_def sample_market_def new_client_def outlen_def pending_def config_defs)
  moreover have "owner_ok sample_exchange 0"
    unfolding owner_ok_def by (intro disjI2 exI [of _ 0] exI [of _ sample_trader]) simp
  then have "book_inv sample_exchange"
    using b r by (simp add: book_inv_def INT_MAX_def)
  moreover have "names_unique sample_exchange"
    unfolding names_unique_def sample_slots_iff by auto
  ultimately show ?thesis
    by (simp add: exchange_ok_def)
qed

text \<open>A kernel that takes the reply at once, so that the connection is done after it.\<close>

definition sample_sending :: exchange where
  "sample_sending = sample_exchange\<lparr>world := idle_os\<lparr>writes := [WOk 100]\<rparr>\<rparr>"

theorem every_line_answered_witness:
  "case processLine ''QUIT'' 2 sample_sending of (don, s') \<Rightarrow>
     don \<and> (\<exists>rep rest c'. is_reply rep \<and> slot s' 2 = Some c' \<and> stream c' (world s') = rep @ rest)"
proof -
  obtain don s' where run: "processLine ''QUIT'' 2 sample_sending = (don, s')" by fastforce
  have c: "slot sample_sending 2 = Some (new_conn 2)" "slot sample_sending j = slot sample_exchange j"
    "False \<notin> set (mem (world sample_sending))" for j
    by (simp_all add: sample_sending_def idle_os_def)
  have ok: "exchange_ok sample_sending"
    using sample_exchange_ok
    by (simp add: sample_sending_def exchange_ok_def names_unique_def book_inv_def owner_ok_def idle_os_def)
  have "1 \<le> matched (sscanf_line ''QUIT'')"
    using sscanf_one [OF keyword_tokens(4)] by simp
  from every_line_answered [OF ok c(3,1) this]
  have "answered 2 sample_sending (don, s')" by (simp add: run)
  then obtain rep ms s1 where rep: "is_reply rep"
    "lines_sent (if don then {} else {2}) (\<lambda>j. if j = 2 then [rep] else []) sample_sending s1"
    "lines_sent (if don then {} else {2}) ms s1 s'"
    by (rule answeredE) blast
  have fresh: "room sample_sending (new_conn 2) [rep]" "stream (new_conn 2) (world sample_sending) = []"
    using reply_length [OF rep(1)]
    by (simp_all add: room_def reliable_def sample_sending_def idle_os_def stream_def sent_def outlen_def pending_def new_client_def)
  obtain c1 where c1: "slot s1 2 = Some c1" "stream c1 (world s1) = rep"
    using lines_sentD [OF rep(2) c(1)] fresh by (metis append_Nil append_Nil2 concat.simps)
  obtain c2 ls where "slot s' 2 = Some c2" "stream c2 (world s') = rep @ concat ls"
    using lines_sentD [OF rep(3) c1(1)] c1(2) by metis
  moreover have "fst (processLine ''QUIT'' 2 sample_sending)"
    by code_simp
  ultimately show ?thesis
    using rep(1) run by auto
qed

section \<open>Properties of the commands\<close>

text \<open>
  C22. A BUY, SELL or CANCEL line as a client prints it reaches the command with the very instrument
  and numbers printed.
\<close>

theorem orders_parse:
  assumes "slot s self = Some c" and "logged_in c" and "token name" and "int32 q" and "int32 p"
  shows "processLine (''BUY '' @ name @ '' '' @ show_int q @ '' '' @ show_int p) self s =
      placeOrder BUY name q p self (echo (''BUY '' @ name @ '' '' @ show_int q @ '' '' @ show_int p) self s) \<and>
    processLine (''SELL '' @ name @ '' '' @ show_int q @ '' '' @ show_int p) self s =
      placeOrder SELL name q p self (echo (''SELL '' @ name @ '' '' @ show_int q @ '' '' @ show_int p) self s) \<and>
    processLine (''CANCEL '' @ show_int q) self s =
      cancelUserOrder (show_int q) self (echo (''CANCEL '' @ show_int q) self s)"
  using processLine_order [OF assms(1-3), of "[]" q p] assms sscanf_two [OF keyword_tokens(7) token_show [OF assms(4)]]
  by (simp add: int32_def clamp_long_id to_int32_id processLine_def echo_def Let_def config_defs)

theorem orders_parse_witness:
  "processLine ''BUY JNST 5 100'' 0 sample_exchange = placeOrder BUY ''JNST'' 5 100 0 (echo ''BUY JNST 5 100'' 0 sample_exchange)"
proof -
  have "token ''JNST''"
    by (simp add: token_def isspace_def)
  moreover have "show_int 5 = ''5''" "show_int 100 = ''100''"
    by code_simp+
  ultimately show ?thesis
    using orders_parse [of sample_exchange 0 sample_trader "''JNST''" 5 100] by (simp add: int32_def INT_MAX_def)
qed

text \<open>
  C23. A LOGIN, SUBSCRIBE, UNSUBSCRIBE or QUIT line reaches its command with the argument printed.
\<close>

theorem sessions_parse:
  assumes "slot s self = Some c" and "token arg" and "length arg < USERNAME_LENGTH"
  shows "processLine (''LOGIN '' @ arg) self s = loginUser arg self (echo (''LOGIN '' @ arg) self s) \<and>
    processLine (''SUBSCRIBE '' @ arg) self s = subscribeClient arg self (echo (''SUBSCRIBE '' @ arg) self s) \<and>
    processLine (''UNSUBSCRIBE '' @ arg) self s = unsubscribeClient arg self (echo (''UNSUBSCRIBE '' @ arg) self s) \<and>
    processLine ''QUIT'' self s = quitUser self (echo ''QUIT'' self s)"
  using assms sscanf_two [OF keyword_tokens(1) assms(2)] sscanf_two [OF keyword_tokens(2) assms(2)]
    sscanf_two [OF keyword_tokens(3) assms(2)] sscanf_one [OF keyword_tokens(4)]
  by (simp add: processLine_def echo_def Let_def config_defs)

theorem sessions_parse_witness:
  "processLine ''LOGIN bob'' 2 sample_exchange = loginUser ''bob'' 2 (echo ''LOGIN bob'' 2 sample_exchange)"
  using sessions_parse [of sample_exchange 2 "new_conn 2" "''bob''"] by (simp add: token_def isspace_def config_defs)

text \<open>
  C24. A quantity or price on a BUY or SELL line is not rejected for being too large: with the
  conversion of FreeBSD's sscanf it reaches placeOrder saturated to 64 bits and then reduced to a
  signed 32-bit number, and what follows the price is ignored.
\<close>

theorem oversized_numbers_wrap:
  assumes "slot s self = Some c" and "logged_in c" and "token name" and "rest = [] \<or> \<not> isdigit (hd rest)"
  defines "stored \<equiv> \<lambda>v :: int. (max (- (2 ^ 63)) (min (2 ^ 63 - 1) v) + 2 ^ 31) mod 2 ^ 32 - 2 ^ 31"
  shows "let numbers = show_int q @ '' '' @ show_int p @ rest;
      buy = ''BUY '' @ name @ '' '' @ numbers; sell = ''SELL '' @ name @ '' '' @ numbers
    in processLine buy self s = placeOrder BUY name (stored q) (stored p) self (echo buy self s) \<and>
       processLine sell self s = placeOrder SELL name (stored q) (stored p) self (echo sell self s)"
proof -
  have "to_int32 (clamp_long v) = stored v" for v
    by (simp add: stored_def to_int32_def clamp_long_def LONG_MAX_def)
  then show ?thesis
    using processLine_order [OF assms(1-4), of q p] by (simp add: Let_def)
qed

theorem oversized_numbers_wrap_witness:
  "processLine ''BUY JNST 4294967301 20.5'' 0 sample_exchange =
     placeOrder BUY ''JNST'' 5 20 0 (echo ''BUY JNST 4294967301 20.5'' 0 sample_exchange) \<and>
   processLine ''SELL JNST 10000000000000000000 20.5'' 0 sample_exchange =
     placeOrder SELL ''JNST'' (- 1) 20 0 (echo ''SELL JNST 10000000000000000000 20.5'' 0 sample_exchange)"
proof -
  have "token ''JNST''" "\<not> isdigit CHR ''.''"
    by (simp_all add: token_def isspace_def isdigit_def digit_value_def)
  moreover have "show_int 4294967301 = ''4294967301''" "show_int 10000000000000000000 = ''10000000000000000000''" "show_int 20 = ''20''"
    by (simp_all add: show_int_def show_nat.simps char_of_def bit_Suc_0_iff)
  ultimately show ?thesis
    using oversized_numbers_wrap [of sample_exchange 0 sample_trader "''JNST''" "''.5''" 4294967301 20]
      oversized_numbers_wrap [of sample_exchange 0 sample_trader "''JNST''" "''.5''" 10000000000000000000 20]
    by (simp add: Let_def)
qed

text \<open>
  C25. A line of a client that is not logged in leaves the book, the order ids and all other
  connections unchanged.
\<close>

theorem orders_need_login:
  assumes "slot s self = Some c" and "\<not> logged_in c" and "processLine line self s = (don, s')"
  shows "book s' = book s \<and> next_order_id s' = next_order_id s \<and> (\<forall>j. j \<noteq> self \<longrightarrow> slot s' j = slot s j)"
proof -
  have "(\<lambda>r. book (snd r) = book s \<and> next_order_id (snd r) = next_order_id s \<and> (\<forall>j. j \<noteq> self \<longrightarrow> slot (snd r) j = slot s j))
      (processLine line self s)"
    by (rule processLine_cases [OF assms(1)])
      (use session_frame [of "say out s" self c for out] assms(1,2) in \<open>simp_all\<close>)
  then show ?thesis
    by (simp add: assms(3))
qed

theorem orders_need_login_witness:
  "book (snd (processLine ''BUY JNST 5 100'' 1 sample_exchange)) = book sample_exchange"
  using orders_need_login [OF sample_slots(2) _ surjective_pairing, of "''BUY JNST 5 100''"] by simp

lemma sendTo_exact:
  assumes "slot s i = Some c" and "sendTo i l s = (failed, s')"
  obtains c' where "slot s' i = Some c'" and "same_but_output c c'" and "\<not> failed \<Longrightarrow> stream c' (world s') = stream c (world s) @ l"
proof -
  obtain c' w' where sl: "sendLine c l (world s) = (failed, c', w')" and s': "s' = put i c' s\<lparr>world := w'\<rparr>"
    using assms by (auto simp: on_conn_def split: prod.splits)
  have "slot s' i = Some c'"
    using slot_Some_less [OF assms(1)] s' by simp
  moreover have "same_but_output c c'"
    using sendLine_same [OF sl] by blast
  ultimately show thesis
    using that out.delivered [of c l "world s" c' w'] sl s' by simp
qed

text \<open>A reply on a changed connection.\<close>

lemma reply_changed:
  assumes c: "slot s self = Some c" and c1: "client_fd c1 = client_fd c" "pending c1 = pending c"
    and sent: "sendTo self l (say out (put self c1 s)) = (failed, s')"
  shows "\<exists>c'. slot s' self = Some c' \<and> same_but_output c1 c' \<and> (\<not> failed \<longrightarrow> stream c' (world s') = stream c (world s) @ l)"
proof -
  have "slot (say out (put self c1 s)) self = Some c1"
    using slot_Some_less [OF c] by simp
  from sendTo_exact [OF this sent] show ?thesis
    using c1 by (auto simp: stream_def)
qed

lemma reply_put:
  assumes c: "slot s self = Some c" and c1: "client_fd c1 = client_fd c" "pending c1 = pending c"
    and sent: "sendTo self l (put self c1 s) = (failed, s')"
  shows "\<exists>c'. slot s' self = Some c' \<and> same_but_output c1 c' \<and> (\<not> failed \<longrightarrow> stream c' (world s') = stream c (world s) @ l)"
proof -
  have "slot (put self c1 s) self = Some c1"
    using slot_Some_less [OF c] by simp
  from sendTo_exact [OF this sent] show ?thesis
    using c1 by (auto simp: stream_def)
qed

lemma reply_same:
  assumes c: "slot s self = Some c" and sent: "replyTo self reason s = (failed, s')"
  shows "\<exists>c'. slot s' self = Some c' \<and> same_but_output c c' \<and> (\<not> failed \<longrightarrow> stream c' (world s') = stream c (world s) @ error_line reason)"
  using sendTo_exact [OF c] sent unfolding replyTo_sendTo by metis

text \<open>
  C26. LOGIN makes the client a trader of that name exactly when it is no market data client, not
  logged in, and no other logged-in client has the name; each outcome has its reply.
\<close>

theorem login_correct:
  assumes "slot s self = Some c" and "length name < USERNAME_LENGTH" and "loginUser name self s = (failed, s')"
  defines "taken \<equiv> \<exists>j d. slot s j = Some d \<and> logged_in d \<and> username d = name"
  shows "\<exists>c'. slot s' self = Some c' \<and>
    (if ctype c = market \<or> logged_in c \<or> taken then same_but_output c c'
     else same_but_output (c\<lparr>ctype := trader, username := name, logged_in := True\<rparr>) c') \<and>
    (\<not> failed \<longrightarrow> stream c' (world s') = stream c (world s) @
       (if ctype c = market then error_line ''Market data clients cannot log in''
        else if logged_in c then error_line ''Already logged in''
        else if taken then error_line ''Username already in use'' else OK))"
proof (cases "ctype c = market \<or> logged_in c \<or> taken")
  case True
  then show ?thesis
    using assms(1,3) reply_same [OF assms(1)] by (auto simp: loginUser_def taken_def username_in_use_iff split: if_splits)
next
  case False
  have name: "take (USERNAME_LENGTH - 1) name = name"
    using assms(2) by simp
  let ?c1 = "c\<lparr>ctype := trader, username := name, logged_in := True\<rparr>"
  have "\<not> username_in_use s name"
    using False by (auto simp: taken_def username_in_use_iff)
  then have "sendTo self OK (say (''User '' @ username ?c1 @ '' logged in from '' @ inet_ntoa (sin_addr (caddr c)) @ '':'' @
      show_nat (ntohs (sin_port (caddr c))) @ [NL]) (put self ?c1 s)) = (failed, s')"
    using assms(1,3) False unfolding loginUser_def Let_def name by (simp only: option.case if_False de_Morgan_disj)
  from reply_changed [OF assms(1) _ _ this] False show ?thesis
    by simp
qed

theorem login_correct_witness:
  "\<exists>c'. slot (snd (loginUser ''alice'' 2 sample_exchange)) 2 = Some c' \<and> same_but_output (new_conn 2) c'"
proof -
  have "\<exists>j d. slot sample_exchange j = Some d \<and> logged_in d \<and> username d = ''alice''"
    by (intro exI [of _ 0] exI [of _ sample_trader]) simp
  then show ?thesis
    using login_correct [OF sample_slots(4) _ surjective_pairing, of "''alice''"] by (auto simp: config_defs)
qed

text \<open>
  C27. SUBSCRIBE sets the subscription of exactly the instrument named and makes the client a market
  data client; traders and repeated subscriptions are refused.
\<close>

theorem subscribe_correct:
  assumes "slot s self = Some c" and "parse_instrument name = Some i" and "subscribeClient name self s = (failed, s')"
  shows "\<exists>c'. slot s' self = Some c' \<and>
    (if ctype c = trader \<or> subscribed_to c i then same_but_output c c'
     else ctype c' = market \<and> subscribed_to c' i \<and> (\<forall>k. k \<noteq> i \<longrightarrow> subscribed_to c' k = subscribed_to c k)) \<and>
    (\<not> failed \<longrightarrow> stream c' (world s') = stream c (world s) @
       (if ctype c = trader then error_line ''Traders cannot subscribe to market data''
        else if subscribed_to c i then error_line (''Already subscribed to '' @ name) else OK))"
proof (cases "ctype c = trader \<or> subscribed_to c i")
  case True
  then show ?thesis
    using assms reply_same [OF assms(1)]
    by (auto simp: subscribeClient_def parse_instrument_def subscribed_to_def split: if_splits)
next
  case False
  let ?c1 = "if i = JNST then c\<lparr>subscribedJNST := True, ctype := market\<rparr> else c\<lparr>subscribedIMCT := True, ctype := market\<rparr>"
  have "sendTo self OK (put self ?c1 s) = (failed, s')"
    using assms False by (auto simp: subscribeClient_def parse_instrument_def subscribed_to_def simp del: put_simps split: if_splits)
  moreover have "client_fd ?c1 = client_fd c" "pending ?c1 = pending c"
    by simp_all
  ultimately obtain c' where "slot s' self = Some c'" "same_but_output ?c1 c'" "\<not> failed \<longrightarrow> stream c' (world s') = stream c (world s) @ OK"
    using reply_put [OF assms(1)] by blast
  then show ?thesis
    using False same_but_output_fields [of ?c1 c']
    by (intro exI [of _ c']) (auto simp: subscribed_to_def split: if_splits intro: Instrument.exhaust)
qed

theorem subscribe_correct_witness:
  "\<exists>c'. slot (snd (subscribeClient ''IMCT'' 1 sample_exchange)) 1 = Some c' \<and> subscribed_to c' IMCT \<and> subscribed_to c' JNST"
proof -
  have "parse_instrument ''IMCT'' = Some IMCT" "\<not> subscribed_to sample_market IMCT" "subscribed_to sample_market JNST"
    by (simp_all add: parse_instrument_def subscribed_to_def)
  then show ?thesis
    using subscribe_correct [OF sample_slots(2) _ surjective_pairing, of "''IMCT''" IMCT] by auto
qed

text \<open>What a line leaves of its sender's role and of the other connections.\<close>

definition role_kept :: "nat \<Rightarrow> exchange \<Rightarrow> ClientConnection \<Rightarrow> exchange \<Rightarrow> bool" where
  "role_kept self s c s' \<longleftrightarrow>
     (\<exists>c'. slot s' self = Some c' \<and> ctype c' = ctype c \<and> logged_in c' = logged_in c \<and> username c' = username c) \<and>
     (\<forall>j d. j \<noteq> self \<and> slot s j = Some d \<longrightarrow> (\<exists>d'. slot s' j = Some d' \<and> same_but_output d d')) \<and>
     (ctype c = market \<longrightarrow> book s' = book s \<and> next_order_id s' = next_order_id s)"

lemma role_kept_send:
  assumes c: "slot s self = Some c" and s1: "slot s1 self = Some c1" "ctype c1 = ctype c" "logged_in c1 = logged_in c"
    "username c1 = username c" "\<And>j. j \<noteq> self \<Longrightarrow> slot s1 j = slot s j"
    and b: "ctype c = market \<Longrightarrow> book s1 = book s \<and> next_order_id s1 = next_order_id s"
  shows "role_kept self s c (snd (sendTo self l s1))"
proof -
  obtain c' where "slot (snd (sendTo self l s1)) self = Some c'" "same_but_output c1 c'"
    using sendTo_output [OF s1(1) s1(1)] by blast
  then show ?thesis
    using s1 b same_but_output_fields [of c1 c'] by (auto simp: role_kept_def)
qed

lemma role_kept_reply: "slot s self = Some c \<Longrightarrow> role_kept self s c (snd (replyTo self reason s))"
  unfolding replyTo_sendTo by (rule role_kept_send) simp_all

lemma role_kept_put:
  "slot s self = Some c \<Longrightarrow> ctype c1 = ctype c \<Longrightarrow> logged_in c1 = logged_in c \<Longrightarrow> username c1 = username c \<Longrightarrow>
   role_kept self s c (snd (sendTo self l (put self c1 s)))"
  using slot_Some_less [of s self c] by (intro role_kept_send [of s self c _ c1]) auto

lemma role_kept_echo: "role_kept self (say out s) c s' \<Longrightarrow> role_kept self s c s'"
  by (simp add: role_kept_def)

lemma role_kept_output:
  assumes "slot s self = Some c" and "ctype c \<noteq> market"
    and "\<And>j d. slot s j = Some d \<Longrightarrow> \<exists>d'. slot s' j = Some d' \<and> same_but_output d d'"
  shows "role_kept self s c s'"
  using assms(2) assms(3) [OF assms(1)] assms(3) same_but_output_fields by (fastforce simp: role_kept_def)

text \<open>
  C28. A connection that has become a trader or a market data client keeps that role, and a trader
  its name, whatever line it sends.
\<close>

theorem roles_fixed:
  assumes "exchange_ok s" and "slot s self = Some c" and "ctype c \<noteq> none" and "processLine line self s = (don, s')"
  shows "role_kept self s c s'"
proof -
  note c = assms(2)
  have li: "logged_in c = (ctype c = trader)" and ns: "subscribedJNST c \<or> subscribedIMCT c \<longrightarrow> ctype c = market"
    using exchange_okD(2) [OF assms(1) c] by (auto simp: conn_ok_def)
  have role: "ctype c = trader \<or> ctype c = market"
    using assms(3) ClientType.exhaust by blast
  have "(\<lambda>r. role_kept self s c (snd r)) (processLine line self s)"
  proof (rule processLine_cases [OF c])
    show "role_kept self s c (snd (False, s))"
      using c by (auto simp: role_kept_def)
    note c' = say_slot [OF c]
    note reply = role_kept_echo [OF role_kept_reply [OF c']]
    show "role_kept self s c (snd (replyTo self reason (say out s)))" for out reason
      by (rule reply)
    show "role_kept self s c (snd (loginUser arg self (say out s)))" for out arg
      using reply role li c by (auto simp: loginUser_def)
    have put: "role_kept self s c (snd (sendTo self l (put self c1 (say out s))))"
      if "ctype c1 = ctype c" "logged_in c1 = logged_in c" "username c1 = username c" for c1 l out
      by (rule role_kept_echo [OF role_kept_put [OF c' that]])
    have "role_kept self s c (snd (subscribeClient arg self (say out s)))" for arg out
      using reply role c put by (auto simp: subscribeClient_def simp del: put_simps)
    moreover have "role_kept self s c (snd (unsubscribeClient arg self (say out s)))" for arg out
      using reply role c put by (auto simp: unsubscribeClient_def simp del: put_simps)
    moreover have "role_kept self s c (snd (quitUser self (say out s)))" for out
      using c put by (auto simp: quitUser_def case_prod_beta simp del: put_simps)
    ultimately show "role_kept self s c (snd (subscribeClient arg self (say out s))) \<and>
        role_kept self s c (snd (unsubscribeClient arg self (say out s))) \<and> role_kept self s c (snd (quitUser self (say out s)))" for out arg
      by blast
    show "role_kept self s c (snd (placeOrder sd arg q p self (say out s))) \<and> role_kept self s c (snd (cancelUserOrder arg self (say out s)))"
      if "logged_in c" for out arg sd q p
    proof -
      have t: "ctype c \<noteq> market"
        using that li by simp
      show ?thesis
        using role_kept_echo [OF role_kept_output [OF c' t placeOrder_output [OF c']]]
          role_kept_echo [OF role_kept_output [OF c' t cancelUserOrder_output [OF c']]] by blast
    qed
  qed
  then show ?thesis
    by (simp add: assms(4))
qed

theorem roles_fixed_witness:
  "book (snd (processLine ''LOGIN eve'' 1 sample_exchange)) = book sample_exchange"
  using roles_fixed [OF sample_exchange_ok sample_slots(2) _ surjective_pairing, of "''LOGIN eve''"]
  by (simp add: role_kept_def)

text \<open>
  C29. CANCEL removes the order with that id if and only if it rests and the client owns it, and the
  reply says which.
\<close>

theorem cancel_command:
  assumes "exchange_ok s" and "IdOverflow \<notin> set (log (world s))" and "slot s self = Some c" and "int32 i" and "0 \<le> i"
    and "cancelUserOrder (show_int i) self s = (failed, s')"
  defines "owned \<equiv> \<exists>x \<in> set (resting (book s)). oid x = i \<and> owner_fd x = int self"
  shows "(\<forall>r. get_list (book s') r = filter (\<lambda>x. \<not> (owned \<and> oid x = i)) (get_list (book s) r)) \<and>
    (\<not> failed \<longrightarrow> (\<exists>c'. slot s' self = Some c' \<and>
       stream c' (world s') = stream c (world s) @ (if owned then cancelled_line i else error_line ''No such order'')))"
proof -
  have fd: "client_fd c = int self" and ok: "book_ok (next_order_id s) (book s)"
    using exchange_okD(2,4) [OF assms(1)] assms(2,3) by (auto simp: conn_ok_def book_inv_def)
  obtain found b' where co: "cancelOrder (book s) i (int self) = (found, b')" by fastforce
  have b: "book_ok (next_order_id s) (book s)" "found = owned" "\<And>r. get_list b' r = filter (\<lambda>x. \<not> (owned \<and> oid x = i)) (get_list (book s) r)"
    using ok cancelOrder_list [OF ok co] cancel_filter [OF ok co] by (auto simp: owned_def)
  have "i \<le> INT_MAX"
    using assms(4) by (simp add: int32_def)
  then have run: "(if \<not> found then replyTo self ''No such order'' s else sendTo self (cancelled_line i) (s\<lparr>book := b'\<rparr>)) = (failed, s')"
    using assms(3,5,6) co by (cases found) (simp_all add: cancelUserOrder_def strtol_show [OF assms(4)] fd cancelled_line_def)
  show ?thesis
  proof (cases owned)
    case True
    with run b(2) have sent: "sendTo self (cancelled_line i) (s\<lparr>book := b'\<rparr>) = (failed, s')" by simp
    have "book s' = b'"
      using arg_cong [OF sent, of "\<lambda>r. book (snd r)"] by simp
    moreover obtain c' where "slot s' self = Some c'" "\<not> failed \<Longrightarrow> stream c' (world s') = stream c (world s) @ cancelled_line i"
      using sendTo_exact [OF _ sent, of c] assms(3) by auto
    ultimately show ?thesis
      using b(3) True by auto
  next
    case False
    with run b(2) have sent: "replyTo self ''No such order'' s = (failed, s')" by simp
    have "book s' = book s"
      using arg_cong [OF sent, of "\<lambda>r. book (snd r)"] by simp
    with reply_same [OF assms(3) sent] False show ?thesis
      by auto
  qed
qed

theorem cancel_command_witness:
  "\<forall>r. get_list (book (snd (cancelUserOrder (show_int 0) 0 sample_exchange))) r = filter (\<lambda>x. oid x \<noteq> 0) (get_list (book sample_exchange) r)"
proof -
  have "\<exists>x \<in> set (resting (book sample_exchange)). oid x = 0 \<and> owner_fd x = int 0"
    by code_simp
  then show ?thesis
    using cancel_command [OF sample_exchange_ok _ sample_slots(1) _ _ surjective_pairing, of 0] by (simp add: int32_def INT_MAX_def)
qed

text \<open>
  C14. An accepted order is matched by addOrder and takes the next id. Unless the allocator fails,
  the acknowledgement and the BOUGHT and SOLD lines are sent to the owners and the TRADE lines to the
  subscribers, in the order of the fills: each client gets all of its lines if no write fails for
  good and its buffer has room for them, and otherwise some of them, in order, and nothing else.
\<close>

theorem trades_reported:
  assumes "exchange_ok s" and "False \<notin> set (mem (world s))" and "slot s self = Some c" and "logged_in c"
    and "parse_instrument name = Some inst" and "0 < qty" and "0 < prc"
    and "placeOrder sd name qty prc self s = (don, s')"
  defines "ord \<equiv> \<lparr>oid = next_order_id s, quantity = qty, price = prc, owner_fd = int self, side = sd, instrument = inst\<rparr>"
  shows "book s' = fst (snd (addOrder [] (book s) ord)) \<and> next_order_id s' = to_int32 (next_order_id s + 1) \<and>
    lines_sent (if don then {} else {self})
      (\<lambda>j. (if j = self then [accepted_line (next_order_id s)] else []) @ report_lines s (fst (addOrder [] (book s) ord)) j) s s'"
proof -
  have "ctype c \<noteq> market"
    using exchange_okD(2) [OF assms(1,3)] assms(4) by (auto simp: conn_ok_def)
  moreover obtain fills b' m' where a: "addOrder [] (book s) ord = (fills, b', m')" by (metis prod_cases3)
  ultimately show ?thesis
    using placeOrder_reported [OF exchange_ok_calm [OF assms(1,2)] assms(3) _ assms(5-8) a [unfolded ord_def]] lines_sent_trans
    by (fastforce simp: a)
qed

lemma sample_room:
  "lines_sent C ms sample_exchange s' \<Longrightarrow> slot sample_exchange j = Some c \<Longrightarrow> pending c = [] \<Longrightarrow>
   length (concat (ms j)) \<le> OUTBUF_SIZE \<Longrightarrow> \<exists>c'. slot s' j = Some c' \<and> stream c' (world s') = concat (ms j)"
  by (erule lines_sentD, assumption)
    (auto simp: room_def reliable_def sample_exchange_def idle_os_def stream_def sent_def outlen_def)

theorem trades_reported_witness:
  "case placeOrder BUY ''JNST'' 2 100 0 sample_exchange of (don, s') \<Rightarrow>
     (\<exists>c'. slot s' 0 = Some c' \<and> stream c' (world s') =
        ''ORDER_ACCEPTED 1'' @ [NL] @ ''BOUGHT JNST 2 100'' @ [NL] @ ''SOLD JNST 2 100'' @ [NL]) \<and>
     (\<exists>c'. slot s' 1 = Some c' \<and> stream c' (world s') = ''TRADE JNST 2 100'' @ [NL])"
proof -
  let ?i = "next_order_id sample_exchange"
  let ?ord = "\<lparr>oid = ?i, quantity = 2, price = 100, owner_fd = int 0, side = BUY, instrument = JNST\<rparr>"
  let ?ms = "\<lambda>j. (if j = 0 then [accepted_line ?i] else []) @ report_lines sample_exchange (fst (addOrder [] (book sample_exchange) ?ord)) j"
  obtain don s' where run: "placeOrder BUY ''JNST'' 2 100 0 sample_exchange = (don, s')" by fastforce
  have p: "False \<notin> set (mem (world sample_exchange))" "parse_instrument ''JNST'' = Some JNST" "0 < (2 :: int)" "0 < (100 :: int)"
    by (simp_all add: parse_instrument_def)
  have sent: "lines_sent (if don then {} else {0}) ?ms sample_exchange s'"
    using trades_reported [OF sample_exchange_ok p(1) sample_slots(1) sample_fields(1) p(2-4) run] by blast
  have ms: "concat (?ms 0) = ''ORDER_ACCEPTED 1'' @ [NL] @ ''BOUGHT JNST 2 100'' @ [NL] @ ''SOLD JNST 2 100'' @ [NL]"
    "concat (?ms 1) = ''TRADE JNST 2 100'' @ [NL]"
    by code_simp+
  have empty: "pending sample_trader = []" "pending sample_market = []"
    by (simp_all add: sample_trader_def sample_market_def new_client_def pending_def)
  show ?thesis
    using sample_room [OF sent sample_slots(1) empty(1)] sample_room [OF sent sample_slots(2) empty(2)]
    unfolding run prod.case ms by (simp add: config_defs)
qed

end
