(* ===== verification/Streams.thy ===== *)
theory Streams
  imports Sessions
begin

text \<open>
  What \<open>communicate\<close> does with a byte stream: it agrees with the reader of single bytes, so it does not
  matter how the stream is cut into reads; lines are processed in their order; a line that does not fit
  the buffer costs its sender one error reply and nothing else.
\<close>

section \<open>Whole lines\<close>

text \<open>Lines processed one after the other, until one ends the connection.\<close>

fun run_lines :: "handler \<Rightarrow> nat \<Rightarrow> string list \<Rightarrow> exchange \<Rightarrow> bool option \<times> exchange" where
  "run_lines handle self [] t = (None, t)"
| "run_lines handle self (l # ls) t =
     (let (don, t1) = handle (line_of l) self t
      in if don then (Some True, t1)
         else
           (case slot t1 self of
              None \<Rightarrow> (Some True, snd (null_deref t1))
            | Some c1 \<Rightarrow> if closing c1 then (Some False, t1) else run_lines handle self ls t1))"

definition whole_line :: "string \<Rightarrow> bool" where
  "whole_line l \<longleftrightarrow> NL \<notin> set l \<and> length l < INBUF_SIZE"

lemma feed_lines:
  assumes "slot t self = Some c" and "\<not> discarding c" and "\<forall>l \<in> set ls. whole_line l"
  shows "feed processLine self (concat (map (\<lambda>l. l @ [NL]) ls)) [] t =
    (case run_lines processLine self ls t of (r, t') \<Rightarrow> (r, [], t'))"
  using assms
proof (induction ls arbitrary: t c)
  case (Cons l ls)
  have l: "NL \<notin> set l" "length l < INBUF_SIZE"
    using Cons.prems(3) by (auto simp: whole_line_def)
  obtain don t1 where h: "processLine (line_of l) self t = (don, t1)" by fastforce
  obtain c1 where c1: "slot t1 self = Some c1" "same_input c c1"
    using client.handle_step(1) [OF Cons.prems(1) h] by blast
  then have "\<not> discarding c1"
    using Cons.prems(2) by (simp add: same_input_def)
  with Cons.IH [OF c1(1)] Cons.prems feed_line [OF l(1) Cons.prems(1) l(2), of processLine] h c1(1) show ?case
    by (auto simp: feed_byte_def)
qed simp

lemma feed_nothing: "slot t self = Some c \<Longrightarrow> discarding c \<Longrightarrow> NL \<notin> set xs \<Longrightarrow> length p < INBUF_SIZE \<Longrightarrow>
   \<exists>p'. feed h self xs p t = (None, p', t) \<and> length p' < INBUF_SIZE"
proof (induction xs arbitrary: p)
  case (Cons x xs)
  then have "x \<noteq> NL" by auto
  show ?case
  proof (cases "length p + 1 < INBUF_SIZE")
    case True
    with Cons.IH [of "p @ [x]"] Cons.prems \<open>x \<noteq> NL\<close> show ?thesis
      by (auto simp: feed_byte_def)
  next
    case False
    with Cons.IH [of "[]"] Cons.prems \<open>x \<noteq> NL\<close> show ?thesis
      by (auto simp: feed_byte_def config_defs)
  qed
qed simp

lemma feed_overlong:
  assumes c: "slot t self = Some c" "\<not> discarding c" and xs: "NL \<notin> set xs" "INBUF_SIZE \<le> length xs"
    and rep: "replyTo self ''Message too long'' t = (False, t1)"
  shows "feed h self (xs @ NL # ys) [] t = feed h self ys [] t1"
proof -
  let ?a = "take INBUF_SIZE xs" and ?b = "drop INBUF_SIZE xs"
  obtain c1 where c1: "slot t1 self = Some c1" "same_but_output c c1"
    using reply_same [OF c(1) rep] by blast
  have nd: "\<not> discarding c1"
    using c(2) c1(2) same_but_output_fields by blast
  let ?t2 = "put self (c1\<lparr>discarding := True\<rparr>) t1"
  have c2: "slot ?t2 self = Some (c1\<lparr>discarding := True\<rparr>)"
    using slot_Some_less [OF c1(1)] by simp
  have ab: "NL \<notin> set ?a" "length ?a = INBUF_SIZE" "NL \<notin> set ?b"
    using xs by (auto dest: in_set_takeD in_set_dropD)
  have "feed h self (xs @ NL # ys) [] t = feed h self (?a @ ?b @ NL # ys) [] t"
    by (metis append.assoc append_take_drop_id)
  also have "\<dots> = feed h self (?b @ NL # ys) [] ?t2"
    using overflow_feeds [OF ab(1,2) c(1), of h] c rep c1(1) by simp
  also have "\<dots> = feed h self ys [] (put self (c1\<lparr>discarding := False\<rparr>) ?t2)"
  proof -
    obtain p' where "feed h self ?b [] ?t2 = (None, p', ?t2)"
      using feed_nothing [OF c2 _ ab(3), of "[]" h] by (auto simp: config_defs)
    with c2 show ?thesis
      by (simp add: feed_append feed_byte_def)
  qed
  also have "put self (c1\<lparr>discarding := False\<rparr>) ?t2 = t1"
  proof -
    have "c1\<lparr>discarding := False\<rparr> = c1"
      using nd by simp
    moreover have "put self c1 ?t2 = put self c1 t1"
      by (simp add: put_def)
    ultimately show ?thesis
      using put_same [OF c1(1)] by simp
  qed
  finally show ?thesis .
qed

section \<open>Properties of the input side\<close>

text \<open>A fresh exchange whose third connection has sent something.\<close>

definition sample_reads :: "read_answer list \<Rightarrow> exchange" where
  "sample_reads rs = sample_exchange\<lparr>world := idle_os\<lparr>reads := rs\<rparr>\<rparr>"

lemma sample_reads_simps [simp]:
  "slot (sample_reads rs) i = slot sample_exchange i" "reads (world (sample_reads rs)) = rs"
  by (simp_all add: sample_reads_def idle_os_def)

lemma new_conn_ready [simp]: "input_ready (new_conn i)" "inbuf (new_conn i) = []" "\<not> discarding (new_conn i)"
  by (simp_all add: new_client_def input_ready_def config_defs)

text \<open>
  C17. communicate, with its buffer, its scan position and its discard mode, always returns, and it
  does what a reader that takes the bytes one at a time does.
\<close>

theorem communicate_reads_bytes:
  assumes "slot s self = Some c" and "\<not> closing c" and "input_ready c"
  shows "\<exists>don s'. communicate self s = Some (don, s') \<and>
    agrees self (feed processLine self (inbuf c @ incoming (reads (world s))) [] (forget self s)) (ending_of (reads (world s))) don s'"
  using client.readLoop_feeds [OF assms(1,3)] assms(1,2) by (auto simp: communicate_def communicate_with_def)

theorem communicate_reads_bytes_witness:
  "\<exists>don s'. communicate 2 (sample_reads [RData ''QU'', RErr EINTR, RData ''IT'']) = Some (don, s') \<and>
    agrees 2 (feed processLine 2 ''QUIT'' [] (forget 2 (sample_reads [RData ''QU'', RErr EINTR, RData ''IT'']))) Blocked don s'"
  using communicate_reads_bytes [of "sample_reads [RData ''QU'', RErr EINTR, RData ''IT'']" 2 "new_conn 2"] by simp

text \<open>
  C15. How the kernel cuts the input into reads makes no difference: two runs over the same bytes
  leave the exchange in the same state.
\<close>

theorem segmentation_irrelevant:
  assumes "slot s self = Some c" and "input_ready c" and "slot t self = Some d" and "input_ready d"
    and "forget self s = forget self t" and "inbuf c @ incoming (reads (world s)) = inbuf d @ incoming (reads (world t))"
    and "ending_of (reads (world s)) = ending_of (reads (world t))"
  shows "\<exists>don s' t'. communicate self s = Some (don, s') \<and> communicate self t = Some (don, t') \<and>
    forget self s' = forget self t' \<and>
    (don \<or> (\<exists>c' d'. slot s' self = Some c' \<and> slot t' self = Some d' \<and> (closing c' \<and> closing d' \<or> inbuf c' = inbuf d')))"
  using client.segmentation [OF assms(1) disjI2 [OF assms(2)] assms(3) disjI2 [OF assms(4)] assms(5-7)]
  unfolding communicate_def by metis

theorem segmentation_irrelevant_witness:
  "\<exists>don s' t'. communicate 2 (sample_reads [RData ''LOGIN bob'', RData [NL]]) = Some (don, s') \<and>
    communicate 2 (sample_reads [RData ''LO'', RErr EINTR, RData ''GIN bob'', RData [NL]]) = Some (don, t') \<and>
    forget 2 s' = forget 2 t'"
proof -
  have "forget 2 (sample_reads rs) = forget 2 (sample_reads rs')" for rs rs'
    by (simp add: forget_def sample_reads_def)
  then show ?thesis
    using segmentation_irrelevant [of "sample_reads [RData ''LOGIN bob'', RData [NL]]" 2 "new_conn 2"
        "sample_reads [RData ''LO'', RErr EINTR, RData ''GIN bob'', RData [NL]]" "new_conn 2"]
    by auto
qed

lemma lines_processed:
  assumes "slot s self = Some c" and "\<not> closing c" and "\<not> discarding c" and "inbuf c = []" and "scanned_len c = 0"
    and "\<forall>l \<in> set ls. whole_line l" and "incoming (reads (world s)) = concat (map (\<lambda>l. l @ [NL]) ls)"
    and "ending_of (reads (world s)) = Blocked"
  shows "\<exists>don s'. communicate self s = Some (don, s') \<and>
    (case run_lines processLine self ls (forget self s) of
       (r, t) \<Rightarrow> don = (r = Some True) \<and> forget self s' = t \<and>
         (r = None \<longrightarrow> (\<exists>c'. slot s' self = Some c' \<and> inbuf c' = [] \<and> scanned_len c' = 0)))"
proof -
  have "input_ready c"
    using assms(4,5) by (simp add: input_ready_def config_defs)
  from client.readLoop_feeds [OF assms(1) this]
  obtain don s' where run: "communicate self s = Some (don, s')"
    and a: "agrees self (feed processLine self (concat (map (\<lambda>l. l @ [NL]) ls)) [] (forget self s)) Blocked don s'"
    using assms(1,2,4,7,8) by (auto simp: communicate_def communicate_with_def)
  have "slot (forget self s) self = Some (blank c)" "\<not> discarding (blank c)"
    using assms(1,3) by simp_all
  note fed = feed_lines [OF this assms(6)]
  obtain r t where r: "run_lines processLine self ls (forget self s) = (r, t)" by fastforce
  show ?thesis
    using run a unfolding fed r by (cases r) (auto simp: agrees_def input_ready_def)
qed

text \<open>
  C16. When whole lines arrive, they are processed one by one, in order, until one of them closes the
  connection or ends the session.
\<close>

theorem lines_in_order:
  assumes "slot s self = Some c" and "\<not> closing c" and "\<not> discarding c" and "inbuf c = []" and "scanned_len c = 0"
    and "\<forall>l \<in> set ls. whole_line l" and "incoming (reads (world s)) = concat (map (\<lambda>l. l @ [NL]) ls)"
    and "ending_of (reads (world s)) = Blocked"
  shows "\<exists>don s'. communicate self s = Some (don, s') \<and>
    (case run_lines processLine self ls (forget self s) of
       (r, t) \<Rightarrow> don = (r = Some True) \<and> forget self s' = t \<and>
         (r = None \<longrightarrow> (\<exists>c'. slot s' self = Some c' \<and> inbuf c' = [] \<and> scanned_len c' = 0)))"
  using lines_processed [OF assms] .

theorem lines_in_order_witness:
  "\<exists>don s'. communicate 2 (sample_reads [RData (''LOGIN bob'' @ [NL] @ ''BUY JNST 1 5'' @ [NL])]) = Some (don, s') \<and>
    forget 2 s' = snd (run_lines processLine 2 [''LOGIN bob'', ''BUY JNST 1 5'']
      (forget 2 (sample_reads [RData (''LOGIN bob'' @ [NL] @ ''BUY JNST 1 5'' @ [NL])])))"
proof -
  let ?s = "sample_reads [RData (''LOGIN bob'' @ [NL] @ ''BUY JNST 1 5'' @ [NL])]" and ?ls = "[''LOGIN bob'', ''BUY JNST 1 5'']"
  have "scanned_len (new_conn 2) = 0" "\<forall>l \<in> set ?ls. whole_line l"
    "incoming (reads (world ?s)) = concat (map (\<lambda>l. l @ [NL]) ?ls)" "ending_of (reads (world ?s)) = Blocked" "slot ?s 2 = Some (new_conn 2)"
    by (simp_all add: new_client_def whole_line_def config_defs)
  from lines_in_order [OF this(5) _ _ _ this(1-4)] show ?thesis
    by (auto simp: case_prod_beta simp del: run_lines.simps)
qed

text \<open>
  C18. A line of INBUF_SIZE bytes or more gets one error reply and is dropped as a whole; nothing of
  it reaches the command handlers.
\<close>

theorem overlong_line_rejected:
  assumes "slot s self = Some c" and "\<not> closing c" and "\<not> discarding c" and "inbuf c = []" and "scanned_len c = 0"
    and "NL \<notin> set xs" and "INBUF_SIZE \<le> length xs" and "incoming (reads (world s)) = xs @ [NL]"
    and "ending_of (reads (world s)) = Blocked" and "replyTo self ''Message too long'' (forget self s) = (False, t1)"
  shows "\<exists>s' c'. communicate self s = Some (False, s') \<and> forget self s' = t1 \<and> slot s' self = Some c' \<and> inbuf c' = []"
proof -
  have "input_ready c"
    using assms(4,5) by (simp add: input_ready_def config_defs)
  from client.readLoop_feeds [OF assms(1) this]
  obtain don s' where run: "communicate self s = Some (don, s')"
    and a: "agrees self (feed processLine self (xs @ NL # []) [] (forget self s)) Blocked don s'"
    using assms(1,2,4,8,9) by (auto simp: communicate_def communicate_with_def)
  have c: "slot (forget self s) self = Some (blank c)" "\<not> discarding (blank c)"
    using assms(1,3) by simp_all
  from a run show ?thesis
    unfolding feed_overlong [OF c assms(6,7,10)] by (auto simp: agrees_def)
qed

theorem overlong_line_rejected_witness:
  "\<exists>s'. communicate 2 (sample_reads [RData (replicate 200 CHR ''x'' @ [NL])]) = Some (False, s')"
proof -
  let ?s = "sample_reads [RData (replicate 200 CHR ''x'' @ [NL])]"
  have f: "fst (replyTo 2 ''Message too long'' (forget 2 ?s)) = False"
    by code_simp
  have "scanned_len (new_conn 2) = 0" "NL \<notin> set (replicate 200 CHR ''x'')" "INBUF_SIZE \<le> length (replicate 200 CHR ''x'')"
    by (simp_all add: new_client_def config_defs)
  then show ?thesis
    using overlong_line_rejected [of ?s 2 "new_conn 2" "replicate 200 CHR ''x''" "snd (replyTo 2 ''Message too long'' (forget 2 ?s))"] f
    by (auto simp: prod_eq_iff)
qed

end
