(* ===== verification/Runs.thy ===== *)
theory Runs
  imports Exchange_Server Streams
begin

text \<open>
  Properties of whole runs of the server: the life of a connection from \<open>accept\<close> to \<open>close\<close>, the growth of
  the table, the safety of every reachable state, the shutdown, and the program as a whole.
\<close>

section \<open>The life of a connection\<close>

lemma removeClient_closed: "last (log (world (removeClient fd kq s))) = Closed (int fd)"
  by (simp add: removeClient_def Let_def case_prod_beta)

text \<open>
  C30. removeClient empties one slot, orphans exactly the client's orders, which stay in the book,
  and closes the descriptor last.
\<close>

theorem removeClient_correct:
  assumes "exchange_ok s"
  shows "exchange_ok (removeClient fd kq s) \<and>
    (\<forall>j. slot (removeClient fd kq s) j = (if j = fd then None else slot s j)) \<and>
    (\<forall>r. get_list (book (removeClient fd kq s)) r =
       map (\<lambda>x. if owner_fd x = int fd then x\<lparr>owner_fd := - 1\<rparr> else x) (get_list (book s) r)) \<and>
    last (log (world (removeClient fd kq s))) = Closed (int fd)"
  using removeClient_ok [OF assms] removeClient_closed
  by (auto simp: frame_simps detach_list disown_def)

theorem removeClient_correct_witness: "exchange_ok (removeClient 0 9 sample_exchange)"
  using removeClient_correct [OF sample_exchange_ok, of 0 9] by simp

text \<open>
  C31. A client that gets the descriptor of one that left starts with a fresh connection, owns no
  order and can cancel none of its predecessor's.
\<close>

theorem reused_descriptor_is_clean:
  assumes "exchange_ok s" and "IdOverflow \<notin> set (log (world s))" and "fd < curr_cap s"
    and "registerClient fd kq addr (removeClient fd kq s) = (True, s')"
  shows "slot s' fd = Some (new_client fd addr) \<and> int fd \<notin> owner_fd ` set (resting (book s')) \<and>
    (\<forall>arg. book (snd (cancelUserOrder arg fd s')) = book s')"
proof -
  let ?s1 = "removeClient fd kq s"
  have R1: "exchange_ok ?s1" "fd < curr_cap ?s1" "slot ?s1 fd = None" "IdOverflow \<notin> set (log (world ?s1))"
    using removeClient_ok [OF assms(1)] assms(2,3) quiet_events [OF removeClient_effect(5)] by (simp_all add: frame_simps)
  note R = registerClient_effect [OF R1(1-3) assms(4)]
  have slot: "slot s' fd = Some (new_client fd addr)"
    using R(6) [of fd] by simp
  have none: "int fd \<notin> owner_fd ` set (resting (book s'))"
    using no_owner [OF R1(1,3)] R1(4) R(3) by simp
  have "book_ok (next_order_id s') (book s')"
    using exchange_okD(4) [OF R(1)] quiet_events [OF R(2)] R1(4) by (simp add: book_inv_def)
  then have c: "cancelOrder (book s') i (int fd) = (False, book s')" for i
    using none by (rule cancel_stranger)
  have "client_fd (new_client fd addr) = int fd"
    by (simp add: new_client_def)
  with slot c have "book (snd (cancelUserOrder arg fd s')) = book s'" for arg
    by (simp add: cancelUserOrder_def case_prod_beta)
  with slot none show ?thesis by blast
qed

theorem reused_descriptor_is_clean_witness:
  "int 0 \<notin> owner_fd ` set (resting (book (snd (registerClient 0 9 \<lparr>sin_addr = 0, sin_port = 0\<rparr> (removeClient 0 9 sample_exchange)))))"
proof -
  let ?r = "registerClient 0 9 \<lparr>sin_addr = 0, sin_port = 0\<rparr> (removeClient 0 9 sample_exchange)"
  have "kevents (world sample_exchange) = []"
    by (simp add: sample_exchange_def idle_os_def)
  moreover have "0 < curr_cap sample_exchange"
    by code_simp
  ultimately have "fst ?r"
    by (simp add: registerClient_def removeClient_def os_alloc_def os_kevent_def Let_def)
  then have r: "?r = (True, snd ?r)"
    by (simp add: prod_eq_iff)
  from reused_descriptor_is_clean [OF sample_exchange_ok _ _ r] show ?thesis
    using \<open>0 < curr_cap sample_exchange\<close> by simp
qed

text \<open>
  C32. growConns ends and succeeds exactly when the allocator does. It then keeps every connection
  and makes the table large enough by doubling, to at most twice the descriptor, so that the capacity
  fits an int for descriptors below 2^30; otherwise the table is unchanged and the failure is
  printed.
\<close>

theorem growConns_correct:
  assumes "0 < curr_cap s" and "curr_cap s \<le> fd" and "os_alloc (world s) = (got, w)"
  shows "\<exists>s'. growConns fd s = Some (got, s') \<and> book s' = book s \<and> next_order_id s' = next_order_id s \<and>
    (if got then fd < curr_cap s' \<and> curr_cap s' \<le> 2 * fd \<and> (\<exists>k. curr_cap s' = curr_cap s * 2 ^ k) \<and>
       conns s' = conns s @ replicate (curr_cap s' - curr_cap s) None \<and> world s' = w \<and>
       (fd < 2 ^ 30 \<longrightarrow> int (curr_cap s') \<le> INT_MAX)
     else conns s' = conns s \<and> log (world s') = log w @ [Printed (''Failed to grow connection table'' @ [NL])])"
proof -
  obtain n where n: "double_cap fd (curr_cap s) = Some n" "fd < n" "curr_cap s \<le> n" "\<exists>k. n = curr_cap s * 2 ^ k" "n \<le> 2 * fd"
    using double_cap_total [OF assms(1), of fd] assms(2) by auto
  have "curr_cap (s\<lparr>world := w, conns := conns s @ replicate (n - curr_cap s) None\<rparr>) = n"
    using n(3) by (simp add: curr_cap_def)
  with n assms(3) show ?thesis
    by (cases got) (auto simp: growConns_def Let_def INT_MAX_def)
qed

theorem growConns_correct_witness:
  "(\<exists>s'. growConns 13 sample_exchange = Some (True, s') \<and> 13 < curr_cap s' \<and> curr_cap s' \<le> 26) \<and>
   (\<exists>s'. growConns 13 (sample_exchange\<lparr>world := idle_os\<lparr>mem := [False]\<rparr>\<rparr>) = Some (False, s') \<and> conns s' = conns sample_exchange)"
proof -
  let ?t = "sample_exchange\<lparr>world := idle_os\<lparr>mem := [False]\<rparr>\<rparr>"
  have cap: "curr_cap sample_exchange = 3" "curr_cap ?t = 3"
    by code_simp+
  obtain w where "os_alloc (world sample_exchange) = (True, w)"
    by (simp add: os_alloc_def)
  moreover obtain w' where "os_alloc (world ?t) = (False, w')"
    by (simp add: os_alloc_def)
  ultimately show ?thesis
    using growConns_correct [of sample_exchange 13 True w] growConns_correct [of ?t 13 False w'] cap by auto
qed

text \<open>
  C33. acceptClients returns; it only fills empty slots, with fresh connections, and leaves the other
  connections and the book alone.
\<close>

theorem acceptClients_correct:
  assumes "server_ok base s"
  shows "\<exists>s'. acceptClients base kq s = Some s' \<and> server_ok base s' \<and> book s' = book s \<and>
    (\<forall>j. slot s' j = slot s j \<or> slot s j = None \<and> j \<notin> set base \<and> (\<exists>addr. slot s' j = Some (new_client j addr)))"
  using acceptClients_ok [OF assms, of kq] unfolding accepted_def by metis

theorem acceptClients_correct_witness:
  "\<exists>s'. acceptClients [5] 4 (init_exchange (idle_os\<lparr>accepts := [AErr EINTR, AConn 5 \<lparr>sin_addr = 0, sin_port = 0\<rparr>]\<rparr>)) = Some s' \<and> server_ok [5] s'"
proof -
  have "server_ok [5] (init_exchange (idle_os\<lparr>accepts := [AErr EINTR, AConn 5 \<lparr>sin_addr = 0, sin_port = 0\<rparr>]\<rparr>))"
    by (rule init_exchange_ok) (simp add: idle_os_def)
  from acceptClients_correct [OF this, of 4] show ?thesis by blast
qed

lemma flush_closing: "closing c \<Longrightarrow> flushToClient c w = (don, c', w') \<Longrightarrow> (\<not> don \<longrightarrow> 0 < outlen c') \<and> (outlen c' = 0 \<longrightarrow> don)"
proof (induction c w arbitrary: don c' w' rule: flushToClient.induct)
  case (1 c w)
  obtain r w1 where wr: "os_write (client_fd c) (pending c) w = (r, w1)" by fastforce
  show ?case
  proof (cases "0 < outlen c")
    case True
    show ?thesis
    proof (cases r)
      case (Done n)
      have "flushToClient (c\<lparr>outbuf := Some (drop n (pending c))\<rparr>) w1 = (don, c', w')"
        using "1.prems"(2) True wr Done by (subst (asm) flushToClient.simps) simp
      from "1.IH"(1) [OF True wr [symmetric] Done _ this] "1.prems"(1) show ?thesis by simp
    next
      case (Failed e)
      show ?thesis
      proof (cases "e = EINTR")
        case True2: True
        have "flushToClient c w1 = (don, c', w')"
          using "1.prems"(2) True wr Failed True2 by (subst (asm) flushToClient.simps) simp
        from "1.IH"(2) [OF True wr [symmetric] Failed True2 "1.prems"(1) this] show ?thesis .
      next
        case False
        with "1.prems"(2) True wr Failed show ?thesis
          by (subst (asm) flushToClient.simps) (auto split: if_splits)
      qed
    qed
  next
    case False
    with "1.prems" show ?thesis by (subst (asm) flushToClient.simps) simp
  qed
qed

text \<open>
  C34. After QUIT the connection only drains its output: input is no longer read, and the connection
  is done as soon as the output is gone.
\<close>

theorem quit_is_graceful:
  assumes "slot s fd = Some c" and "quitUser fd s = (False, s')"
  shows "\<exists>c'. slot s' fd = Some c' \<and> closing c' \<and> 0 < outlen c' \<and> communicate fd s' = Some (False, s') \<and>
    (\<forall>w. case flushToClient c' w of (don, c'', w') \<Rightarrow> don \<or> 0 < outlen c'')"
proof -
  obtain failed s1 where sent: "sendTo fd OK (put fd (c\<lparr>closing := True\<rparr>) s) = (failed, s1)" by fastforce
  from reply_put [OF assms(1) _ _ sent] obtain c' where c': "slot s1 fd = Some c'" "same_but_output (c\<lparr>closing := True\<rparr>) c'"
    by auto
  have "closing c'"
    using same_but_output_fields(10) [OF c'(2)] by simp
  moreover have "s' = s1" "0 < outlen c'"
    using assms sent c'(1) by (auto simp: quitUser_def simp del: put_simps)
  ultimately show ?thesis
    using c'(1) flush_closing [of c'] by (intro exI [of _ c']) (fastforce simp: communicate_def communicate_with_def split: prod.split)
qed

theorem quit_is_graceful_witness:
  "\<exists>c'. slot (snd (quitUser 2 sample_exchange)) 2 = Some c' \<and> closing c' \<and> 0 < outlen c'"
proof -
  have "fst (quitUser 2 sample_exchange) = False"
    by code_simp
  then have "quitUser 2 sample_exchange = (False, snd (quitUser 2 sample_exchange))"
    by (simp add: prod_eq_iff)
  from quit_is_graceful [OF sample_slots(4) this] show ?thesis by blast
qed

section \<open>Reachable states\<close>

text \<open>
  C19. In every state the server can reach, with any answers of the kernel, each connection sits in
  its slot with its buffers in bounds, logged-in names are unique, the book is well-formed and every
  owner of a resting order is a connected trader.
\<close>

theorem reachable_safe:
  assumes "reachable base kq s"
  shows "NullDeref \<notin> set (log (world s)) \<and>
    (\<forall>i c. slot s i = Some c \<longrightarrow> client_fd c = int i \<and> i \<notin> set base \<and> outlen c \<le> OUTBUF_SIZE \<and>
       (closing c \<or> length (inbuf c) < INBUF_SIZE \<and> NL \<notin> set (inbuf c)) \<and> length (username c) < USERNAME_LENGTH \<and>
       logged_in c = (ctype c = trader) \<and> (ctype c \<noteq> market \<longrightarrow> \<not> subscribedJNST c \<and> \<not> subscribedIMCT c)) \<and>
    (\<forall>i j c d. slot s i = Some c \<and> slot s j = Some d \<and> logged_in c \<and> logged_in d \<and> username c = username d \<longrightarrow> i = j) \<and>
    (IdOverflow \<notin> set (log (world s)) \<longrightarrow>
       book_ok (next_order_id s) (book s) \<and>
       (\<forall>x \<in> set (resting (book s)). owner_fd x = - 1 \<or>
          (\<exists>i c. owner_fd x = int i \<and> slot s i = Some c \<and> ctype c = trader)))"
proof -
  have ok: "server_ok base s"
    using assms by (rule reachable_ok)
  then have ex: "exchange_ok s"
    by (simp add: server_ok_def)
  note D = exchange_okD [OF ex]
  have conn: "conn_ok i c" if "slot s i = Some c" for i c
    using D(2) [OF that] .
  have "owner_fd x = - 1 \<or> (\<exists>i c. owner_fd x = int i \<and> slot s i = Some c \<and> ctype c = trader)"
    if "owner_ok s (owner_fd x)" for x :: Order
    using that conn unfolding owner_ok_def conn_ok_def by metis
  then have "\<forall>x \<in> set (resting (book s)). owner_fd x = - 1 \<or>
      (\<exists>i c. owner_fd x = int i \<and> slot s i = Some c \<and> ctype c = trader)"
    if "IdOverflow \<notin> set (log (world s))"
    using D(4) that by (simp add: book_inv_def)
  moreover have "book_ok (next_order_id s) (book s)" if "IdOverflow \<notin> set (log (world s))"
    using D(4) that by (simp add: book_inv_def)
  moreover have "i \<notin> set base" if "slot s i = Some c" for i c
    using ok that by (auto simp: server_ok_def)
  moreover have "closing c \<or> length (inbuf c) < INBUF_SIZE \<and> NL \<notin> set (inbuf c)" if "slot s i = Some c" for i c
    using ok that by (auto simp: server_ok_def input_ready_def)
  moreover have "\<forall>i j c d. slot s i = Some c \<and> slot s j = Some d \<and> logged_in c \<and> logged_in d \<and> username c = username d \<longrightarrow> i = j"
    using D(3) unfolding names_unique_def by blast
  moreover have "NullDeref \<notin> set (log (world s))"
    using D(5) .
  moreover have "client_fd c = int i \<and> outlen c \<le> OUTBUF_SIZE \<and> length (username c) < USERNAME_LENGTH \<and>
      logged_in c = (ctype c = trader) \<and> (ctype c \<noteq> market \<longrightarrow> \<not> subscribedJNST c \<and> \<not> subscribedIMCT c)"
    if "slot s i = Some c" for i c
    using conn [OF that] by (auto simp: conn_ok_def)
  ultimately show ?thesis
    by simp
qed

theorem reachable_safe_witness:
  "\<exists>s. acceptClients [5] 4 (init_exchange (idle_os\<lparr>accepts := [AConn 5 \<lparr>sin_addr = 0, sin_port = 0\<rparr>]\<rparr>)) = Some s \<and>
     NullDeref \<notin> set (log (world s))"
proof -
  let ?w = "idle_os\<lparr>accepts := [AConn 5 \<lparr>sin_addr = 0, sin_port = 0\<rparr>]\<rparr>"
  have i: "reachable [5] 4 (init_exchange ?w)"
    by (rule reachable.init) (simp add: idle_os_def)
  obtain s where s: "acceptClients [5] 4 (init_exchange ?w) = Some s"
    using acceptClients_ok [OF reachable_ok [OF i]] by blast
  then have "reachable [5] 4 s"
    using reachable.step [OF i] server_step.accept by blast
  from reachable_safe [OF this] s show ?thesis by blast
qed

text \<open>In a reachable state every event is handled by a call that returns and leads to a reachable state.\<close>

lemma every_event_handled:
  assumes "reachable base kq s"
  shows "(\<exists>s'. handleClientEvent ev kq s = Some s' \<and> reachable base kq s') \<and>
    (\<exists>s'. acceptClients base kq s = Some s' \<and> reachable base kq s')"
  using handleClientEvent_ok [OF reachable_ok [OF assms], of ev kq] acceptClients_ok [OF reachable_ok [OF assms], of kq]
    reachable.step [OF assms server_step.client] reachable.step [OF assms server_step.accept] by metis

text \<open>
  C35. Within one batch of events, an end-of-file event of a client that was removed closes the new
  client that was accepted on its descriptor in between.
\<close>

theorem stale_event_hits_new_client:
  assumes "handleClientEvent ev1 kq s = Some s1" and "slot s1 fd = None" and "ident ev1 = fd" and "fd \<noteq> server_fd"
    and "acceptClients base kq s1 = Some s2" and "slot s2 fd = Some (new_client fd addr)"
    and "ident ev2 = server_fd" and "ident ev3 = fd" and "kfilter ev3 = EVFILT_WRITE" and "ev_eof ev3"
  shows "\<exists>s3. handleEvents server_fd base kq [ev1, ev2, ev3] s = Some s3 \<and> slot s3 fd = None \<and>
    last (log (world s3)) = Closed (int fd)"
proof -
  have "fd < curr_cap s2"
    using slot_Some_less [OF assms(6)] by simp
  then have "handleClientEvent ev3 kq s2 = Some (removeClient fd kq s2)"
    using assms(6,8-10) by (simp add: handleClientEvent_def Let_def)
  with assms removeClient_closed show ?thesis
    by (simp add: frame_simps)
qed

theorem stale_event_hits_new_client_witness:
  "\<exists>s3. handleEvents 9 [9] 8
      [\<lparr>ident = 2, kfilter = EVFILT_READ, ev_error = True, ev_eof = False\<rparr>,
       \<lparr>ident = 9, kfilter = EVFILT_READ, ev_error = False, ev_eof = False\<rparr>,
       \<lparr>ident = 2, kfilter = EVFILT_WRITE, ev_error = False, ev_eof = True\<rparr>]
      (sample_exchange\<lparr>world := idle_os\<lparr>accepts := [AConn 0 \<lparr>sin_addr = 0, sin_port = 0\<rparr>]\<rparr>\<rparr>) = Some s3 \<and> slot s3 2 = None"
proof -
  let ?a = "\<lparr>sin_addr = 0, sin_port = 0\<rparr>"
  let ?s = "sample_exchange\<lparr>world := idle_os\<lparr>accepts := [AConn 0 ?a]\<rparr>\<rparr>"
  let ?e = "\<lparr>ident = 2, kfilter = EVFILT_READ, ev_error = True, ev_eof = False\<rparr>"
  let ?s1 = "removeClient 2 8 ?s"
  have cap: "curr_cap ?s = 3"
    by (simp add: sample_exchange_def curr_cap_def)
  have 1: "handleClientEvent ?e 8 ?s = Some ?s1"
    using cap by (simp add: handleClientEvent_def Let_def)
  have w1: "accepts (world ?s1) = [AConn 0 ?a]" "fcntls (world ?s1) = []" "mem (world ?s1) = []" "kevents (world ?s1) = []"
    by (simp_all add: removeClient_def Let_def os_kevent_def idle_os_def)
  have fds: "open_fds [9] ?s1 = [9, 0, 1]"
    using cap by (simp add: open_fds_def removeClient_effect upt_rec)
  have acc: "os_accept (open_fds [9] ?s1) (world ?s1) = (Accepted 2 ?a, (world ?s1)\<lparr>accepts := []\<rparr>)"
    unfolding fds by (simp add: os_accept_def w1 free_fd_def upt_rec)
  let ?s2 = "snd (registerClient 2 8 ?a (?s1\<lparr>world := setNonBlocking 2 ((world ?s1)\<lparr>accepts := []\<rparr>)\<rparr>))"
  have "curr_cap ?s1 = 3"
    using cap by (simp add: frame_simps)
  then have "acceptClients [9] 8 ?s1 = acceptClients [9] 8 ?s2"
    by (subst acceptClients.simps) (simp add: acc)
  moreover have "accepts (world ?s2) = []" "slot ?s2 2 = Some (new_client 2 ?a)"
    using \<open>curr_cap ?s1 = 3\<close>
    by (simp_all add: registerClient_def os_alloc_def os_kevent_def setNonBlocking_def os_fcntl_def Let_def w1)
  moreover have "acceptClients [9] 8 ?s2 = Some ?s2"
    by (subst acceptClients.simps) (simp add: os_accept_def calculation(2))
  ultimately have 2: "acceptClients [9] 8 ?s1 = Some ?s2" "slot ?s2 2 = Some (new_client 2 ?a)"
    by simp_all
  show ?thesis
    using stale_event_hits_new_client [where ?server_fd = 9 and
        ?ev2.0 = "\<lparr>ident = 9, kfilter = EVFILT_READ, ev_error = False, ev_eof = False\<rparr>" and
        ?ev3.0 = "\<lparr>ident = 2, kfilter = EVFILT_WRITE, ev_error = False, ev_eof = True\<rparr>", OF 1 _ _ _ 2]
    by (fastforce simp: frame_simps)
qed

section \<open>The program\<close>

text \<open>
  C37. For every command line, every answer of the system and every sequence of passes, main returns
  a status or waits with its invariant intact, and no null connection is followed.
\<close>

theorem main_safe:
  assumes "log w = []"
  shows "\<exists>out. main argv su ps w = Some out \<and>
    (case out of
       Exited code w' \<Rightarrow> (code = 0 \<or> code = 1) \<and> NullDeref \<notin> set (log w')
     | Waiting s \<Rightarrow> \<exists>base. server_ok base s)"
proof -
  have fails: "\<exists>out. fail reason w' = Some out \<and>
      (case out of Exited code w' \<Rightarrow> (code = 0 \<or> code = 1) \<and> NullDeref \<notin> set (log w') | Waiting s \<Rightarrow> \<exists>base. server_ok base s)"
    if "NullDeref \<notin> set (log w')" for reason w'
    using that by (simp add: fail_def)
  have nb: "NullDeref \<notin> set (log (setNonBlocking fd w))" for fd
    using assms quiet_calls(3) [of w fd] by (auto simp: quiet_def)
  have "\<exists>out. serve server_fd su ps w' = Some out \<and>
      (case out of Exited code w' \<Rightarrow> (code = 0 \<or> code = 1) \<and> NullDeref \<notin> set (log w') | Waiting s \<Rightarrow> \<exists>base. server_ok base s)"
    if w': "NullDeref \<notin> set (log w')" for server_fd w'
    using serve_safe [OF w'] by blast
  with fails nb assms show ?thesis
    unfolding main_def Let_def by (auto split: option.split)
qed

definition sample_startup :: startup where
  "sample_startup =
     \<lparr>sigpipe_ok = True, sigint_ok = True, sigterm_ok = True, socket_fd = Some 3, pton = (\<lambda>h. h = ''127.0.0.1''), sockopt_ok = True,
      bind_ok = True, listen_ok = True, kqueue_fd = Some 4\<rparr>"

theorem main_safe_witness:
  "\<exists>out. main [''exchange_server'', ''127.0.0.1'', ''9000''] sample_startup
      [Events [\<lparr>ident = 3, kfilter = EVFILT_READ, ev_error = False, ev_eof = False\<rparr>], WaitFailed EINTR, Stopped] idle_os = Some out \<and>
     (case out of Exited code w' \<Rightarrow> NullDeref \<notin> set (log w') | Waiting s \<Rightarrow> \<exists>base. server_ok base s)"
proof -
  have "log idle_os = []" by (simp add: idle_os_def)
  from main_safe [OF this] show ?thesis by (fastforce split: outcome.splits)
qed

text \<open>The clients are closed in the order of their descriptors, and the log only grows on the way.\<close>

lemma removeClient_log:
  "\<exists>es. log (world (removeClient fd kq s)) = log (world s) @ es \<and> es \<noteq> [] \<and> last es = Closed (int fd) \<and> NullDeref \<notin> set es"
proof -
  obtain err w where k: "os_kevent (FiltersDeleted (int fd)) (world s) = (err, w)" by fastforce
  obtain ds where "log w = log (world s) @ ds" "NullDeref \<notin> set ds"
    using quiet_calls(1) [OF k] by (auto simp: quiet_def)
  with k show ?thesis
    by (auto simp: removeClient_def Let_def split: option.split)
qed

lemma closeAll_closes:
  "\<exists>es. log (world (closeAll kq is s)) = log (world s) @ es \<and> NullDeref \<notin> set es \<and>
     (\<forall>i \<in> set is. slot s i \<noteq> None \<longrightarrow> Closed (int i) \<in> set es)"
proof (induction "is" arbitrary: s)
  case (Cons i "is")
  show ?case
  proof (cases "slot s i = None")
    case True
    with Cons.IH [of s] show ?thesis by auto
  next
    case False
    let ?s1 = "removeClient i kq s"
    obtain es where es: "log (world (closeAll kq is ?s1)) = log (world ?s1) @ es" "NullDeref \<notin> set es"
        "\<And>j. j \<in> set is \<Longrightarrow> slot ?s1 j \<noteq> None \<Longrightarrow> Closed (int j) \<in> set es"
      using Cons.IH [of ?s1] by blast
    obtain ds where ds: "log (world ?s1) = log (world s) @ ds" "NullDeref \<notin> set ds" "Closed (int i) \<in> set ds"
      using removeClient_log [of i kq s] last_in_set by metis
    have "Closed (int j) \<in> set (ds @ es)" if "j \<in> set (i # is)" "slot s j \<noteq> None" for j
      using that es(3) [of j] ds(3) by (cases "j = i") (auto simp: frame_simps)
    with False es ds show ?thesis
      by (intro exI [of _ "ds @ es"]) auto
  qed
qed simp

text \<open>
  C36. The shutdown closes every connection, then the listening socket and the kqueue, and leaves an
  empty table.
\<close>

theorem shutdown_closes_everything:
  "\<exists>es text. log (world (shutdownServer server_fd kq s)) =
     log (world s) @ es @ [Closed (int server_fd), Closed (int kq), Printed text] \<and>
     (\<forall>i. slot s i \<noteq> None \<longrightarrow> Closed (int i) \<in> set es) \<and> NullDeref \<notin> set es \<and> conns (shutdownServer server_fd kq s) = []"
proof -
  let ?s1 = "say (''Shutting down, closing '' @ show_nat (curr_cap s) @ '' connection slots'' @ [NL]) s"
  obtain es where es: "log (world (closeAll kq [0..<curr_cap s] ?s1)) = log (world ?s1) @ es" "NullDeref \<notin> set es"
      "\<And>i. i < curr_cap s \<Longrightarrow> slot s i \<noteq> None \<Longrightarrow> Closed (int i) \<in> set es"
    using closeAll_closes [of kq "[0..<curr_cap s]" ?s1] by auto
  have "Closed (int i) \<in> set es" if "slot s i \<noteq> None" for i
    using that es(3) slot_Some_less by fastforce
  with es(1,2) show ?thesis
    by (auto simp: shutdownServer_def Let_def)
qed

theorem shutdown_closes_everything_witness: "Closed 2 \<in> set (log (world (shutdownServer 5 6 sample_exchange)))"
proof -
  obtain es msg where "log (world (shutdownServer 5 6 sample_exchange)) =
      log (world sample_exchange) @ es @ [Closed (int 5), Closed (int 6), Printed msg]"
      "\<forall>i. slot sample_exchange i \<noteq> None \<longrightarrow> Closed (int i) \<in> set es"
    using shutdown_closes_everything [of 5 6 sample_exchange] by blast
  moreover have "slot sample_exchange 2 \<noteq> None"
    using sample_slots(4) by simp
  ultimately show ?thesis by fastforce
qed

lemma strtol_show_any: "strtol (show_int v) = (clamp_long v, [])"
  using scan_number_show [of "[]" "[]" v] by (simp add: strtol_def)

text \<open>
  C38. The port argument is accepted exactly when it is a decimal numeral from 1 to 65535, with
  nothing after it and at most white space and a plus sign before it; without an argument the port is
  PORT.
\<close>

theorem parse_port_correct:
  "parse_port None = Some PORT \<and>
   (parse_port (Some t) = Some p \<longleftrightarrow> decimal t p \<and> 1 \<le> p \<and> p \<le> 65535) \<and>
   parse_port (Some (show_int v)) = (if 1 \<le> v \<and> v \<le> 65535 then Some v else None)"
proof -
  have "parse_port (Some t) = Some p \<longleftrightarrow> scan_number t = Some (p, []) \<and> 1 \<le> p \<and> p \<le> 65535"
    by (auto simp: parse_port_def strtol_def clamp_long_def LONG_MAX_def Let_def split: option.splits if_splits)
  then show ?thesis
    using scan_number_decimal [of t p] scan_number_positive [of t p]
    by (auto simp: parse_port_def strtol_show_any clamp_long_def LONG_MAX_def Let_def)
qed

end
