(* ===== verification/Trader_Client.thy ===== *)
theory Trader_Client
  imports Exchange_Server
begin

text \<open>
  The trader's client, \<open>src/trader_client.c\<close>: a loop over \<open>poll\<close> that prints the lines the server sends
  and sends the lines the user types. Its descriptors block: a call is made when \<open>poll\<close> has reported the
  descriptor, and its answers come from scripts as for the server.
\<close>

section \<open>State\<close>

definition SERVER_IP :: string where "SERVER_IP = ''127.0.0.1''"
definition BUFFER_SIZE :: nat where "BUFFER_SIZE = 1024"
definition RECVBUF_SIZE :: nat where "RECVBUF_SIZE = 128"

text \<open>
  The globals of the program, the pending answers of \<open>read\<close> on the standard input, whether \<open>fds[0].fd\<close> is
  still the standard input, and the rest of the world, whose \<open>reads\<close> are those of the server's socket.
\<close>

record client =
  cl_inbuf :: string
  cl_discarding :: bool
  cl_recvbuf :: string
  stdin_reads :: "read_answer list"
  stdin_open :: bool
  net :: os

abbreviation tell :: "string \<Rightarrow> client \<Rightarrow> client" where
  "tell msg st \<equiv> st\<lparr>net := print msg (net st)\<rparr>"

section \<open>Writing and the buffers\<close>

function writeAll :: "int \<Rightarrow> string \<Rightarrow> os \<Rightarrow> bool \<times> os" where
  "writeAll fd bytes w =
     (if bytes = [] then (True, w)
      else
        (case os_write fd bytes w of
           (Failed e, w') \<Rightarrow> if e = EINTR then writeAll fd bytes w' else (False, w')
         | (Done written, w') \<Rightarrow> writeAll fd (drop written bytes) w'))"
  by pat_completeness auto
termination
  by (relation "measure (\<lambda>(fd, bytes, w). length (writes w))")
    (auto simp: os_write_def split: list.splits write_answer.splits)

declare writeAll.simps [simp del]

text \<open>The loop of \<open>drainResponses\<close>: where \<open>line\<close> ends up, and the buffer with the newlines overwritten.\<close>

function drainLoop :: "nat \<Rightarrow> string \<Rightarrow> os \<Rightarrow> nat \<times> string \<times> os" where
  "drainLoop line buf w =
     (case memchr buf line NL of
        None \<Rightarrow> (line, buf, w)
      | Some newline \<Rightarrow>
          let buf1 = terminate_line buf line newline
          in drainLoop (newline + 1) buf1 (print (cstr (drop line buf1) @ [NL]) w))"
  by pat_completeness auto
termination
  by (relation "measure (\<lambda>(line, buf, w). length buf - line)") (auto simp: memchr_def index_of_Some)

declare drainLoop.simps [simp del]

definition drainResponses :: "client \<Rightarrow> client" where
  "drainResponses st =
     (case drainLoop 0 (cl_recvbuf st) (net st) of (line, buf, w) \<Rightarrow> st\<lparr>cl_recvbuf := drop line buf, net := w\<rparr>)"

text \<open>The loop of \<open>sendPendingCommands\<close>; \<open>False\<close> when a write failed.\<close>

function sendLoop :: "int \<Rightarrow> nat \<Rightarrow> bool \<Rightarrow> string \<Rightarrow> os \<Rightarrow> bool \<times> nat \<times> bool \<times> os" where
  "sendLoop fd line skipping buf w =
     (case memchr buf line NL of
        None \<Rightarrow> (True, line, skipping, w)
      | Some newline \<Rightarrow>
          let len = newline - line + 1
          in if skipping then sendLoop fd (newline + 1) False buf w
             else if len > 1 then
               (case writeAll fd (take len (drop line buf)) w of
                  (done, w1) \<Rightarrow> if \<not> done then (False, line, skipping, w1) else sendLoop fd (newline + 1) skipping buf w1)
             else sendLoop fd (newline + 1) skipping buf w)"
  by pat_completeness auto
termination
  by (relation "measure (\<lambda>(fd, line, skipping, buf, w). length buf - line)") (auto simp: memchr_def index_of_Some)

declare sendLoop.simps [simp del]

definition sendPendingCommands :: "int \<Rightarrow> client \<Rightarrow> bool \<times> client" where
  "sendPendingCommands fd st =
     (case sendLoop fd 0 (cl_discarding st) (cl_inbuf st) (net st) of
        (ok, line, skipping, w) \<Rightarrow>
          let st1 = st\<lparr>cl_discarding := skipping, net := w\<rparr>
          in if \<not> ok then (False, st1)
             else
               let st2 = st1\<lparr>cl_inbuf := drop line (cl_inbuf st1)\<rparr>
               in if length (cl_inbuf st2) = BUFFER_SIZE
                  then (True, (tell (''Input line too long, discarded'' @ [NL]) st2)\<lparr>cl_discarding := True, cl_inbuf := []\<rparr>)
                  else (True, st2))"

section \<open>The loop\<close>

text \<open>The server's descriptor is ready: the boolean tells whether \<open>communicate\<close> returns.\<close>

definition fromServer :: "client \<Rightarrow> bool \<times> client" where
  "fromServer st =
     (case os_read (RECVBUF_SIZE - length (cl_recvbuf st)) (net st) of
        (ReadFailed e, w) \<Rightarrow> (True, tell (''Failed to read from server'' @ [NL]) (st\<lparr>net := w\<rparr>))
      | (Read bytes, w) \<Rightarrow>
          if bytes = [] then (True, tell (''Server closed the connection'' @ [NL]) (st\<lparr>net := w\<rparr>))
          else
            let st1 = drainResponses (st\<lparr>cl_recvbuf := cl_recvbuf st @ bytes, net := w\<rparr>)
            in if length (cl_recvbuf st1) = RECVBUF_SIZE
               then (True, tell (''Server sent an over-long response'' @ [NL]) st1) else (False, st1))"

definition read_stdin :: "nat \<Rightarrow> client \<Rightarrow> read_result \<times> client" where
  "read_stdin room st =
     (case os_read room ((net st)\<lparr>reads := stdin_reads st\<rparr>) of (answer, w) \<Rightarrow> (answer, st\<lparr>stdin_reads := reads w\<rparr>))"

definition fromUser :: "int \<Rightarrow> client \<Rightarrow> bool \<times> client" where
  "fromUser fd st =
     (case read_stdin (BUFFER_SIZE - length (cl_inbuf st)) st of
        (ReadFailed e, st1) \<Rightarrow> (True, tell (''Failed to read input'' @ [NL]) st1)
      | (Read bytes, st1) \<Rightarrow>
          if bytes = [] then (False, st1\<lparr>stdin_open := False, net := emit (ShutdownWrite fd) (net st1)\<rparr>)
          else
            (case sendPendingCommands fd (st1\<lparr>cl_inbuf := cl_inbuf st1 @ bytes\<rparr>) of
               (sent_all, st2) \<Rightarrow>
                 if \<not> sent_all then (True, tell (''Failed to write to server'' @ [NL]) st2) else (False, st2)))"

text \<open>
  An answer of \<open>poll\<close>: it fails, or says which of the server's descriptor and the standard input have
  events; a negative descriptor is never reported. When the answers are used up the client still waits.
\<close>

datatype poll_answer = PollFailed errno | Ready bool bool

definition poll_pass :: "int \<Rightarrow> bool \<Rightarrow> bool \<Rightarrow> client \<Rightarrow> bool \<times> client" where
  "poll_pass fd server_ready stdin_ready st =
     (case (if server_ready then fromServer st else (False, st)) of
        (stop, st1) \<Rightarrow>
          if stop then (True, st1)
          else if stdin_ready \<and> stdin_open st1 then fromUser fd st1 else (False, st1))"

fun client_communicate :: "int \<Rightarrow> poll_answer list \<Rightarrow> client \<Rightarrow> bool \<times> client" where
  "client_communicate fd [] st = (False, st)"
| "client_communicate fd (PollFailed e # ps) st =
     (if e = EINTR then client_communicate fd ps st else (True, tell (''Failed to wait for input'' @ [NL]) st))"
| "client_communicate fd (Ready server_ready stdin_ready # ps) st =
     (case poll_pass fd server_ready stdin_ready st of
        (stop, st1) \<Rightarrow> if stop then (True, st1) else client_communicate fd ps st1)"

section \<open>The program\<close>

text \<open>The answers of the set-up calls; \<open>ip_ok\<close> says which texts \<open>inet_pton\<close> takes for an address.\<close>

record client_setup =
  sigpipe_ignored :: bool
  client_socket :: "nat option"
  ip_ok :: "string \<Rightarrow> bool"
  connect_ok :: bool

datatype client_outcome = ClientExited int os | ClientWaiting client

definition client_fail :: "nat \<Rightarrow> string \<Rightarrow> os \<Rightarrow> client_outcome" where
  "client_fail fd reason w = ClientExited 1 (emit (Closed (int fd)) (print (reason @ [NL]) w))"

definition start_client :: "read_answer list \<Rightarrow> os \<Rightarrow> client" where
  "start_client ins w =
     \<lparr>cl_inbuf = [], cl_discarding = False, cl_recvbuf = [], stdin_reads = ins, stdin_open = True, net = w\<rparr>"

definition trader_session :: "nat \<Rightarrow> poll_answer list \<Rightarrow> read_answer list \<Rightarrow> os \<Rightarrow> client_outcome" where
  "trader_session fd ps ins w =
     (case client_communicate (int fd) ps (start_client ins w) of
        (left, st) \<Rightarrow> if left then ClientExited 0 (emit (Closed (int fd)) (net st)) else ClientWaiting st)"

definition trader_main ::
  "string list \<Rightarrow> client_setup \<Rightarrow> poll_answer list \<Rightarrow> read_answer list \<Rightarrow> os \<Rightarrow> client_outcome" where
  "trader_main argv su ps ins w =
     (if \<not> sigpipe_ignored su then ClientExited 1 (print (''Failed to ignore SIGPIPE'' @ [NL]) w)
      else
        let host = (case main_arg 1 argv of None \<Rightarrow> SERVER_IP | Some h \<Rightarrow> h);
            user = main_arg 3 argv
        in case parse_port (main_arg 2 argv) of
             None \<Rightarrow> ClientExited 1 (print (''Invalid port: '' @ argv ! 2 @ [NL]) w)
           | Some port \<Rightarrow>
               (case client_socket su of
                  None \<Rightarrow> ClientExited 1 (print (''Failed to create socket'' @ [NL]) w)
                | Some fd \<Rightarrow>
                    if \<not> ip_ok su host then client_fail fd (''Invalid server address: '' @ host) w
                    else if \<not> connect_ok su then client_fail fd ''Failed to connect to server'' w
                    else
                      (case user of
                         None \<Rightarrow> trader_session fd ps ins w
                       | Some name \<Rightarrow>
                           let login = ''LOGIN '' @ name @ [NL]
                           in if length login \<ge> BUFFER_SIZE then client_fail fd ''Failed to send LOGIN'' w
                              else
                                (case writeAll (int fd) login w of
                                   (done, w1) \<Rightarrow>
                                     if \<not> done then client_fail fd ''Failed to send LOGIN'' w1
                                     else trader_session fd ps ins w1))))"

end
