(* ===== verification/Trader_Runs.thy ===== *)
theory Trader_Runs
  imports Trader_Client
begin

text \<open>
  What the trader's client does over a whole run: the bytes it reads, from the server and from the user,
  are cut into lines in whatever pieces they arrive; the responses are printed line by line, and the lines
  typed are sent, those that do not fit the buffer left out.
\<close>

section \<open>Lines of a text\<close>

text \<open>The complete lines and the partial one at the end, when \<open>p\<close> stands before the text.\<close>

fun split_lines :: "string \<Rightarrow> string \<Rightarrow> string list \<times> string" where
  "split_lines p [] = ([], p)"
| "split_lines p (c # cs) = (if c = NL then (case split_lines [] cs of (ls, r) \<Rightarrow> (p # ls, r)) else split_lines (p @ [c]) cs)"

lemma cut_append: "split_lines p (xs @ ys) = (fst (split_lines p xs) @ fst (split_lines (snd (split_lines p xs)) ys), snd (split_lines (snd (split_lines p xs)) ys))"
  by (induction xs arbitrary: p) (auto split: prod.split)

lemma cut_partial: "NL \<notin> set xs \<Longrightarrow> split_lines p xs = ([], p @ xs)"
  by (induction xs arbitrary: p) auto

lemma cut_line: "NL \<notin> set xs \<Longrightarrow> split_lines p (xs @ NL # ys) = ((p @ xs) # fst (split_lines [] ys), snd (split_lines [] ys))"
  by (simp add: cut_append cut_partial case_prod_beta)

lemma cut_lengths:
  "length (snd (split_lines p xs)) \<le> length p + length xs \<and> (\<forall>l \<in> set (fst (split_lines p xs)). length l < length p + length xs)"
proof (induction xs arbitrary: p)
  case (Cons x xs)
  from Cons [of "[]"] Cons [of "p @ [x]"] show ?case
    by (auto simp: case_prod_beta)
qed simp

lemma cut_no_newline: "NL \<notin> set p \<Longrightarrow> NL \<notin> set (snd (split_lines p xs))"
  by (induction xs arbitrary: p) (simp_all add: case_prod_beta)

lemma line_cases:
  obtains "NL \<notin> set s" | line rest where "s = line @ NL # rest" and "NL \<notin> set line"
  using split_list_first [of NL s] by blast

lemma memchr_line:
  "NL \<notin> set line \<Longrightarrow> memchr (pre @ line @ NL # rest) (length pre) NL = Some (length pre + length line)"
  by (induction line) (auto simp: memchr_def)

lemma memchr_none: "NL \<notin> set s \<Longrightarrow> memchr (pre @ s) (length pre) NL = None"
  by (simp add: memchr_None)

section \<open>Responses\<close>

definition response_event :: "string \<Rightarrow> event" where
  "response_event l = Printed (line_of l @ [NL])"

definition print_all :: "string list \<Rightarrow> os \<Rightarrow> os" where
  "print_all ls w = w\<lparr>log := log w @ map response_event ls\<rparr>"

lemma print_all_simps [simp]:
  "print_all [] w = w" "print_all (l # ls) w = print_all ls (emit (response_event l) w)"
  by (simp_all add: print_all_def emit_def)

lemma drainLoop_cut:
  "\<exists>pre'. drainLoop (length pre) (pre @ s) w = (length pre', pre' @ snd (split_lines [] s), print_all (fst (split_lines [] s)) w)"
proof (induction s arbitrary: pre w rule: length_induct)
  case (1 s)
  show ?case
  proof (cases s rule: line_cases)
    case 1
    then show ?thesis
      by (subst drainLoop.simps) (auto simp: memchr_none cut_partial)
  next
    case (2 line rest)
    let ?line' = "if line \<noteq> [] \<and> last line = CR then butlast line @ [NUL] else line"
    let ?pre' = "pre @ ?line' @ [NUL]"
    have len: "length ?line' = length line"
      by simp
    have buf: "terminate_line (pre @ line @ NL # rest) (length pre) (length pre + length line) = ?pre' @ rest"
      unfolding terminate_line_split by simp
    have "drainLoop (length pre) (pre @ s) w =
        drainLoop (length ?pre') (?pre' @ rest) (emit (response_event line) w)"
      using memchr_line [OF 2(2), of pre rest] terminated_line [of pre line rest] len unfolding 2(1)
      by (subst drainLoop.simps) (simp add: buf response_event_def Let_def)
    moreover obtain pre2 where "drainLoop (length ?pre') (?pre' @ rest) (emit (response_event line) w) =
        (length pre2, pre2 @ snd (split_lines [] rest), print_all (fst (split_lines [] rest)) (emit (response_event line) w))"
      using "1" [rule_format, of rest ?pre' "emit (response_event line) w"] 2(1) by auto
    ultimately show ?thesis
      using 2 by (auto simp: cut_line)
  qed
qed

lemma drainResponses_cut:
  "drainResponses st = st\<lparr>cl_recvbuf := snd (split_lines [] (cl_recvbuf st)), net := print_all (fst (split_lines [] (cl_recvbuf st))) (net st)\<rparr>"
  using drainLoop_cut [of "[]" "cl_recvbuf st" "net st"] by (auto simp: drainResponses_def)

section \<open>Commands\<close>

text \<open>What goes over the wire for typed lines: every one that is not empty, with its newline.\<close>

definition wire :: "string list \<Rightarrow> string" where
  "wire ls = concat (map (\<lambda>l. if l = [] then [] else l @ [NL]) ls)"

lemma wire_simps [simp]:
  "wire [] = []" "wire (l # ls) = (if l = [] then [] else l @ [NL]) @ wire ls" "wire (ks @ ls) = wire ks @ wire ls"
  by (simp_all add: wire_def)

definition TOO_LONG :: string where
  "TOO_LONG = ''Input line too long, discarded'' @ [NL]"

text \<open>What the user sees, the client's own complaints about long input lines left out.\<close>

fun is_shown :: "event \<Rightarrow> bool" where
  "is_shown (Printed s) = (s \<noteq> TOO_LONG)"
| "is_shown _ = False"

definition shown :: "os \<Rightarrow> event list" where
  "shown w = filter is_shown (log w)"

lemma shown_simps [simp]:
  "shown (emit e w) = shown w @ (if is_shown e then [e] else [])"
  "shown (w\<lparr>reads := rs\<rparr>) = shown w"
  "shown (print_all ls w) = shown w @ filter is_shown (map response_event ls)"
  by (simp_all add: shown_def print_all_def)

lemma sent_print_all [simp]: "sent fd (print_all ls w) = sent fd w" "reads (print_all ls w) = reads w"
  by (auto simp: sent_def print_all_def response_event_def)

lemma writeAll_effect:
  "writeAll fd bytes w = (done, w') \<Longrightarrow>
   (done \<longrightarrow> sent fd w' = sent fd w @ bytes) \<and> prefix (sent fd w') (sent fd w @ bytes) \<and> shown w' = shown w \<and> reads w' = reads w"
proof (induction fd bytes w rule: writeAll.induct)
  case (1 fd bytes w)
  show ?case
  proof (cases "bytes = []")
    case True
    with "1.prems" show ?thesis by (subst (asm) writeAll.simps) simp
  next
    case False
    obtain r w1 where wr: "os_write fd bytes w = (r, w1)" by fastforce
    have e: "shown w1 = shown w" "reads w1 = reads w" "sent fd w1 = sent fd w @ (case r of Done n \<Rightarrow> take n bytes | Failed e \<Rightarrow> [])"
      using wr by (auto simp: os_write_def shown_def sent_def emit_def min_def split: list.splits write_answer.splits)
    show ?thesis
    proof (cases r)
      case (Done n)
      then have "writeAll fd (drop n bytes) w1 = (done, w')"
        using "1.prems" wr False by (subst (asm) writeAll.simps) simp
      from "1.IH"(1) [OF False wr [symmetric] Done this] e Done show ?thesis by simp
    next
      case (Failed er)
      show ?thesis
      proof (cases "er = EINTR")
        case True
        with Failed have "writeAll fd bytes w1 = (done, w')"
          using "1.prems" wr False by (subst (asm) writeAll.simps) simp
        from "1.IH"(2) [OF False wr [symmetric] Failed True this] e Failed show ?thesis by simp
      next
        case False
        with Failed \<open>bytes \<noteq> []\<close> show ?thesis
          using "1.prems" wr e by (subst (asm) writeAll.simps) auto
      qed
    qed
  qed
qed

text \<open>The lines of the buffer, sent one by one; the first one is the rest of a line that is being discarded.\<close>

fun put_lines :: "int \<Rightarrow> bool \<Rightarrow> string list \<Rightarrow> os \<Rightarrow> bool \<times> bool \<times> os" where
  "put_lines fd skipping [] w = (True, skipping, w)"
| "put_lines fd skipping (l # ls) w =
     (if skipping then put_lines fd False ls w
      else if l = [] then put_lines fd skipping ls w
      else
        (case writeAll fd (l @ [NL]) w of
           (done, w1) \<Rightarrow> if done then put_lines fd skipping ls w1 else (False, skipping, w1)))"

lemma sendLoop_cut:
  "\<exists>pre' line. let result = put_lines fd skipping (fst (split_lines [] s)) w in
     sendLoop fd (length pre) skipping (pre @ s) w = (fst result, line, snd result) \<and>
     (fst result \<longrightarrow> line = length pre' \<and> pre @ s = pre' @ snd (split_lines [] s))"
proof (induction s arbitrary: pre w skipping rule: length_induct)
  case (1 s)
  show ?case
  proof (cases s rule: line_cases)
    case 1
    then show ?thesis
      by (subst sendLoop.simps) (auto simp: memchr_none cut_partial)
  next
    case (2 line rest)
    let ?pre' = "pre @ line @ [NL]"
    note unfold = sendLoop.simps [of fd "length pre" _ "pre @ line @ NL # rest" w,
        unfolded memchr_line [OF 2(2), of pre rest] option.case Let_def]
    have IH: "\<exists>pre' i. let result = put_lines fd sk (fst (split_lines [] rest)) w1 in
       sendLoop fd (length pre + length line + 1) sk (pre @ line @ NL # rest) w1 = (fst result, i, snd result) \<and>
       (fst result \<longrightarrow> i = length pre' \<and> pre @ line @ NL # rest = pre' @ snd (split_lines [] rest))" for sk w1
      using "1" [rule_format, of rest sk w1 ?pre'] 2(1) by simp
    have chunk: "take (length pre + length line - length pre + 1) (drop (length pre) (pre @ line @ NL # rest)) = line @ [NL]"
      by simp
    have eq: "sendLoop fd (length pre) skipping (pre @ s) w =
        (if skipping then sendLoop fd (length pre + length line + 1) False (pre @ line @ NL # rest) w
         else if line = [] then sendLoop fd (length pre + length line + 1) skipping (pre @ line @ NL # rest) w
         else
           case writeAll fd (line @ [NL]) w of
             (d, w1) \<Rightarrow> if \<not> d then (False, length pre, skipping, w1)
               else sendLoop fd (length pre + length line + 1) skipping (pre @ line @ NL # rest) w1)"
      unfolding 2(1) unfold chunk by simp
    have cut: "fst (split_lines [] s) = line # fst (split_lines [] rest)" "snd (split_lines [] s) = snd (split_lines [] rest)"
      unfolding 2(1) by (simp_all add: cut_line [OF 2(2), of "[]" rest, simplified])
    obtain d w1 where wr: "writeAll fd (line @ [NL]) w = (d, w1)" by fastforce
    show ?thesis
      using IH [of False w] IH [of skipping w] IH [of skipping w1] unfolding eq cut
      by (cases skipping; cases "line = []"; cases d) (simp_all add: wr 2(1))
  qed
qed

lemma put_lines_effect:
  assumes "put_lines fd skipping ls w = (ok, skipping', w')"
  shows "shown w' = shown w \<and> reads w' = reads w \<and> (ok \<longrightarrow> skipping' = (skipping \<and> ls = [])) \<and>
    (ok \<longrightarrow> sent fd w' = sent fd w @ wire (if skipping then tl ls else ls))"
  using assms
proof (induction ls arbitrary: skipping w)
  case (Cons l ls)
  obtain d w1 where wr: "writeAll fd (l @ [NL]) w = (d, w1)" by fastforce
  show ?case
  proof (cases "skipping \<or> l = []")
    case True
    with Cons.IH [of False w] Cons.prems show ?thesis by (cases skipping) auto
  next
    case False
    with Cons.IH [of False w1] Cons.prems wr writeAll_effect [OF wr] show ?thesis
      by (auto split: if_splits)
  qed
qed simp

section \<open>The line being typed\<close>

text \<open>
  The partial line \<open>r\<close> the user has typed, in a buffer that is emptied whenever it is full: the buffer
  holds the last \<open>length r mod BUFFER_SIZE\<close> bytes, and \<open>discarding\<close> is set once it has been emptied.
\<close>

definition in_buffer :: "string \<Rightarrow> string" where
  "in_buffer r = drop (BUFFER_SIZE * (length r div BUFFER_SIZE)) r"

definition short :: "string \<Rightarrow> bool" where
  "short l \<longleftrightarrow> length l < BUFFER_SIZE"

lemma BUFFER_pos [simp]: "0 < BUFFER_SIZE"
  by (simp add: BUFFER_SIZE_def)

lemma in_buffer_length: "length (in_buffer r) = length r mod BUFFER_SIZE"
  by (simp add: in_buffer_def minus_mult_div_eq_mod)

lemma in_buffer_short: "short r \<Longrightarrow> in_buffer r = r"
  by (simp add: in_buffer_def short_def)

lemma in_buffer_set: "set (in_buffer r) \<subseteq> set r"
  by (simp add: in_buffer_def set_drop_subset)

lemma in_buffer_append:
  assumes "length (in_buffer r) + length bs < BUFFER_SIZE"
  shows "in_buffer (r @ bs) = in_buffer r @ bs" and "BUFFER_SIZE \<le> length (r @ bs) \<longleftrightarrow> BUFFER_SIZE \<le> length r"
proof -
  let ?q = "length r div BUFFER_SIZE"
  have len: "length r = BUFFER_SIZE * ?q + length (in_buffer r)"
    by (simp add: in_buffer_length)
  have le: "BUFFER_SIZE * ?q \<le> length r"
    by (rule times_div_less_eq_dividend)
  have "(length r + length bs) div BUFFER_SIZE = ?q"
    using len assms by (intro div_nat_eqI) (simp_all add: algebra_simps)
  then show "in_buffer (r @ bs) = in_buffer r @ bs"
    using le by (simp add: in_buffer_def)
  show "BUFFER_SIZE \<le> length (r @ bs) \<longleftrightarrow> BUFFER_SIZE \<le> length r"
    using len assms by (cases "?q") auto
qed

lemma in_buffer_full:
  assumes "length (in_buffer r) + length bs = BUFFER_SIZE"
  shows "in_buffer (r @ bs) = []" and "BUFFER_SIZE \<le> length (r @ bs)"
proof -
  have "length r + length bs = BUFFER_SIZE * (length r div BUFFER_SIZE) + (length r mod BUFFER_SIZE + length bs)"
    by simp
  also have "\<dots> = BUFFER_SIZE * Suc (length r div BUFFER_SIZE)"
    using assms by (simp add: in_buffer_length)
  finally have "(length r + length bs) mod BUFFER_SIZE = 0"
    by simp
  then show "in_buffer (r @ bs) = []"
    using in_buffer_length [of "r @ bs"] by simp
  have "length (in_buffer r) \<le> length r"
    by (simp add: in_buffer_def)
  with assms show "BUFFER_SIZE \<le> length (r @ bs)" by simp
qed

text \<open>A chunk of input that ends no line, and one that does.\<close>

definition typing :: "string \<Rightarrow> client \<Rightarrow> bool" where
  "typing r st \<longleftrightarrow> cl_inbuf st = in_buffer r \<and> cl_discarding st = (\<not> short r) \<and> NL \<notin> set r"

definition same_but_typing :: "client \<Rightarrow> client \<Rightarrow> bool" where
  "same_but_typing st st' \<longleftrightarrow> cl_recvbuf st' = cl_recvbuf st \<and> stdin_reads st' = stdin_reads st \<and>
     stdin_open st' = stdin_open st \<and> reads (net st') = reads (net st) \<and> shown (net st') = shown (net st)"

lemma sendPending_partial:
  assumes "typing r st" and "NL \<notin> set bs" and "length (in_buffer r) + length bs \<le> BUFFER_SIZE"
    and "sendPendingCommands fd (st\<lparr>cl_inbuf := cl_inbuf st @ bs\<rparr>) = (True, st')"
  shows "typing (r @ bs) st' \<and> same_but_typing st st' \<and> sent fd (net st') = sent fd (net st)"
proof -
  have nl: "NL \<notin> set (in_buffer r @ bs)"
    using assms(1,2) in_buffer_set by (auto simp: typing_def)
  have loop: "sendLoop fd 0 (cl_discarding st) (in_buffer r @ bs) (net st) = (True, 0, cl_discarding st, net st)"
    using memchr_none [OF nl, of "[]"] by (subst sendLoop.simps) simp
  show ?thesis
  proof (cases "length (in_buffer r) + length bs = BUFFER_SIZE")
    case True
    with assms loop in_buffer_full [OF True] nl show ?thesis
      by (auto simp: sendPendingCommands_def typing_def same_but_typing_def short_def TOO_LONG_def)
  next
    case False
    with assms(3) have "length (in_buffer r) + length bs < BUFFER_SIZE" by simp
    with assms loop False in_buffer_append [of r bs] nl show ?thesis
      by (auto simp: sendPendingCommands_def typing_def same_but_typing_def short_def)
  qed
qed

lemma sendPending_lines:
  assumes "typing r st" and "NL \<notin> set a" and "length (in_buffer r) + length (a @ NL # b) \<le> BUFFER_SIZE"
    and "sendPendingCommands fd (st\<lparr>cl_inbuf := cl_inbuf st @ a @ NL # b\<rparr>) = (True, st')"
  shows "typing (snd (split_lines [] b)) st' \<and> same_but_typing st st' \<and>
    sent fd (net st') = sent fd (net st) @ wire (filter short ((r @ a) # fst (split_lines [] b)))"
proof -
  let ?ls = "fst (split_lines [] b)" and ?tail = "snd (split_lines [] b)" and ?sk = "cl_discarding st"
  let ?first = "in_buffer r @ a"
  have nl: "NL \<notin> set ?first"
    using assms(1,2) in_buffer_set by (auto simp: typing_def)
  have cut: "split_lines [] (?first @ NL # b) = (?first # ?ls, ?tail)"
    using cut_line [OF nl, of "[]" b] by simp
  have small: "list_all short ?ls" "length ?tail < BUFFER_SIZE"
    using cut_lengths [of "[]" b] assms(3) by (auto simp: list_all_iff short_def)
  obtain ok sk' w' where puts: "put_lines fd ?sk (?first # ?ls) (net st) = (ok, sk', w')"
    by (metis prod_cases3)
  obtain pre' line where loop: "sendLoop fd 0 ?sk (?first @ NL # b) (net st) = (ok, line, sk', w')"
      "ok \<longrightarrow> line = length pre' \<and> ?first @ NL # b = pre' @ ?tail"
    using sendLoop_cut [of fd ?sk "?first @ NL # b" "net st" "[]"] puts unfolding cut by (auto simp: Let_def)
  have buf: "cl_inbuf st @ a @ NL # b = ?first @ NL # b"
    using assms(1) by (simp add: typing_def)
  have ok: ok
    using assms(4) loop(1) unfolding buf by (simp add: sendPendingCommands_def Let_def split: if_splits)
  then have st': "st' = st\<lparr>cl_inbuf := ?tail, cl_discarding := sk', net := w'\<rparr>"
    using assms(4) loop small(2) unfolding buf by (auto simp: sendPendingCommands_def Let_def)
  note P = put_lines_effect [OF puts]
  have wire: "wire (if ?sk then tl (?first # ?ls) else ?first # ?ls) = wire (filter short ((r @ a) # ?ls))"
  proof (cases "short r")
    case True
    with assms(1,3) small(1) in_buffer_short [OF True] show ?thesis
      by (simp add: typing_def short_def filter_id_conv list_all_iff)
  next
    case False
    with assms(1) small(1) show ?thesis
      by (simp add: typing_def short_def filter_id_conv list_all_iff)
  qed
  have "sent fd w' = sent fd (net st) @ wire (filter short ((r @ a) # ?ls))"
    using P ok unfolding wire by blast
  moreover have "NL \<notin> set ?tail" "short ?tail"
    using cut_no_newline [of "[]" b] small(2) by (auto simp: short_def)
  ultimately show ?thesis
    using P ok by (simp add: st' typing_def same_but_typing_def in_buffer_short)
qed

lemma sendPending_typed:
  assumes "typing r st" and "length (in_buffer r) + length bs \<le> BUFFER_SIZE"
    and "sendPendingCommands fd (st\<lparr>cl_inbuf := cl_inbuf st @ bs\<rparr>) = (True, st')"
  shows "typing (snd (split_lines r bs)) st' \<and> same_but_typing st st' \<and>
    sent fd (net st') = sent fd (net st) @ wire (filter short (fst (split_lines r bs)))"
proof (cases bs rule: line_cases)
  case 1
  with sendPending_partial [OF assms(1) _ assms(2,3)] show ?thesis by (simp add: cut_partial)
next
  case (2 a b)
  with sendPending_lines [OF assms(1) 2(2), of b] assms(2,3) show ?thesis by (simp add: cut_line)
qed

section \<open>Runs\<close>

text \<open>
  After a run that started with the log of \<open>w\<close>, in which the server sent \<open>R\<close> and the user typed \<open>T\<close>: the
  complete lines of \<open>R\<close> were printed, the short complete lines of \<open>T\<close> were sent, the rest is in the buffers.
\<close>

definition after_run :: "int \<Rightarrow> os \<Rightarrow> string \<Rightarrow> string \<Rightarrow> client \<Rightarrow> bool" where
  "after_run fd w R T st \<longleftrightarrow>
     shown (net st) = shown w @ filter is_shown (map response_event (fst (split_lines [] R))) \<and>
     sent fd (net st) = sent fd w @ wire (filter short (fst (split_lines [] T))) \<and>
     cl_recvbuf st = snd (split_lines [] R) \<and> length (cl_recvbuf st) < RECVBUF_SIZE \<and>
     typing (snd (split_lines [] T)) st"

text \<open>The bytes consumed on the way from \<open>st\<close> to \<open>st'\<close>.\<close>

definition consumes :: "string \<Rightarrow> string \<Rightarrow> client \<Rightarrow> client \<Rightarrow> bool" where
  "consumes R T st st' \<longleftrightarrow>
     incoming (reads (net st)) = R @ incoming (reads (net st')) \<and>
     (stdin_open st' \<longrightarrow> stdin_open st) \<and> (\<not> stdin_open st \<longrightarrow> T = []) \<and>
     (stdin_open st \<longrightarrow> incoming (stdin_reads st) = T @ (if stdin_open st' then incoming (stdin_reads st') else []))"

lemma consumes_refl [simp]: "consumes [] [] st st"
  by (simp add: consumes_def)

lemma consumes_trans: "consumes R T st st1 \<Longrightarrow> consumes R' T' st1 st2 \<Longrightarrow> consumes (R @ R') (T @ T') st st2"
  by (auto simp: consumes_def split: if_splits)

lemma fromServer_step:
  assumes "after_run fd w R T st" and "fromServer st = (False, st')"
  shows "\<exists>R'. after_run fd w (R @ R') T st' \<and> consumes R' [] st st'"
proof -
  obtain a w1 where rd: "os_read (RECVBUF_SIZE - length (cl_recvbuf st)) (net st) = (a, w1)" by fastforce
  have room: "0 < RECVBUF_SIZE - length (cl_recvbuf st)"
    using assms(1) by (auto simp: after_run_def)
  obtain bs where bs: "a = Read bs" "bs \<noteq> []"
    using assms(2) rd by (cases a) (auto simp: fromServer_def split: if_splits)
  note D = os_read_data [OF rd [unfolded bs(1)] bs(2) room]
  obtain rs where w1: "w1 = (net st)\<lparr>reads := rs\<rparr>"
    using os_read_world [OF rd] by blast
  let ?r = "snd (split_lines [] R)"
  have nl: "NL \<notin> set ?r"
    using cut_no_newline [of "[]" R] by simp
  have cut: "split_lines [] (?r @ bs) = split_lines ?r bs"
    using cut_append [of "[]" ?r bs] cut_partial [OF nl, of "[]"] by simp
  let ?st1 = "st\<lparr>cl_recvbuf := snd (split_lines ?r bs), net := print_all (fst (split_lines ?r bs)) w1\<rparr>"
  have st': "st' = ?st1" "length (snd (split_lines ?r bs)) \<noteq> RECVBUF_SIZE"
    using assms rd bs by (auto simp: fromServer_def drainResponses_cut Let_def after_run_def cut split: if_splits)
  moreover have "length (snd (split_lines ?r bs)) \<le> RECVBUF_SIZE"
    using cut_lengths [of ?r bs] D(3) assms(1) by (auto simp: after_run_def)
  ultimately have "after_run fd w (R @ bs) T st'"
    using assms(1) by (simp add: after_run_def w1 cut_append [of "[]" R bs] typing_def)
  moreover have "consumes bs [] st st'"
    using D(1) by (simp add: consumes_def st' w1)
  ultimately show ?thesis by blast
qed

lemma fromUser_step:
  assumes "after_run fd w R T st" and "stdin_open st" and "fromUser fd st = (False, st')"
  shows "\<exists>T'. after_run fd w R (T @ T') st' \<and> consumes [] T' st st'"
proof -
  let ?t = "snd (split_lines [] T)" and ?room = "BUFFER_SIZE - length (cl_inbuf st)" and ?w = "(net st)\<lparr>reads := stdin_reads st\<rparr>"
  obtain a w1 where rd: "os_read ?room ?w = (a, w1)" by fastforce
  have t: "typing ?t st" "cl_inbuf st = in_buffer ?t"
    using assms(1) by (simp_all add: after_run_def typing_def)
  then have room: "0 < ?room"
    by (simp add: in_buffer_length)
  obtain bs where bs: "a = Read bs"
    using assms(3) rd by (cases a) (auto simp: fromUser_def read_stdin_def)
  show ?thesis
  proof (cases "bs = []")
    case True
    then have st': "st' = st\<lparr>stdin_reads := reads w1, stdin_open := False, net := emit (ShutdownWrite fd) (net st)\<rparr>"
      using assms(3) rd bs by (auto simp: fromUser_def read_stdin_def)
    have "after_run fd w R T st'"
      using assms(1) by (auto simp: st' after_run_def typing_def)
    moreover have "consumes [] [] st st'"
      using os_read_eof [of ?room ?w w1] rd bs True room assms(2) by (simp add: consumes_def st')
    ultimately show ?thesis by (intro exI [of _ "[]"]) simp
  next
    case False
    note D = os_read_data [OF rd [unfolded bs] False room]
    let ?st1 = "st\<lparr>stdin_reads := reads w1\<rparr>"
    have "typing ?t ?st1"
      using t(1) by (simp add: typing_def)
    moreover have "length (in_buffer ?t) + length bs \<le> BUFFER_SIZE"
      using D(3) room by (simp add: t(2))
    moreover have "sendPendingCommands fd (?st1\<lparr>cl_inbuf := cl_inbuf ?st1 @ bs\<rparr>) = (True, st')"
      using assms(3) rd bs False by (auto simp: fromUser_def read_stdin_def split: prod.splits if_splits)
    ultimately have P: "typing (snd (split_lines ?t bs)) st' \<and> same_but_typing ?st1 st' \<and>
        sent fd (net st') = sent fd (net ?st1) @ wire (filter short (fst (split_lines ?t bs)))"
      by (rule sendPending_typed)
    then have "after_run fd w R (T @ bs) st'"
      using assms(1) by (auto simp: after_run_def same_but_typing_def cut_append [of "[]" T bs])
    moreover have "consumes [] bs st st'"
      using P D(1) assms(2) by (simp add: consumes_def same_but_typing_def)
    ultimately show ?thesis by blast
  qed
qed

lemma poll_pass_step:
  assumes "after_run fd w R T st" and "poll_pass fd srv usr st = (False, st')"
  shows "\<exists>R' T'. after_run fd w (R @ R') (T @ T') st' \<and> consumes R' T' st st'"
proof -
  obtain st1 where st1: "(if srv then fromServer st else (False, st)) = (False, st1)"
      "(if usr \<and> stdin_open st1 then fromUser fd st1 else (False, st1)) = (False, st')"
    using assms(2) by (auto simp: poll_pass_def split: prod.splits if_splits)
  have "\<exists>R'. after_run fd w (R @ R') T st1 \<and> consumes R' [] st st1"
  proof (cases srv)
    case True
    with st1(1) fromServer_step [OF assms(1)] show ?thesis by simp
  next
    case False
    with st1(1) assms(1) show ?thesis by (intro exI [of _ "[]"]) simp
  qed
  then obtain R' where R': "after_run fd w (R @ R') T st1" "consumes R' [] st st1" by blast
  have "\<exists>T'. after_run fd w (R @ R') (T @ T') st' \<and> consumes [] T' st1 st'"
  proof (cases "usr \<and> stdin_open st1")
    case True
    with st1(2) fromUser_step [OF R'(1)] show ?thesis by simp
  next
    case False
    with st1(2) R'(1) show ?thesis by (intro exI [of _ "[]"]) (auto split: if_splits)
  qed
  with consumes_trans [OF R'(2)] show ?thesis by fastforce
qed

lemma client_run:
  "after_run fd w R T st \<Longrightarrow> client_communicate fd ps st = (False, st') \<Longrightarrow>
   \<exists>R' T'. after_run fd w (R @ R') (T @ T') st' \<and> consumes R' T' st st'"
proof (induction ps arbitrary: R T st)
  case Nil
  then show ?case by (intro exI [of _ "[]"]) simp
next
  case (Cons p ps)
  show ?case
  proof (cases p)
    case (PollFailed e)
    with Cons show ?thesis by (auto split: if_splits)
  next
    case (Ready srv usr)
    then obtain st1 where st1: "poll_pass fd srv usr st = (False, st1)" "client_communicate fd ps st1 = (False, st')"
      using Cons.prems(2) by (auto split: prod.splits if_splits)
    obtain R1 T1 where 1: "after_run fd w (R @ R1) (T @ T1) st1" "consumes R1 T1 st st1"
      using poll_pass_step [OF Cons.prems(1) st1(1)] by blast
    obtain R2 T2 where "after_run fd w ((R @ R1) @ R2) ((T @ T1) @ T2) st'" "consumes R2 T2 st1 st'"
      using Cons.IH [OF 1(1) st1(2)] by blast
    with consumes_trans [OF 1(2)] show ?thesis by (metis append.assoc)
  qed
qed

lemma after_run_start: "after_run fd w [] [] (start_client ins w)"
  by (simp add: after_run_def start_client_def typing_def in_buffer_def short_def RECVBUF_SIZE_def)

text \<open>
  C20. While the client runs, and however the bytes are cut into reads: it has printed exactly the
  complete lines the server sent, and sent exactly the complete lines typed that fit its buffer and
  are not empty; the rest is in its buffers.
\<close>

theorem client_relays_lines:
  assumes "client_communicate fd ps (start_client ins w) = (False, st)"
  shows "\<exists>R T. consumes R T (start_client ins w) st \<and>
    shown (net st) = shown w @ filter is_shown (map response_event (fst (split_lines [] R))) \<and>
    sent fd (net st) = sent fd w @ wire (filter short (fst (split_lines [] T))) \<and>
    cl_recvbuf st = snd (split_lines [] R) \<and> cl_inbuf st = in_buffer (snd (split_lines [] T))"
  using client_run [OF after_run_start assms] by (auto simp: after_run_def typing_def)

definition sample_input :: "read_answer list" where
  "sample_input = [RData ''BUY'', RData (''x'' @ [NL] @ ''SE'')]"

definition sample_net :: os where
  "sample_net = idle_os\<lparr>reads := [RData (''OK'' @ [NL])], writes := [WErr EINTR, WOk 2, WOk 9]\<rparr>"

theorem client_relays_lines_witness:
  "\<exists>st R T. client_communicate 3 [Ready True True, PollFailed EINTR, Ready False True] (start_client sample_input sample_net) = (False, st) \<and>
     consumes R T (start_client sample_input sample_net) st \<and>
     sent 3 (net st) = sent 3 sample_net @ wire (filter short (fst (split_lines [] T)))"
proof -
  let ?run = "client_communicate 3 [Ready True True, PollFailed EINTR, Ready False True] (start_client sample_input sample_net)"
  have "fst ?run = False"
    by code_simp
  then have "?run = (False, snd ?run)"
    by (simp add: prod_eq_iff)
  from client_relays_lines [OF this] this show ?thesis by blast
qed

section \<open>Why the client stops\<close>

text \<open>In a state that a run leads to; the receive buffer is not full then.\<close>

lemma fromServer_stops:
  assumes "after_run fd w R T st" and "fromServer st = (True, st')"
  shows "last (log (net st')) = Printed (''Failed to read from server'' @ [NL]) \<and> (\<exists>e rs. reads (net st) \<in> {[], RErr e # rs}) \<or>
    last (log (net st')) = Printed (''Server closed the connection'' @ [NL]) \<and> (\<exists>rs. reads (net st) \<in> {REof # rs, RData [] # rs}) \<or>
    last (log (net st')) = Printed (''Server sent an over-long response'' @ [NL]) \<and>
      (\<exists>bs rest. incoming (reads (net st)) = bs @ rest \<and> length (snd (split_lines [] (R @ bs))) = RECVBUF_SIZE)"
proof -
  obtain a w1 where rd: "os_read (RECVBUF_SIZE - length (cl_recvbuf st)) (net st) = (a, w1)" by fastforce
  have room: "0 < RECVBUF_SIZE - length (cl_recvbuf st)"
    using assms(1) by (auto simp: after_run_def)
  consider (failed) e where "a = ReadFailed e" | (eof) "a = Read []" | (bytes) bs where "a = Read bs" "bs \<noteq> []"
    by (cases a) auto
  then show ?thesis
  proof cases
    case failed
    with rd assms(2) have "last (log (net st')) = Printed (''Failed to read from server'' @ [NL])"
      by (auto simp: fromServer_def)
    moreover have "\<exists>e rs. reads (net st) \<in> {[], RErr e # rs}"
      using rd failed by (auto simp: os_read_def split: list.splits read_answer.splits)
    ultimately show ?thesis by blast
  next
    case eof
    with rd assms(2) have "last (log (net st')) = Printed (''Server closed the connection'' @ [NL])"
      by (auto simp: fromServer_def)
    moreover have "\<exists>rs. reads (net st) \<in> {REof # rs, RData [] # rs}"
      using rd eof room by (auto simp: os_read_def split: list.splits read_answer.splits)
    ultimately show ?thesis by blast
  next
    case bytes
    let ?r = "snd (split_lines [] R)"
    have "cl_recvbuf st = ?r" "NL \<notin> set ?r"
      using assms(1) cut_no_newline [of "[]" R] by (auto simp: after_run_def)
    then have cut: "split_lines [] (cl_recvbuf st @ bs) = split_lines ?r bs"
      using cut_append [of "[]" ?r bs] cut_partial [of ?r "[]"] by simp
    have "last (log (net st')) = Printed (''Server sent an over-long response'' @ [NL])"
      "length (snd (split_lines ?r bs)) = RECVBUF_SIZE"
      using rd assms(2) bytes by (auto simp: fromServer_def drainResponses_cut Let_def cut split: if_splits)
    then show ?thesis
      using os_read_data(1) [OF rd [unfolded bytes(1)] bytes(2) room] cut_append [of "[]" R bs] by auto
  qed
qed

text \<open>
  C39. In a run of the client, it gives up on the server only if the read failed, the stream ended,
  or the server's line does not fit the buffer; a full buffer is never taken for the end of the
  stream.
\<close>

theorem client_stops:
  assumes "client_communicate fd ps (start_client ins w) = (False, st)" and "fromServer st = (True, st')"
  shows "last (log (net st')) = Printed (''Failed to read from server'' @ [NL]) \<and> (\<exists>e rs. reads (net st) \<in> {[], RErr e # rs}) \<or>
    last (log (net st')) = Printed (''Server closed the connection'' @ [NL]) \<and> (\<exists>rs. reads (net st) \<in> {REof # rs, RData [] # rs}) \<or>
    last (log (net st')) = Printed (''Server sent an over-long response'' @ [NL]) \<and>
      (\<exists>R T bs rest. consumes R T (start_client ins w) st \<and> incoming (reads (net st)) = bs @ rest \<and>
        length (snd (split_lines [] (R @ bs))) = RECVBUF_SIZE)"
proof -
  obtain R T where run: "after_run fd w R T st" "consumes R T (start_client ins w) st"
    using client_run [OF after_run_start assms(1)] by auto
  from fromServer_stops [OF run(1) assms(2)] show ?thesis
  proof (elim disjE, goal_cases failed closed overlong)
    case overlong
    with run(2) show ?case by (intro disjI2) blast
  qed (rule disjI1, assumption, rule disjI2, rule disjI1, assumption)
qed

theorem client_stops_witness:
  "last (log (net (snd (fromServer (snd (client_communicate 3 [Ready True False] (start_client []
     (idle_os\<lparr>reads := [RData ''hello'', REof]\<rparr>)))))))) = Printed (''Server closed the connection'' @ [NL])"
proof -
  let ?run = "client_communicate 3 [Ready True False] (start_client [] (idle_os\<lparr>reads := [RData ''hello'', REof]\<rparr>))"
  let ?st = "snd ?run"
  have "fst ?run = False" "fst (fromServer ?st) = True" "reads (net ?st) = [REof]"
    by code_simp+
  then have r: "?run = (False, ?st)" "fromServer ?st = (True, snd (fromServer ?st))" "reads (net ?st) = [REof]"
    by (simp_all add: prod_eq_iff)
  have "R = ''hello''" if "consumes R T (start_client [] (idle_os\<lparr>reads := [RData ''hello'', REof]\<rparr>)) ?st" for R T
    using that unfolding consumes_def r(3) by (simp add: start_client_def)
  then have "\<not> (\<exists>R T bs rest. consumes R T (start_client [] (idle_os\<lparr>reads := [RData ''hello'', REof]\<rparr>)) ?st \<and>
      incoming (reads (net ?st)) = bs @ rest \<and> length (snd (split_lines [] (R @ bs))) = RECVBUF_SIZE)"
    unfolding r(3) by (fastforce simp: RECVBUF_SIZE_def)
  moreover have "\<not> (\<exists>e rs. reads (net ?st) \<in> {[], RErr e # rs})"
    unfolding r(3) by simp
  ultimately show ?thesis
    using client_stops [OF r(1,2)] by blast
qed

end
