(* ===== verification/Market_Data_Client.thy ===== *)
theory Market_Data_Client
  imports Trader_Runs Streams
begin

text \<open>
  The market data client, \<open>src/market_data_client.c\<close>. The program repeats the functions of
  \<open>trader_client.c\<close>, over globals of the same names, and so does this theory; the two loops are proved
  equal. It ends with what the two clients do when they start: the line they send is the command the server runs.
\<close>

section \<open>The program\<close>

function market_writeAll :: "int \<Rightarrow> string \<Rightarrow> os \<Rightarrow> bool \<times> os" where
  "market_writeAll fd bytes w =
     (if bytes = [] then (True, w)
      else
        (case os_write fd bytes w of
           (Failed e, w') \<Rightarrow> if e = EINTR then market_writeAll fd bytes w' else (False, w')
         | (Done written, w') \<Rightarrow> market_writeAll fd (drop written bytes) w'))"
  by pat_completeness auto
termination
  by (relation "measure (\<lambda>(fd, bytes, w). length (writes w))")
    (auto simp: os_write_def split: list.splits write_answer.splits)

declare market_writeAll.simps [simp del]

function market_drainLoop :: "nat \<Rightarrow> string \<Rightarrow> os \<Rightarrow> nat \<times> string \<times> os" where
  "market_drainLoop line buf w =
     (case memchr buf line NL of
        None \<Rightarrow> (line, buf, w)
      | Some newline \<Rightarrow>
          let buf1 = terminate_line buf line newline
          in market_drainLoop (newline + 1) buf1 (print (cstr (drop line buf1) @ [NL]) w))"
  by pat_completeness auto
termination
  by (relation "measure (\<lambda>(line, buf, w). length buf - line)") (auto simp: memchr_def index_of_Some)

declare market_drainLoop.simps [simp del]

definition market_drainResponses :: "client \<Rightarrow> client" where
  "market_drainResponses st =
     (case market_drainLoop 0 (cl_recvbuf st) (net st) of (line, buf, w) \<Rightarrow> st\<lparr>cl_recvbuf := drop line buf, net := w\<rparr>)"

function market_sendLoop :: "int \<Rightarrow> nat \<Rightarrow> bool \<Rightarrow> string \<Rightarrow> os \<Rightarrow> bool \<times> nat \<times> bool \<times> os" where
  "market_sendLoop fd line skipping buf w =
     (case memchr buf line NL of
        None \<Rightarrow> (True, line, skipping, w)
      | Some newline \<Rightarrow>
          let len = newline - line + 1
          in if skipping then market_sendLoop fd (newline + 1) False buf w
             else if len > 1 then
               (case market_writeAll fd (take len (drop line buf)) w of
                  (done, w1) \<Rightarrow> if \<not> done then (False, line, skipping, w1) else market_sendLoop fd (newline + 1) skipping buf w1)
             else market_sendLoop fd (newline + 1) skipping buf w)"
  by pat_completeness auto
termination
  by (relation "measure (\<lambda>(fd, line, skipping, buf, w). length buf - line)") (auto simp: memchr_def index_of_Some)

declare market_sendLoop.simps [simp del]

definition market_sendPendingCommands :: "int \<Rightarrow> client \<Rightarrow> bool \<times> client" where
  "market_sendPendingCommands fd st =
     (case market_sendLoop fd 0 (cl_discarding st) (cl_inbuf st) (net st) of
        (ok, line, skipping, w) \<Rightarrow>
          let st1 = st\<lparr>cl_discarding := skipping, net := w\<rparr>
          in if \<not> ok then (False, st1)
             else
               let st2 = st1\<lparr>cl_inbuf := drop line (cl_inbuf st1)\<rparr>
               in if length (cl_inbuf st2) = BUFFER_SIZE
                  then (True, (tell (''Input line too long, discarded'' @ [NL]) st2)\<lparr>cl_discarding := True, cl_inbuf := []\<rparr>)
                  else (True, st2))"

definition market_fromServer :: "client \<Rightarrow> bool \<times> client" where
  "market_fromServer st =
     (case os_read (RECVBUF_SIZE - length (cl_recvbuf st)) (net st) of
        (ReadFailed e, w) \<Rightarrow> (True, tell (''Failed to read from server'' @ [NL]) (st\<lparr>net := w\<rparr>))
      | (Read bytes, w) \<Rightarrow>
          if bytes = [] then (True, tell (''Server closed the connection'' @ [NL]) (st\<lparr>net := w\<rparr>))
          else
            let st1 = market_drainResponses (st\<lparr>cl_recvbuf := cl_recvbuf st @ bytes, net := w\<rparr>)
            in if length (cl_recvbuf st1) = RECVBUF_SIZE
               then (True, tell (''Server sent an over-long response'' @ [NL]) st1) else (False, st1))"

definition market_fromUser :: "int \<Rightarrow> client \<Rightarrow> bool \<times> client" where
  "market_fromUser fd st =
     (case read_stdin (BUFFER_SIZE - length (cl_inbuf st)) st of
        (ReadFailed e, st1) \<Rightarrow> (True, tell (''Failed to read input'' @ [NL]) st1)
      | (Read bytes, st1) \<Rightarrow>
          if bytes = [] then (False, st1\<lparr>stdin_open := False, net := emit (ShutdownWrite fd) (net st1)\<rparr>)
          else
            (case market_sendPendingCommands fd (st1\<lparr>cl_inbuf := cl_inbuf st1 @ bytes\<rparr>) of
               (sent_all, st2) \<Rightarrow>
                 if \<not> sent_all then (True, tell (''Failed to write to server'' @ [NL]) st2) else (False, st2)))"

definition market_poll_pass :: "int \<Rightarrow> bool \<Rightarrow> bool \<Rightarrow> client \<Rightarrow> bool \<times> client" where
  "market_poll_pass fd server_ready stdin_ready st =
     (case (if server_ready then market_fromServer st else (False, st)) of
        (stop, st1) \<Rightarrow>
          if stop then (True, st1)
          else if stdin_ready \<and> stdin_open st1 then market_fromUser fd st1 else (False, st1))"

fun market_communicate :: "int \<Rightarrow> poll_answer list \<Rightarrow> client \<Rightarrow> bool \<times> client" where
  "market_communicate fd [] st = (False, st)"
| "market_communicate fd (PollFailed e # ps) st =
     (if e = EINTR then market_communicate fd ps st else (True, tell (''Failed to wait for input'' @ [NL]) st))"
| "market_communicate fd (Ready server_ready stdin_ready # ps) st =
     (case market_poll_pass fd server_ready stdin_ready st of
        (stop, st1) \<Rightarrow> if stop then (True, st1) else market_communicate fd ps st1)"

definition market_session :: "nat \<Rightarrow> poll_answer list \<Rightarrow> read_answer list \<Rightarrow> os \<Rightarrow> client_outcome" where
  "market_session fd ps ins w =
     (case market_communicate (int fd) ps (start_client ins w) of
        (left, st) \<Rightarrow> if left then ClientExited 0 (emit (Closed (int fd)) (net st)) else ClientWaiting st)"

definition market_main ::
  "string list \<Rightarrow> client_setup \<Rightarrow> poll_answer list \<Rightarrow> read_answer list \<Rightarrow> os \<Rightarrow> client_outcome" where
  "market_main argv su ps ins w =
     (if \<not> sigpipe_ignored su then ClientExited 1 (print (''Failed to ignore SIGPIPE'' @ [NL]) w)
      else
        let host = (case main_arg 1 argv of None \<Rightarrow> SERVER_IP | Some h \<Rightarrow> h);
            inst = main_arg 3 argv
        in case parse_port (main_arg 2 argv) of
             None \<Rightarrow> ClientExited 1 (print (''Invalid port: '' @ argv ! 2 @ [NL]) w)
           | Some port \<Rightarrow>
               (case client_socket su of
                  None \<Rightarrow> ClientExited 1 (print (''Failed to create socket'' @ [NL]) w)
                | Some fd \<Rightarrow>
                    if \<not> ip_ok su host then client_fail fd (''Invalid server address: '' @ host) w
                    else if \<not> connect_ok su then client_fail fd ''Failed to connect to server'' w
                    else
                      (case inst of
                         None \<Rightarrow> market_session fd ps ins w
                       | Some name \<Rightarrow>
                           let subscribe = ''SUBSCRIBE '' @ name @ [NL]
                           in if length subscribe \<ge> BUFFER_SIZE then client_fail fd ''Failed to send SUBSCRIBE'' w
                              else
                                (case market_writeAll (int fd) subscribe w of
                                   (done, w1) \<Rightarrow>
                                     if \<not> done then client_fail fd ''Failed to send SUBSCRIBE'' w1
                                     else market_session fd ps ins w1))))"

section \<open>The two clients agree\<close>

lemma market_writeAll_eq: "market_writeAll fd bytes w = writeAll fd bytes w"
proof (induction fd bytes w rule: writeAll.induct)
  case (1 fd bytes w)
  then show ?case
    by (subst market_writeAll.simps, subst writeAll.simps) (auto split: prod.split io_result.split)
qed

lemma market_drainLoop_eq: "market_drainLoop line buf w = drainLoop line buf w"
proof (induction line buf w rule: drainLoop.induct)
  case (1 line buf w)
  then show ?case
    by (subst market_drainLoop.simps, subst drainLoop.simps) (auto split: option.split)
qed

lemma market_sendLoop_eq: "market_sendLoop fd line skipping buf w = sendLoop fd line skipping buf w"
proof (induction fd line skipping buf w rule: sendLoop.induct)
  case (1 fd line skipping buf w)
  then show ?case
    by (subst market_sendLoop.simps, subst sendLoop.simps) (auto simp: market_writeAll_eq Let_def split: option.split prod.split)
qed

lemma market_loops_eq: "market_writeAll = writeAll" "market_drainLoop = drainLoop" "market_sendLoop = sendLoop"
  by (intro ext market_writeAll_eq market_drainLoop_eq market_sendLoop_eq)+

lemma market_pass_eq: "market_poll_pass fd srv usr st = poll_pass fd srv usr st"
  unfolding market_poll_pass_def poll_pass_def market_fromServer_def fromServer_def market_fromUser_def fromUser_def
    market_drainResponses_def drainResponses_def market_sendPendingCommands_def sendPendingCommands_def market_loops_eq
  by (rule refl)

text \<open>
  C40. The loops of the two clients, written twice, do the same on every input.
\<close>

theorem clients_agree:
  "market_communicate fd ps st = client_communicate fd ps st \<and> market_session n ps ins w = trader_session n ps ins w"
proof -
  have "market_communicate f ps st = client_communicate f ps st" for f ps st
    by (induction f ps st rule: client_communicate.induct) (auto simp: market_pass_eq split: prod.split)
  then show ?thesis by (simp add: market_session_def trader_session_def)
qed

section \<open>A session opens\<close>

text \<open>Exactly \<open>bytes\<close> arrive at a connection that has nothing buffered.\<close>

definition arrives :: "string \<Rightarrow> nat \<Rightarrow> exchange \<Rightarrow> bool" where
  "arrives bytes self s \<longleftrightarrow>
     (\<exists>c. slot s self = Some c \<and> \<not> closing c \<and> \<not> discarding c \<and> inbuf c = [] \<and> scanned_len c = 0) \<and>
     incoming (reads (world s)) = bytes \<and> ending_of (reads (world s)) = Blocked"

text \<open>The server's \<open>communicate\<close> logs the line and runs the command.\<close>

definition runs_command :: "(nat \<Rightarrow> exchange \<Rightarrow> bool \<times> exchange) \<Rightarrow> string \<Rightarrow> nat \<Rightarrow> exchange \<Rightarrow> bool" where
  "runs_command command line self s \<longleftrightarrow>
     (\<exists>don s'. communicate self s = Some (don, s') \<and> (don, forget self s') = command self (echo line self (forget self s)))"

lemma line_runs_command:
  assumes "arrives (l @ [NL]) self s" and "whole_line l" and "line_of l = l"
    and "\<And>c. slot (forget self s) self = Some c \<Longrightarrow>
      processLine l self (forget self s) = command self (echo l self (forget self s))"
  shows "runs_command command l self s"
proof -
  obtain c where c: "slot s self = Some c" "\<not> closing c" "\<not> discarding c" "inbuf c = []" "scanned_len c = 0"
    and io: "incoming (reads (world s)) = l @ [NL]" "ending_of (reads (world s)) = Blocked"
    using assms(1) by (auto simp: arrives_def)
  have fc: "slot (forget self s) self = Some (blank c)"
    using c(1) by simp
  obtain don t where h: "processLine l self (forget self s) = (don, t)" by fastforce
  obtain c1 where c1: "slot t self = Some c1"
    using client.handle_step(1) [OF fc h] by blast
  obtain don' s' where run: "communicate self s = Some (don', s')"
    "case run_lines processLine self [l] (forget self s) of (r, t) \<Rightarrow> don' = (r = Some True) \<and> forget self s' = t"
    using lines_processed [OF c, of "[l]"] assms(2) io by (auto simp del: run_lines.simps)
  then have "don' = don \<and> forget self s' = t"
    using h c1 assms(3) by (auto split: if_splits)
  with run(1) h assms(4) [OF fc] show ?thesis
    by (simp add: runs_command_def)
qed

lemma client_started:
  assumes "client_socket su = Some fd"
  shows "trader_main [prog, host, port, name] su [] ins w = ClientWaiting st \<Longrightarrow>
      \<exists>w1. writeAll (int fd) (''LOGIN '' @ name @ [NL]) w = (True, w1) \<and> st = start_client ins w1"
    and "market_main [prog, host, port, name] su [] ins w = ClientWaiting st \<Longrightarrow>
      \<exists>w1. writeAll (int fd) (''SUBSCRIBE '' @ name @ [NL]) w = (True, w1) \<and> st = start_client ins w1"
  using assms
  by (auto simp: trader_main_def market_main_def main_arg_def client_fail_def trader_session_def market_session_def Let_def
      market_loops_eq split: if_splits option.splits prod.splits)

lemma client_opening:
  assumes "\<exists>w1. writeAll (int fd) line w = (True, w1) \<and> st = start_client ins w1"
  shows "sent (int fd) (net st) = sent (int fd) w @ line"
  using assms writeAll_effect [of "int fd" line w True] by (auto simp: start_client_def)

lemma clean_line:
  assumes "token arg" and "NUL \<notin> set arg" and "NUL \<notin> set cmd"
  shows "line_of (cmd @ arg) = cmd @ arg"
proof -
  have "arg \<noteq> []" "last arg \<noteq> CR"
    using assms(1) last_in_set [of arg] by (auto simp: token_def list_all_iff isspace_def)
  then have "cmd @ arg \<noteq> []" "last (cmd @ arg) \<noteq> CR" by auto
  moreover have "NUL \<notin> set (cmd @ arg)" using assms(2,3) by simp
  ultimately show ?thesis
    by (auto simp: line_of_def cstr_def takeWhile_eq_all_conv)
qed

lemma clean_whole_line:
  assumes "token arg" and "NL \<notin> set cmd" and "length cmd \<le> 10" and "length arg < USERNAME_LENGTH"
  shows "whole_line (cmd @ arg)"
  using assms by (auto simp: whole_line_def config_defs token_def list_all_iff isspace_def)

text \<open>
  C21. A client started with a name sends exactly the line with which the server, when it arrives at
  a fresh connection, runs LOGIN or SUBSCRIBE with that name.
\<close>

theorem clients_open_session:
  assumes "client_socket su = Some fd" and "token name" and "NUL \<notin> set name" and "length name < USERNAME_LENGTH"
  shows "(trader_main [prog, host, port, name] su [] ins w = ClientWaiting st \<longrightarrow>
      (\<exists>bytes. sent (int fd) (net st) = sent (int fd) w @ bytes \<and>
        (\<forall>s self. arrives bytes self s \<longrightarrow> runs_command (loginUser name) (''LOGIN '' @ name) self s))) \<and>
    (market_main [prog, host, port, name] su [] ins w = ClientWaiting st \<longrightarrow>
      (\<exists>bytes. sent (int fd) (net st) = sent (int fd) w @ bytes \<and>
        (\<forall>s self. arrives bytes self s \<longrightarrow> runs_command (subscribeClient name) (''SUBSCRIBE '' @ name) self s)))"
proof -
  have log: "runs_command (loginUser name) (''LOGIN '' @ name) self s" if "arrives (''LOGIN '' @ name @ [NL]) self s" for self s
  proof (rule line_runs_command)
    show "processLine (''LOGIN '' @ name) self t = loginUser name self (echo (''LOGIN '' @ name) self t)" if "slot t self = Some c" for t c
      using that sscanf_two [OF keyword_tokens(1) assms(2)] assms(4) by (simp add: processLine_def echo_def Let_def config_defs)
  qed (use that assms clean_line [of name "''LOGIN ''"] clean_whole_line [of name "''LOGIN ''"] in simp_all)
  have sub: "runs_command (subscribeClient name) (''SUBSCRIBE '' @ name) self s" if "arrives (''SUBSCRIBE '' @ name @ [NL]) self s" for self s
  proof (rule line_runs_command)
    show "processLine (''SUBSCRIBE '' @ name) self t = subscribeClient name self (echo (''SUBSCRIBE '' @ name) self t)" if "slot t self = Some c" for t c
      using that sscanf_two [OF keyword_tokens(2) assms(2)] by (simp add: processLine_def echo_def Let_def config_defs)
  qed (use that assms clean_line [of name "''SUBSCRIBE ''"] clean_whole_line [of name "''SUBSCRIBE ''"] in simp_all)
  show ?thesis
  proof (intro conjI impI)
    assume "trader_main [prog, host, port, name] su [] ins w = ClientWaiting st"
    from client_opening [OF client_started(1) [OF assms(1) this]] log
    show "\<exists>bytes. sent (int fd) (net st) = sent (int fd) w @ bytes \<and>
        (\<forall>s self. arrives bytes self s \<longrightarrow> runs_command (loginUser name) (''LOGIN '' @ name) self s)"
      by (intro exI [of _ "''LOGIN '' @ name @ [NL]"] conjI allI impI)
  next
    assume "market_main [prog, host, port, name] su [] ins w = ClientWaiting st"
    from client_opening [OF client_started(2) [OF assms(1) this]] sub
    show "\<exists>bytes. sent (int fd) (net st) = sent (int fd) w @ bytes \<and>
        (\<forall>s self. arrives bytes self s \<longrightarrow> runs_command (subscribeClient name) (''SUBSCRIBE '' @ name) self s)"
      by (intro exI [of _ "''SUBSCRIBE '' @ name @ [NL]"] conjI allI impI)
  qed
qed

definition sample_setup :: client_setup where
  "sample_setup = \<lparr>sigpipe_ignored = True, client_socket = Some 3, ip_ok = (\<lambda>h. h = SERVER_IP), connect_ok = True\<rparr>"

theorem clients_open_session_witness:
  "runs_command (loginUser ''bob'') ''LOGIN bob'' 2 (sample_reads [RData (''LOGIN '' @ ''bob'' @ [NL])])"
proof -
  let ?w = "idle_os\<lparr>writes := [WOk 4, WErr EINTR, WOk 99]\<rparr>"
  let ?run = "trader_main [''trader_client'', SERVER_IP, ''8080'', ''bob''] sample_setup [] [] ?w"
  have "case ?run of ClientWaiting st \<Rightarrow> sent 3 (net st) = ''LOGIN bob'' @ [NL] | ClientExited n w \<Rightarrow> False"
    by code_simp
  then obtain st where st: "?run = ClientWaiting st" "sent 3 (net st) = ''LOGIN bob'' @ [NL]"
    by (auto split: client_outcome.splits)
  have "client_socket sample_setup = Some 3" "token ''bob''" "NUL \<notin> set ''bob''" "length ''bob'' < USERNAME_LENGTH" "sent 3 ?w = []"
    by (simp_all add: sample_setup_def token_def isspace_def config_defs idle_os_def sent_def)
  moreover have "arrives (''LOGIN bob'' @ [NL]) 2 (sample_reads [RData (''LOGIN '' @ ''bob'' @ [NL])])"
    by (simp add: arrives_def new_client_def)
  ultimately show ?thesis
    using clients_open_session [of sample_setup 3 "''bob''" "''trader_client''" SERVER_IP "''8080''" "[]" ?w st] st by auto
qed

end
