(* ===== verification/Spec2Isabelle.thy ===== *)
theory Spec2Isabelle
  imports Order_Heap Runs Market_Data_Client
begin

text \<open>
  The Socket Exchange: a limit-order exchange for two instruments over TCP, one server process with an event
  loop over \<open>kqueue\<close> and two line-oriented clients. This development models all of its C code and proves what
  makes each part, and the composition of the parts, correct.

  \<^bold>\<open>The program and its theories\<close>, from the bottom up (file and function names are under \<open>src/\<close>):

    \<^item> \<open>Exchange_Prelude\<close>: C integers, the answers of the allocator, lemmas on lists.
    \<^item> \<open>Orderbook\<close>: \<open>includes/orderbook.c\<close> on lists. A book is four lists of \<open>Order\<close> in arrival order; \<open>addOrder\<close>
      with its loop \<open>matchLoop\<close>, \<open>detachClientOrders\<close>, \<open>cancelOrder\<close>. The array of fills is a list; \<open>growFills\<close>
      keeps its capacity, so that a failing \<open>realloc\<close> is a branch. \<open>Book_Invariant\<close> has the invariant \<open>book_ok\<close>
      and the properties of the three operations.
    \<^item> \<open>Order_Heap\<close>: the same functions pointer by pointer, on a heap with \<open>next\<close>, \<open>prev\<close> and \<open>free\<close>. Every access
      to a cell that is not allocated gives \<open>None\<close>. The refinement relation says that the four chains
      hold the four lists and nothing else is allocated.
    \<^item> \<open>C_Text\<close>: the C library's string functions that the program uses (\<open>sscanf\<close> with the server's one format,
      \<open>strtol\<close>, \<open>%d\<close>, \<open>memchr\<close>, \<open>snprintf\<close>). \<open>Os\<close>: system calls that answer from scripts, and the log of effects.
    \<^item> \<open>Connection\<close>: \<open>struct ClientConnection\<close> and the output side of \<open>io.c\<close> (\<open>sendToClient\<close>, \<open>flushToClient\<close>,
      \<open>sendLine\<close>, \<open>replyError\<close>).
    \<^item> \<open>Commands\<close>: \<open>includes/commands.c\<close>, one definition for each command; the state is the record \<open>exchange\<close>: the
      table of connections, the book, \<open>next_order_id\<close>, the world. \<open>Exchange_Invariant\<close> has the invariant
      \<open>exchange_ok\<close> and its preservation by every command.
    \<^item> \<open>Framing\<close>: \<open>communicate\<close> of \<open>io.c\<close>, which cuts a byte stream into lines. The function that handles a
      line is a parameter of the loops; the locale \<open>line_handler\<close> says what \<open>communicate\<close> relies on.
      \<open>Protocol\<close>: \<open>processLine\<close>, and the interpretation \<open>client\<close> of the locale by it.
    \<^item> \<open>Reports\<close> and \<open>Sessions\<close>: what each client is sent, line by line; \<open>Streams\<close>: the input side of a connection.
    \<^item> \<open>Server\<close>: \<open>includes/server.c\<close> and \<open>removeClient\<close>. \<open>Exchange_Server\<close>: \<open>exchange_server.c\<close>, with the step
      relation \<open>server_step\<close> and its reachable states. \<open>Runs\<close>: the properties of whole runs.
    \<^item> \<open>Trader_Client\<close>, \<open>Trader_Runs\<close>: \<open>trader_client.c\<close> and its properties. \<open>Market_Data_Client\<close>:
      \<open>market_data_client.c\<close>, its equality with the former, and the opening of a session from client to server.

  \<^bold>\<open>What is proved.\<close> The book: matching is exact-price, first come first served, conserves quantities and reports
  the executions with their parties as long as memory lasts; the invariant holds after every operation; the pointer code
  has no memory error and no leak, ends, and refines the list functions. Output: per client a FIFO of whole lines within its bound,
  and no send fails while writes do not fail for good and the buffer has room. Input: independent of how the stream is cut; it
  equals a reader of single bytes. Commands: as long as memory lasts, each line with a word in it has one reply, and each fill has
  its BOUGHT, SOLD and TRADE lines sent to the parties and subscribers; a client whose buffer is full, or to whom a write
  fails, loses lines, and the code ignores that for all but the sender of the order. Each command's effect is
  stated exactly. Server: the invariant in every reachable state, clean reuse of descriptors, termination of every loop, an orderly
  shutdown, and a \<open>main\<close> that returns or waits whatever the system answers. Clients: they print the complete lines
  they receive and send the complete lines typed, and what they send first is what the server understands.
\<close>

text \<open>
  \<^bold>\<open>Representation.\<close> A C \<open>int\<close> is an HOL integer, with the conversion of a wider value and the increment of
  \<open>next_order_id\<close> written out modulo \<open>2 ^ 32\<close>; quantities only shrink, so they need no wrap-around. A buffer with
  its length is one list, bounded by the invariants; a C string is its contents. A null pointer is \<open>None\<close>; following one,
  or writing outside the table, is the event \<open>NullDeref\<close>, which no reachable state has in its log. The overflow of \<open>next_order_id\<close> is the event
  \<open>IdOverflow\<close>; the theorems on ids assume it has not happened.

  \<^bold>\<open>The outside world.\<close> Each kind of system call takes its answers from a script, an arbitrary finite list: short
  writes and reads, errors, failing allocations, new connections. When a script is used up, the calls answer \<open>EAGAIN\<close> or
  succeed. So a statement for all scripts covers every finite behaviour of the kernel. The descriptor \<open>accept\<close> returns is any one
  that is not open. The events \<open>kevent\<close> delivers and the answers of \<open>poll\<close> are lists, too; when they are used up the program waits.

  \<^bold>\<open>Termination.\<close> No definition has fuel. Loops that consume a script have a \<open>termination\<close> proof; the loops of
  \<open>communicate\<close>, \<open>growConns\<close>, \<open>acceptClients\<close> and of the heap functions are \<open>partial_function (option)\<close>, where not
  returning is \<open>None\<close>, and are proved to return in every state that satisfies the invariant.

  \<^bold>\<open>Not modelled.\<close> The layout of \<open>struct sockaddr\<close> beyond address and port; \<open>setvbuf\<close>; the signal handler, of which only the effect
  remains, that the loop finds \<open>running\<close> cleared; which events \<open>kqueue\<close> delivers when, which is arbitrary here, so that no claim rests on it;
  the overflow of \<open>int\<close> in the capacity of the table, which descriptors below \<open>2 ^ 30\<close> cannot cause, and in the capacity
  of the array of fills, which takes \<open>2 ^ 30\<close> executions of one order. A number out of range for \<open>%d\<close>, which ISO C
  leaves undefined, is converted as FreeBSD's library does it. The Python scripts, shell launchers and build files are not part of the program proper.
\<close>

end
